(* ===== verification/Prelude.thy ===== *)
theory Prelude
  imports Main "HOL-Library.Word" "HOL-Library.Log_Nat"
begin

text \<open>
  Shared vocabulary of the StreamMix development.

  The TypeScript sources use bytes (\<^verbatim>\<open>Uint8Array\<close>), strings (sequences of UTF-16 code
  units), exceptions and plain objects used as dictionaries. This theory fixes how each of
  them is written in HOL and collects the generic lemmas that the component theories share:

  \<^item> \<open>byte\<close> is an 8-bit word, \<open>jsstring\<close> a list of 16-bit words (so \<open>length\<close> is
    JavaScript's \<^verbatim>\<open>.length\<close>), and \<open>js\<close> turns an ASCII literal into such a string;
  \<^item> a computation that may throw is a sum, \<open>Inl\<close> the thrown error; \<open>bindR\<close> sequences
    two of them and \<open>throw\<close> names \<open>Inl\<close>;
  \<^item> big-endian byte encodings of fixed width, used by every \<^verbatim>\<open>DataView\<close> access.
\<close>

named_theorems byte_simps \<open>facts about byte sequences and big-endian fields\<close>

type_synonym byte = "8 word"
type_synonym bytes = "8 word list"
type_synonym codeunit = "16 word"
type_synonym jsstring = "16 word list"

definition js :: "string \<Rightarrow> jsstring" where
  "js s = map of_char s"

lemma js_Nil [simp]: "js [] = []"
  by (simp add: js_def)

lemma js_Cons [simp]: "js (c # s) = of_char c # js s"
  by (simp add: js_def)

lemma js_append [simp]: "js (s @ t) = js s @ js t"
  by (simp add: js_def)

lemma length_js [simp]: "length (js s) = length s"
  by (simp add: js_def)

lemma of_char_16_eq_iff [simp]: "of_char c = (of_char d :: 16 word) \<longleftrightarrow> c = d"
proof
  assume "of_char c = (of_char d :: 16 word)"
  then have "unat (of_nat (of_char c) :: 16 word) = unat (of_nat (of_char d) :: 16 word)"
    by (simp only: of_nat_of_char)
  moreover have "of_char c < (65536 :: nat)" for c
    by (rule less_trans [OF nat_of_char_less_256]) simp
  ultimately show "c = d"
    by (simp add: unat_of_nat)
qed simp

lemma js_eq_iff [simp]: "js s = js t \<longleftrightarrow> s = t"
  by (simp add: js_def inj_map_eq_map inj_def)

definition startsWith :: "jsstring \<Rightarrow> jsstring \<Rightarrow> bool" where
  "startsWith s prefix \<longleftrightarrow> take (length prefix) s = prefix"

lemma startsWith_iff: "startsWith s p \<longleftrightarrow> (\<exists>r. s = p @ r)"
  by (auto simp: startsWith_def) (metis append_take_drop_id)

subsection \<open>Computations that may throw\<close>

definition throw :: "'e \<Rightarrow> 'e + 'a" where
  "throw e = Inl e"

definition bindR :: "'e + 'a \<Rightarrow> ('a \<Rightarrow> 'e + 'b) \<Rightarrow> 'e + 'b" where
  "bindR m f = (case m of Inl e \<Rightarrow> Inl e | Inr x \<Rightarrow> f x)"

lemma bindR_simps [simp]:
  "bindR (Inl e) f = Inl e"
  "bindR (Inr x) f = f x"
  by (simp_all add: bindR_def)

lemma bindR_eq_Inr [simp]: "bindR m f = Inr y \<longleftrightarrow> (\<exists>x. m = Inr x \<and> f x = Inr y)"
  by (cases m) auto

lemma bindR_eq_Inl: "bindR m f = Inl e \<longleftrightarrow> m = Inl e \<or> (\<exists>x. m = Inr x \<and> f x = Inl e)"
  by (cases m) auto

lemma throw_neq_Inr [simp]: "throw e \<noteq> Inr x" "Inr x \<noteq> throw e"
  by (simp_all add: throw_def)

lemma throw_eq_Inl [simp]: "throw e = Inl e' \<longleftrightarrow> e = e'"
  by (simp add: throw_def)

lemma if_throw_eq_Inr [simp]: "(if b then throw e else m) = Inr x \<longleftrightarrow> \<not> b \<and> m = Inr x"
  by auto

text \<open>\<^verbatim>\<open>try { return Some(m) } catch { return fallback }\<close>\<close>

definition catchR :: "'e + 'a \<Rightarrow> 'a option" where
  "catchR m = (case m of Inl e \<Rightarrow> None | Inr x \<Rightarrow> Some x)"

lemma catchR_simps [simp]:
  "catchR (Inl e) = None"
  "catchR (Inr x) = Some x"
  by (simp_all add: catchR_def)

lemma catchR_eq_Some [simp]: "catchR m = Some x \<longleftrightarrow> m = Inr x"
  by (cases m) auto

lemma catchR_eq_None: "catchR m = None \<longleftrightarrow> (\<exists>e. m = Inl e)"
  by (cases m) auto

subsection \<open>Byte buffers and big-endian fields\<close>

text \<open>
  \<^verbatim>\<open>buf.set(bs, off)\<close> on a buffer that is long enough: the bytes from \<open>off\<close> on are
  overwritten, the length stays. Every use in the sources is within the buffer.
\<close>

definition buf_set :: "bytes \<Rightarrow> nat \<Rightarrow> bytes \<Rightarrow> bytes" where
  "buf_set buf off bs = take off buf @ bs @ drop (off + length bs) buf"

lemma length_buf_set [simp]:
  "off + length bs \<le> length buf \<Longrightarrow> length (buf_set buf off bs) = length buf"
  by (simp add: buf_set_def)

text \<open>\<open>be_bytes n v\<close> is the \<open>n\<close>-byte big-endian form of \<open>v\<close>, reduced modulo \<open>256 ^ n\<close>.\<close>

fun be_bytes :: "nat \<Rightarrow> nat \<Rightarrow> bytes" where
  "be_bytes 0 v = []"
| "be_bytes (Suc n) v = be_bytes n (v div 256) @ [word_of_nat (v mod 256)]"

definition be_val :: "bytes \<Rightarrow> nat" where
  "be_val bs = foldl (\<lambda>acc b. acc * 256 + unat b) 0 bs"

lemma length_be_bytes [simp]: "length (be_bytes n v) = n"
  by (induction n arbitrary: v) simp_all

lemma be_val_Nil [simp]: "be_val [] = 0"
  by (simp add: be_val_def)

lemma be_val_snoc [simp]: "be_val (bs @ [b]) = be_val bs * 256 + unat b"
  by (simp add: be_val_def)

lemma unat_byte_less [simp]: "unat (b :: byte) < 256"
  using unsigned_less [of b, where ?'a = nat] by simp

lemma be_val_bound [byte_simps]: "be_val bs < 256 ^ length bs"
proof (induction bs rule: rev_induct)
  case (snoc b bs)
  have "unat b < 256" by simp
  with snoc.IH have "be_val bs * 256 + unat b < 256 ^ length bs * 256" by linarith
  then show ?case by (simp add: mult.commute)
qed simp

lemma be_val_be_bytes [byte_simps]: "be_val (be_bytes n v) = v mod 256 ^ n"
proof (induction n arbitrary: v)
  case (Suc n)
  have "v mod (256 * 256 ^ n) = 256 * (v div 256 mod 256 ^ n) + v mod 256"
    by (rule mod_mult2_eq)
  with Suc show ?case by (simp add: unat_of_nat mult.commute)
qed simp

lemma be_bytes_be_val [byte_simps]: "length bs = n \<Longrightarrow> be_bytes n (be_val bs) = bs"
proof (induction bs arbitrary: n rule: rev_induct)
  case (snoc b bs)
  have "(be_val bs * 256 + unat b) div 256 = be_val bs"
    by (metis div_less div_mult_self4 unat_byte_less add.right_neutral zero_neq_numeral mult.commute)
  moreover have "(be_val bs * 256 + unat b) mod 256 = unat b"
    by simp
  ultimately show ?case using snoc by auto
qed simp

lemma drop_take_eqI: "xs = as @ bs @ cs \<Longrightarrow> length as = i \<Longrightarrow> length bs = n \<Longrightarrow> take n (drop i xs) = bs"
  by simp

subsection \<open>Runs of a step relation\<close>

text \<open>
  A component that the browser drives is a step relation between its states, labelled with what
  happened. \<open>run\<close> is any number of its steps; the locale \<open>kept\<close> is the contract of an invariant,
  which every component interprets for its own steps.
\<close>

inductive run :: "('s \<Rightarrow> 'e \<Rightarrow> 's \<Rightarrow> bool) \<Rightarrow> 's \<Rightarrow> 's \<Rightarrow> bool" for step where
  run_refl: "run step st st"
| run_step: "run step st st' \<Longrightarrow> step st' ev st'' \<Longrightarrow> run step st st''"

lemma run_trans: "run step b c \<Longrightarrow> run step a b \<Longrightarrow> run step a c"
  by (induction rule: run.induct) (auto intro: run_step)

lemma run_single: "step st ev st' \<Longrightarrow> run step st st'"
  by (rule run_step [OF run_refl])

lemma run_then:
  assumes "run step a b" "\<exists>c. run step b c \<and> P c"
  shows "\<exists>c. run step a c \<and> P c"
proof -
  from assms(2) obtain c where "run step b c" "P c" by blast
  with run_trans [OF this(1) assms(1)] show ?thesis by blast
qed

locale kept =
  fixes step :: "'s \<Rightarrow> 'e \<Rightarrow> 's \<Rightarrow> bool"
    and inv :: "'s \<Rightarrow> bool"
  assumes step_inv: "inv st \<Longrightarrow> step st ev st' \<Longrightarrow> inv st'"
begin

lemma run_inv: "run step st st' \<Longrightarrow> inv st \<Longrightarrow> inv st'"
  by (induction rule: run.induct) (auto intro: step_inv)

lemma run_reaches: "inv st \<Longrightarrow> run step st st' \<Longrightarrow> step st' ev st'' \<Longrightarrow> inv st' \<and> inv st''"
  using run_inv step_inv by blast

end

text \<open>
  The contract of a system that comes to rest: a number that every step with a proper label makes
  smaller.
\<close>

locale measured = kept step inv
  for step :: "'s \<Rightarrow> 'e \<Rightarrow> 's \<Rightarrow> bool" and inv :: "'s \<Rightarrow> bool" +
  fixes proper :: "'e \<Rightarrow> bool"
    and owe :: "'s \<Rightarrow> nat"
  assumes decreases: "inv st \<Longrightarrow> proper ev \<Longrightarrow> step st ev st' \<Longrightarrow> owe st' < owe st"
begin

lemma no_endless_run: "inv st \<Longrightarrow> Wellfounded.accp (\<lambda>y x. \<exists>ev. proper ev \<and> step x ev y) st"
proof (induction "owe st" arbitrary: st rule: less_induct)
  case less
  show ?case
  proof (rule accpI)
    fix y assume "\<exists>ev. proper ev \<and> step st ev y"
    then show "Wellfounded.accp (\<lambda>y x. \<exists>ev. proper ev \<and> step x ev y) y"
      using less decreases step_inv by blast
  qed
qed

end

end
