(* ===== verification/JsNumber.thy ===== *)
theory JsNumber
  imports Prelude
begin

text \<open>
  JavaScript numbers and the two IEEE 754 formats the program meets.

  A \<^verbatim>\<open>number\<close> is a double: \<open>jsnum\<close> has a finite value (a rational; the two zeros are one
  value, nothing in the sources tells them apart), the two infinities and NaN. Rounding to
  the nearest representable value, ties to even, is \<open>fl_round\<close>, an executable function on the
  rationals; \<open>f64\<close> and \<open>f32\<close> are its instances for \<^verbatim>\<open>number\<close> and for the \<^verbatim>\<open>float\<close> values of
  Web Audio parameters. The locale \<open>rounding\<close> is the contract the clients use (monotone,
  odd, idempotent); both formats interpret it. The conversions of \<^verbatim>\<open>Uint8Array\<close> and
  \<^verbatim>\<open>DataView\<close> stores (\<open>ToUint8\<close>, \<open>ToUint32\<close>) truncate and wrap as ECMAScript prescribes.
\<close>

subsection \<open>Integer logarithm of a positive rational\<close>

definition ilog :: "nat \<Rightarrow> rat \<Rightarrow> int" where
  "ilog b x =
     (let (p, q) = quotient_of x;
          k = int (floorlog b (nat p)) - int (floorlog b (nat q))
      in if of_nat b powi k \<le> x then k else k - 1)"

lemma powi_pos [simp]: "1 < b \<Longrightarrow> 0 < (of_nat b :: rat) powi k"
  by simp

lemma powi_mono_less: 
  assumes "1 < b" "(i :: int) \<le> j"
  shows "(of_nat b :: rat) powi i \<le> of_nat b powi j"
  using assms by (intro power_int_increasing) auto

lemma floorlog_bounds_rat:
  assumes "1 < b" "0 < n"
  shows "(of_nat b :: rat) powi (int (floorlog b n) - 1) \<le> of_nat n"
    and "(of_nat n :: rat) < of_nat b powi int (floorlog b n)"
proof -
  from floorlog_bounds [OF assms(2,1)]
  have le: "b ^ (floorlog b n - 1) \<le> n" and lt: "n < b ^ floorlog b n" by auto
  have "1 \<le> floorlog b n"
    using assms by (simp add: Suc_leI floorlog_eq_zero_iff neq0_conv [symmetric] del: neq0_conv)
  then have "int (floorlog b n) - 1 = int (floorlog b n - 1)" by simp
  with le show "(of_nat b :: rat) powi (int (floorlog b n) - 1) \<le> of_nat n"
    by (simp only: power_int_of_nat of_nat_power [symmetric] of_nat_le_iff)
  from lt show "(of_nat n :: rat) < of_nat b powi int (floorlog b n)"
    by (simp only: power_int_of_nat of_nat_power [symmetric] of_nat_less_iff)
qed

lemma ilog_bounds:
  assumes b: "1 < b" and x: "0 < x"
  shows "of_nat b powi ilog b x \<le> x" and "x < of_nat b powi (ilog b x + 1)"
proof -
  obtain p q where pq: "quotient_of x = (p, q)" by (cases "quotient_of x")
  have q: "0 < q" using quotient_of_denom_pos [OF pq] .
  have xe: "x = of_int p / of_int q" using quotient_of_div [OF pq] .
  have p: "0 < p" using x q by (simp add: xe zero_less_divide_iff)
  define P where "P = nat p"
  define Q where "Q = nat q"
  have PQ: "0 < P" "0 < Q" "p = int P" "q = int Q" using p q by (auto simp: P_def Q_def)
  have xe': "x = of_nat P / of_nat Q" by (simp add: xe PQ)
  let ?l = "int (floorlog b P)" and ?m = "int (floorlog b Q)" and ?b = "of_nat b :: rat"
  note fP = floorlog_bounds_rat [OF b PQ(1)] and fQ = floorlog_bounds_rat [OF b PQ(2)]
  have b0: "?b \<noteq> 0" using b by auto
  have lower: "?b powi (?l - ?m - 1) \<le> x"
  proof -
    have "?b powi (?l - ?m - 1) * ?b powi ?m = ?b powi (?l - 1)"
      using b0 by (simp add: power_int_add [symmetric] del: power_int_of_nat)
    moreover have "?b powi (?l - ?m - 1) * of_nat Q \<le> ?b powi (?l - ?m - 1) * ?b powi ?m"
      using fQ(2) b by (intro mult_left_mono) auto
    ultimately have "?b powi (?l - ?m - 1) * of_nat Q \<le> of_nat P" using fP(1) by linarith
    then show ?thesis using PQ(2) by (simp add: xe' pos_le_divide_eq)
  qed
  have upper: "x < ?b powi (?l - ?m + 1)"
  proof -
    have "?b powi (?l - ?m + 1) * ?b powi (?m - 1) = ?b powi ?l"
      using b0 by (simp add: power_int_add [symmetric])
    moreover have "?b powi (?l - ?m + 1) * ?b powi (?m - 1) \<le> ?b powi (?l - ?m + 1) * of_nat Q"
      using fQ(1) b by (intro mult_left_mono) auto
    ultimately have "of_nat P < ?b powi (?l - ?m + 1) * of_nat Q" using fP(2) by linarith
    then show ?thesis using PQ(2) by (simp add: xe' pos_divide_less_eq)
  qed
  have il: "ilog b x = (if ?b powi (?l - ?m) \<le> x then ?l - ?m else ?l - ?m - 1)"
    by (simp add: ilog_def pq P_def Q_def)
  show "?b powi ilog b x \<le> x" using lower by (simp add: il)
  show "x < ?b powi (ilog b x + 1)" using upper by (simp add: il)
qed

lemma ilog_unique:
  assumes b: "1 < b" and x: "0 < x" and "of_nat b powi k \<le> x" "x < of_nat b powi (k + 1)"
  shows "ilog b x = k"
proof -
  have "\<not> ilog b x + 1 \<le> k" 
    using powi_mono_less [OF b, of "ilog b x + 1" k] ilog_bounds(2) [OF b x] assms(3) by linarith
  moreover have "\<not> k + 1 \<le> ilog b x" 
    using powi_mono_less [OF b, of "k + 1" "ilog b x"] ilog_bounds(1) [OF b x] assms(4) by linarith
  ultimately show ?thesis by linarith
qed

lemma ilog_mono:
  assumes b: "1 < b" and "0 < x" "x \<le> y"
  shows "ilog b x \<le> ilog b y"
proof -
  have y: "0 < y" using assms by linarith
  show ?thesis
    using powi_mono_less [OF b, of "ilog b y + 1" "ilog b x"] ilog_bounds [OF b assms(2)]
      ilog_bounds [OF b y] assms(3) by force
qed


subsection \<open>Rounding to nearest, ties to even\<close>

definition round_half_even :: "rat \<Rightarrow> int" where
  "round_half_even x =
     (let f = \<lfloor>x\<rfloor>; d = x - of_int f
      in if d < 1 / 2 then f
         else if d > 1 / 2 then f + 1
         else if even f then f else f + 1)"

lemma round_half_even_of_int [simp]: "round_half_even (of_int n) = n"
  by (simp add: round_half_even_def)

lemma round_half_even_bounds:
  "\<lfloor>x\<rfloor> \<le> round_half_even x" "round_half_even x \<le> \<lfloor>x\<rfloor> + 1"
  by (simp_all add: round_half_even_def Let_def)

lemma round_half_even_mono: "x \<le> y \<Longrightarrow> round_half_even x \<le> round_half_even y"
proof (cases "\<lfloor>x\<rfloor> = \<lfloor>y\<rfloor>")
  case True
  assume "x \<le> y"
  with True show ?thesis by (auto simp: round_half_even_def Let_def)
next
  case False
  assume "x \<le> y"
  then have "\<lfloor>x\<rfloor> \<le> \<lfloor>y\<rfloor>" by (rule floor_mono)
  with False have "\<lfloor>x\<rfloor> + 1 \<le> \<lfloor>y\<rfloor>" by linarith
  then show ?thesis
    using round_half_even_bounds(2) [of x] round_half_even_bounds(1) [of y] by linarith
qed

lemma round_half_even_minus: "round_half_even (- x) = - round_half_even x"
proof (cases "x = of_int \<lfloor>x\<rfloor>")
  case True
  then obtain n where "x = of_int n" by blast
  then show ?thesis by (simp flip: of_int_minus)
next
  case False
  then have fm: "\<lfloor>- x\<rfloor> = - \<lfloor>x\<rfloor> - 1"
    using floor_correct [of x] by (intro floor_unique) (auto simp: less_le)
  show ?thesis by (auto simp: round_half_even_def Let_def fm)
qed

text \<open>
  \<open>fl_round p emin x\<close> rounds \<open>x\<close> to the nearest number with a significand of \<open>p\<close> bits and
  no bit below \<open>2 ^ emin\<close>, ties to even, with no upper bound on the exponent.
\<close>

definition ulp_exp :: "nat \<Rightarrow> int \<Rightarrow> rat \<Rightarrow> int" where
  "ulp_exp p emin x = max emin (ilog 2 \<bar>x\<bar> - int p + 1)"

definition fl_round :: "nat \<Rightarrow> int \<Rightarrow> rat \<Rightarrow> rat" where
  "fl_round p emin x =
     (if x = 0 then 0
      else let u = 2 powi ulp_exp p emin x in of_int (round_half_even (x / u)) * u)"

lemma fl_round_0 [simp]: "fl_round p emin 0 = 0"
  by (simp add: fl_round_def)

lemma ulp_exp_minus [simp]: "ulp_exp p emin (- x) = ulp_exp p emin x"
  by (simp add: ulp_exp_def)

lemma fl_round_minus: "fl_round p emin (- x) = - fl_round p emin x"
  by (simp add: fl_round_def Let_def round_half_even_minus flip: minus_divide_left)

lemmas ilog2_bounds = ilog_bounds [where b = 2, simplified]
lemmas powi2_mono = powi_mono_less [where b = 2, simplified]

lemma powi2_add: "(2 :: rat) powi (i + j) = 2 powi i * 2 powi j"
  by (simp add: power_int_add)

lemma powi2_split: "(2 :: rat) powi k = of_int (2 ^ nat (k - e)) * 2 powi e" if "e \<le> k"
proof -
  have "(2 :: rat) powi k = 2 powi (int (nat (k - e)) + e)" using that by simp
  then show ?thesis by (simp only: powi2_add power_int_of_nat) simp
qed

text \<open>The numbers a format can represent: an integer of at most \<open>p\<close> bits times a power of two.\<close>

definition is_fl :: "nat \<Rightarrow> int \<Rightarrow> rat \<Rightarrow> bool" where
  "is_fl p emin z \<longleftrightarrow> (\<exists>m k. z = of_int m * 2 powi k \<and> \<bar>m\<bar> \<le> 2 ^ p \<and> emin \<le> k)"

lemma is_fl_0 [simp]: "is_fl p emin 0"
  by (auto simp: is_fl_def intro: exI [of _ 0] exI [of _ emin])

lemma is_fl_minus [simp]: "is_fl p emin (- z) \<longleftrightarrow> is_fl p emin z"
proof -
  have "is_fl p emin (- z)" if "is_fl p emin z" for z
    using that unfolding is_fl_def
    by (metis abs_minus_cancel mult_minus_left of_int_minus)
  from this [of z] this [of "- z"] show ?thesis by auto
qed

lemma is_fl_bound: "\<bar>m\<bar> \<le> 2 ^ p \<Longrightarrow> of_int m * 2 powi k \<le> (2 :: rat) powi (int p + k)"
proof -
  assume "\<bar>m\<bar> \<le> 2 ^ p"
  then have "(of_int m :: rat) \<le> of_int (2 ^ p)" by (intro of_int_le_iff [THEN iffD2]) linarith
  then show ?thesis by (simp only: powi2_add) simp
qed

lemma ulp_exp_pos_cases:
  assumes "0 < x"
  obtains "ulp_exp p emin x = emin" | "emin < ulp_exp p emin x" "2 powi (int p + ulp_exp p emin x - 1) \<le> x"
proof (cases "emin < ilog 2 x - int p + 1")
  case True
  with assms have "ulp_exp p emin x = ilog 2 x - int p + 1" by (simp add: ulp_exp_def)
  with True ilog2_bounds(1) [OF assms] that(2) show thesis by simp
next
  case False
  with assms that(1) show thesis by (simp add: ulp_exp_def)
qed

lemma ulp_quotient_bound:
  assumes "0 < x"
  shows "x / 2 powi ulp_exp p emin x < of_int (2 ^ p)"
proof -
  have "ilog 2 x + 1 \<le> int p + ulp_exp p emin x" using assms by (simp add: ulp_exp_def)
  from powi2_mono [OF this] ilog2_bounds(2) [OF assms]
  have "x < 2 powi (int p + ulp_exp p emin x)" by linarith
  then have "x < of_int (2 ^ p) * 2 powi ulp_exp p emin x" by (simp only: powi2_add) simp
  then show ?thesis by (simp add: pos_divide_less_eq)
qed

lemma fl_round_nonneg: "0 \<le> x \<Longrightarrow> 0 \<le> fl_round p emin x"
proof -
  assume "0 \<le> x"
  then have "round_half_even 0 \<le> round_half_even (x / 2 powi ulp_exp p emin x)"
    by (intro round_half_even_mono) simp
  then have "0 \<le> round_half_even (x / 2 powi ulp_exp p emin x)"
    using round_half_even_of_int [of 0] by simp
  then show ?thesis by (simp add: fl_round_def Let_def)
qed

lemma is_fl_fl_round_pos:
  assumes "0 < x"
  shows "is_fl p emin (fl_round p emin x)"
proof -
  let ?e = "ulp_exp p emin x" and ?m = "round_half_even (x / 2 powi ulp_exp p emin x)"
  have "round_half_even (of_int 0) \<le> ?m" using assms by (intro round_half_even_mono) simp
  moreover have "?m \<le> round_half_even (of_int (2 ^ p))"
    using ulp_quotient_bound [OF assms] by (intro round_half_even_mono less_imp_le)
  ultimately have "\<bar>?m\<bar> \<le> 2 ^ p" by (simp only: round_half_even_of_int)
  moreover have "emin \<le> ?e" by (simp add: ulp_exp_def)
  moreover have "fl_round p emin x = of_int ?m * 2 powi ?e" using assms by (simp add: fl_round_def Let_def)
  ultimately show ?thesis by (auto simp: is_fl_def)
qed

lemma is_fl_fl_round: "is_fl p emin (fl_round p emin x)"
proof (cases x "0 :: rat" rule: linorder_cases)
  case less
  then have "is_fl p emin (fl_round p emin (- x))" by (intro is_fl_fl_round_pos) simp
  then show ?thesis by (simp add: fl_round_minus)
qed (auto intro: is_fl_fl_round_pos)

lemma fl_round_le_aligned:
  assumes "0 < x" "z = of_int n * 2 powi ulp_exp p emin x"
  shows "x \<le> z \<Longrightarrow> fl_round p emin x \<le> z" and "z \<le> x \<Longrightarrow> z \<le> fl_round p emin x"
proof -
  let ?u = "(2 :: rat) powi ulp_exp p emin x"
  have q: "z / ?u = of_int n" and u: "0 < ?u" using assms(2) by auto
  have fl: "fl_round p emin x = of_int (round_half_even (x / ?u)) * ?u"
    using assms(1) by (simp add: fl_round_def Let_def)
  { assume "x \<le> z"
    then have "x / ?u \<le> of_int n" using u by (simp add: q [symmetric] divide_right_mono)
    from round_half_even_mono [OF this] have "round_half_even (x / ?u) \<le> n" by simp
    then show "fl_round p emin x \<le> z" using u by (simp add: fl assms(2)) }
  { assume "z \<le> x"
    then have "of_int n \<le> x / ?u" using u by (simp add: q [symmetric] divide_right_mono)
    from round_half_even_mono [OF this] have "n \<le> round_half_even (x / ?u)" by simp
    then show "z \<le> fl_round p emin x" using u by (simp add: fl assms(2)) }
qed

lemma fl_round_le_pos:
  assumes p: "0 < p" and "0 < x" "x \<le> z" "is_fl p emin z"
  shows "fl_round p emin x \<le> z"
proof -
  let ?e = "ulp_exp p emin x"
  from assms(4) obtain m k where z: "z = of_int m * 2 powi k" and m: "\<bar>m\<bar> \<le> 2 ^ p" and k: "emin \<le> k"
    by (auto simp: is_fl_def)
  have "\<exists>n. z = of_int n * 2 powi ?e"
  proof (cases "?e \<le> k")
    case True
    then have "z = of_int (m * 2 ^ nat (k - ?e)) * 2 powi ?e" by (simp add: z powi2_split [of ?e k])
    then show ?thesis ..
  next
    case False
    have x: "2 powi (int p + ?e - 1) \<le> x"
      by (rule ulp_exp_pos_cases [OF assms(2), of p emin]) (use False k in auto)
    have "z \<le> 2 powi (int p + k)" using is_fl_bound [OF m] by (simp add: z)
    also have "\<dots> \<le> 2 powi (int p + ?e - 1)" using False by (intro powi2_mono) simp
    finally have "z = 2 powi (int p + ?e - 1)" using x assms(3) by linarith
    also have "\<dots> = of_int (2 ^ nat (int p + ?e - 1 - ?e)) * 2 powi ?e"
      using p by (intro powi2_split) simp
    finally show ?thesis ..
  qed
  then show ?thesis using fl_round_le_aligned(1) [OF assms(2)] assms(3) by blast
qed

lemma fl_round_ge_pos:
  assumes p: "0 < p" and "0 < x" "z \<le> x" "is_fl p emin z"
  shows "z \<le> fl_round p emin x"
proof -
  let ?e = "ulp_exp p emin x"
  from assms(4) obtain m k where z: "z = of_int m * 2 powi k" and m: "\<bar>m\<bar> \<le> 2 ^ p" and k: "emin \<le> k"
    by (auto simp: is_fl_def)
  show ?thesis
  proof (cases "?e \<le> k")
    case True
    then have "z = of_int (m * 2 ^ nat (k - ?e)) * 2 powi ?e" by (simp add: z powi2_split [of ?e k])
    then show ?thesis using fl_round_le_aligned(2) [OF assms(2)] assms(3) by blast
  next
    case False
    have x: "2 powi (int p + ?e - 1) \<le> x"
      by (rule ulp_exp_pos_cases [OF assms(2), of p emin]) (use False k in auto)
    have "z \<le> 2 powi (int p + k)" using is_fl_bound [OF m] by (simp add: z)
    also have "\<dots> \<le> 2 powi (int p + ?e - 1)" using False by (intro powi2_mono) simp
    also have "\<dots> \<le> fl_round p emin x"
    proof (rule fl_round_le_aligned(2) [OF assms(2) _ x])
      show "(2 :: rat) powi (int p + ?e - 1) = of_int (2 ^ nat (int p + ?e - 1 - ?e)) * 2 powi ?e"
        using p by (intro powi2_split) simp
    qed
    finally show ?thesis .
  qed
qed

lemma fl_round_le:
  assumes "0 < p" "x \<le> z" "is_fl p emin z"
  shows "fl_round p emin x \<le> z"
proof (cases x "0 :: rat" rule: linorder_cases)
  case less
  with assms have "- z \<le> fl_round p emin (- x)" by (intro fl_round_ge_pos) auto
  then show ?thesis by (simp add: fl_round_minus)
qed (use assms in \<open>auto intro: fl_round_le_pos\<close>)

lemma fl_round_ge:
  assumes "0 < p" "z \<le> x" "is_fl p emin z"
  shows "z \<le> fl_round p emin x"
  using fl_round_le [of p "- x" "- z" emin] assms by (simp add: fl_round_minus)

lemma fl_round_id: "0 < p \<Longrightarrow> is_fl p emin z \<Longrightarrow> fl_round p emin z = z"
  by (intro antisym fl_round_le fl_round_ge) auto

lemma is_fl_power: "emin \<le> k \<Longrightarrow> is_fl p emin (2 powi k)"
  unfolding is_fl_def by (intro exI [of _ 1] exI [of _ k]) simp

lemma fl_round_mono_pos:
  assumes p: "0 < p" and x: "0 < x" and xy: "x \<le> y"
  shows "fl_round p emin x \<le> fl_round p emin y"
proof (cases "ulp_exp p emin x = ulp_exp p emin y")
  case True
  let ?u = "(2 :: rat) powi ulp_exp p emin y"
  have "round_half_even (x / ?u) \<le> round_half_even (y / ?u)"
    using xy by (intro round_half_even_mono divide_right_mono) auto
  with x xy True show ?thesis by (simp add: fl_round_def Let_def)
next
  case False
  let ?k = "ilog 2 y"
  have "ilog 2 x \<le> ?k" using x xy by (intro ilog_mono) auto
  with False x xy have k: "ilog 2 x + 1 \<le> ?k" and "emin \<le> ?k - int p + 1"
    by (auto simp: ulp_exp_def split: if_splits)
  with p have rep: "is_fl p emin (2 powi ?k)" by (intro is_fl_power) linarith
  have "x \<le> 2 powi ?k" using ilog2_bounds(2) [OF x] powi2_mono [OF k] by linarith
  then have "fl_round p emin x \<le> 2 powi ?k" by (rule fl_round_le [OF p _ rep])
  also have "2 powi ?k \<le> fl_round p emin y"
    using ilog2_bounds(1) [of y] x xy by (intro fl_round_ge [OF p _ rep]) simp
  finally show ?thesis .
qed

lemma fl_round_mono:
  assumes p: "0 < p" and xy: "x \<le> y"
  shows "fl_round p emin x \<le> fl_round p emin y"
proof (cases "0 < x")
  case True
  then show ?thesis using p xy by (intro fl_round_mono_pos)
next
  case False
  show ?thesis
  proof (cases "0 \<le> y")
    case True
    have "0 \<le> fl_round p emin (- x)" using False by (intro fl_round_nonneg) simp
    moreover have "0 \<le> fl_round p emin y" using True by (rule fl_round_nonneg)
    ultimately show ?thesis by (simp add: fl_round_minus)
  next
    case False
    then have "fl_round p emin (- y) \<le> fl_round p emin (- x)"
      using p xy by (intro fl_round_mono_pos) auto
    then show ?thesis by (simp add: fl_round_minus)
  qed
qed

lemma is_fl_of_int:
  assumes "\<bar>n\<bar> \<le> 2 ^ p" "emin \<le> 0"
  shows "is_fl p emin (of_int n)"
  unfolding is_fl_def using assms by (intro exI [of _ n] exI [of _ 0]) simp

subsection \<open>The contract of a rounding function\<close>

locale rounding =
  fixes rnd :: "rat \<Rightarrow> rat"
  assumes rnd_mono: "x \<le> y \<Longrightarrow> rnd x \<le> rnd y"
    and rnd_idem: "rnd (rnd x) = rnd x"
    and rnd_minus: "rnd (- x) = - rnd x"
begin

lemma rnd_0: "rnd 0 = 0"
  using rnd_minus [of 0] by simp

lemma rnd_between: "rnd lo = lo \<Longrightarrow> rnd hi = hi \<Longrightarrow> lo \<le> x \<Longrightarrow> x \<le> hi \<Longrightarrow> lo \<le> rnd x \<and> rnd x \<le> hi"
  using rnd_mono [of lo x] rnd_mono [of x hi] by simp

lemma rnd_add_ge: "rnd c = c \<Longrightarrow> 0 \<le> d \<Longrightarrow> c \<le> rnd (c + d)"
  using rnd_mono [of c "c + d"] by simp

lemma rnd_nonneg: "0 \<le> x \<Longrightarrow> 0 \<le> rnd x"
  using rnd_mono [of 0 x] rnd_0 by simp

end

definition f64 :: "rat \<Rightarrow> rat" where
  "f64 x = fl_round 53 (- 1074) x"

definition f32 :: "rat \<Rightarrow> rat" where
  "f32 x = fl_round 24 (- 149) x"

interpretation f64: rounding f64
  by unfold_locales
    (simp_all add: f64_def fl_round_mono fl_round_minus fl_round_id is_fl_fl_round)

interpretation f32: rounding f32
  by unfold_locales
    (simp_all add: f32_def fl_round_mono fl_round_minus fl_round_id is_fl_fl_round)

lemma f64_of_int: "\<bar>n\<bar> \<le> 2 ^ 53 \<Longrightarrow> f64 (of_int n) = of_int n"
  unfolding f64_def by (intro fl_round_id is_fl_of_int) auto

lemma f32_of_int: "\<bar>n\<bar> \<le> 2 ^ 24 \<Longrightarrow> f32 (of_int n) = of_int n"
  unfolding f32_def by (intro fl_round_id is_fl_of_int) auto

lemmas f32_small [simp] = f32_of_int [of 0, simplified] f32_of_int [of 1, simplified]

subsection \<open>The type \<^verbatim>\<open>number\<close>\<close>

datatype jsnum = Fin rat | PosInf | NegInf | NaN

definition overflow_threshold :: rat where
  "overflow_threshold = 2 ^ 1024"

text \<open>The double nearest to an exact result, an infinity beyond the largest one.\<close>

definition to_double :: "rat \<Rightarrow> jsnum" where
  "to_double x =
     (let y = f64 x
      in if overflow_threshold \<le> y then PosInf
         else if y \<le> - overflow_threshold then NegInf
         else Fin y)"

definition is_double :: "rat \<Rightarrow> bool" where
  "is_double x \<longleftrightarrow> f64 x = x \<and> \<bar>x\<bar> < overflow_threshold"

lemma to_double_id: "is_double x \<Longrightarrow> to_double x = Fin x"
  by (auto simp: to_double_def is_double_def Let_def)

lemma to_double_Fin: "to_double x = Fin y \<Longrightarrow> is_double y \<and> y = f64 x"
  by (auto simp: to_double_def is_double_def Let_def f64.rnd_idem split: if_splits)

lemma is_double_of_int: "\<bar>n\<bar> \<le> 2 ^ 53 \<Longrightarrow> is_double (of_int n)"
proof -
  assume n: "\<bar>n\<bar> \<le> 2 ^ 53"
  have "(2 :: int) ^ 53 < 2 ^ 1024" by (rule power_strict_increasing) auto
  with n have "\<bar>n\<bar> < 2 ^ 1024" by linarith
  then have "(of_int \<bar>n\<bar> :: rat) < of_int (2 ^ 1024)" by (rule of_int_less_iff [THEN iffD2])
  then have "\<bar>of_int n :: rat\<bar> < overflow_threshold" by (simp add: overflow_threshold_def)
  with f64_of_int [OF n] show ?thesis by (simp add: is_double_def)
qed

lemma is_double_nat: "n \<le> 2 ^ 53 \<Longrightarrow> is_double (of_nat n)"
  using is_double_of_int [of "int n"] by simp

lemma is_double_literals [simp]:
  "is_double 0" "is_double 1" "numeral k \<le> (2 :: nat) ^ 53 \<Longrightarrow> is_double (numeral k)"
  using is_double_nat [of 0] is_double_nat [of 1] is_double_nat [of "numeral k"] by simp_all

fun num_lt :: "jsnum \<Rightarrow> jsnum \<Rightarrow> bool" where
  "num_lt (Fin a) (Fin b) = (a < b)"
| "num_lt (Fin a) PosInf = True"
| "num_lt NegInf (Fin b) = True"
| "num_lt NegInf PosInf = True"
| "num_lt _ _ = False"

definition isFinite :: "jsnum \<Rightarrow> bool" where
  "isFinite x = (case x of Fin _ \<Rightarrow> True | _ \<Rightarrow> False)"

definition isInteger :: "jsnum \<Rightarrow> bool" where
  "isInteger x = (case x of Fin r \<Rightarrow> of_int \<lfloor>r\<rfloor> = r | _ \<Rightarrow> False)"

lemma isFinite_iff [simp]: "isFinite x \<longleftrightarrow> (\<exists>r. x = Fin r)"
  by (cases x) (auto simp: isFinite_def)

lemma isInteger_iff: "isInteger x \<longleftrightarrow> (\<exists>n. x = Fin (of_int n))"
  by (cases x) (auto simp: isInteger_def intro: exI [of _ "\<lfloor>_\<rfloor>"] sym)

abbreviation num :: "int \<Rightarrow> jsnum" where
  "num n \<equiv> Fin (of_int n)"

fun num_add :: "jsnum \<Rightarrow> jsnum \<Rightarrow> jsnum" where
  "num_add (Fin a) (Fin b) = to_double (a + b)"
| "num_add NaN _ = NaN"
| "num_add _ NaN = NaN"
| "num_add PosInf NegInf = NaN"
| "num_add NegInf PosInf = NaN"
| "num_add PosInf _ = PosInf"
| "num_add _ PosInf = PosInf"
| "num_add NegInf _ = NegInf"
| "num_add _ NegInf = NegInf"

fun num_neg :: "jsnum \<Rightarrow> jsnum" where
  "num_neg (Fin a) = Fin (- a)"
| "num_neg PosInf = NegInf"
| "num_neg NegInf = PosInf"
| "num_neg NaN = NaN"

definition num_sub :: "jsnum \<Rightarrow> jsnum \<Rightarrow> jsnum" where
  "num_sub a b = num_add a (num_neg b)"

definition num_sgn :: "jsnum \<Rightarrow> rat" where
  "num_sgn x = (case x of Fin a \<Rightarrow> sgn a | PosInf \<Rightarrow> 1 | NegInf \<Rightarrow> - 1 | NaN \<Rightarrow> 0)"

definition num_mul :: "jsnum \<Rightarrow> jsnum \<Rightarrow> jsnum" where
  "num_mul a b =
     (case (a, b) of
        (Fin x, Fin y) \<Rightarrow> to_double (x * y)
      | _ \<Rightarrow> (let s = num_sgn a * num_sgn b in
              if s > 0 then PosInf else if s < 0 then NegInf else NaN))"

subsection \<open>Conversions to machine integers\<close>

text \<open>
  ToUint8, ToUint16 and ToUint32: NaN and the infinities become 0, other numbers are
  truncated towards zero and reduced modulo the width.
\<close>

definition truncate_rat :: "rat \<Rightarrow> int" where
  "truncate_rat r = (if 0 \<le> r then \<lfloor>r\<rfloor> else \<lceil>r\<rceil>)"

definition to_uint :: "nat \<Rightarrow> jsnum \<Rightarrow> nat" where
  "to_uint w x = (case x of Fin r \<Rightarrow> nat (truncate_rat r mod 2 ^ w) | _ \<Rightarrow> 0)"

lemma truncate_rat_of_int [simp]: "truncate_rat (of_int n) = n"
  by (simp add: truncate_rat_def)

lemma to_uint_num: "0 \<le> n \<Longrightarrow> n < 2 ^ w \<Longrightarrow> to_uint w (num n) = nat n"
  by (simp add: to_uint_def)

lemma to_uint_nat [simp]: "n < 2 ^ w \<Longrightarrow> to_uint w (Fin (of_nat n)) = n"
  using to_uint_num [of "int n" w] by simp

lemma to_uint_numeral [simp]: "to_uint w (Fin 0) = 0"
  "numeral k < (2 :: nat) ^ w \<Longrightarrow> to_uint w (Fin (numeral k)) = numeral k"
  using to_uint_nat [of 0 w] to_uint_nat [of "numeral k" w] by simp_all

lemma to_uint_bound: "to_uint w x < 2 ^ w"
proof -
  have "nat (z mod 2 ^ w) < 2 ^ w" for z :: int
    by (simp add: nat_less_iff)
  then show ?thesis by (cases x) (simp_all add: to_uint_def)
qed

lemma to_uint_le:
  assumes "\<not> num_lt x (num 0)" "\<not> num_lt (num n) x" "0 \<le> n" "n < 2 ^ w"
  shows "to_uint w x \<le> nat n"
proof (cases x)
  case (Fin r)
  with assms have "0 \<le> r" "r \<le> of_int n" by auto
  then have "0 \<le> \<lfloor>r\<rfloor>" "\<lfloor>r\<rfloor> \<le> n" by (simp_all add: le_floor_iff floor_le_iff)
  with assms(4) Fin \<open>0 \<le> r\<close> show ?thesis by (simp add: to_uint_def truncate_rat_def)
qed (simp_all add: to_uint_def)

subsection \<open>How far rounding moves a number\<close>

lemma round_half_even_err: "\<bar>of_int (round_half_even x) - x\<bar> \<le> 1 / 2"
  using floor_correct [of x] by (auto simp: round_half_even_def Let_def)

lemma fl_round_err:
  assumes "\<bar>x\<bar> < 2 powi k" "emin \<le> k - int p"
  shows "\<bar>fl_round p emin x - x\<bar> \<le> 2 powi (k - int p) / 2"
proof (cases "x = 0")
  case False
  let ?u = "2 powi ulp_exp p emin x :: rat"
  have "ilog 2 \<bar>x\<bar> < k"
  proof (rule ccontr)
    assume "\<not> ilog 2 \<bar>x\<bar> < k"
    then have "2 powi k \<le> (2 :: rat) powi ilog 2 \<bar>x\<bar>" by (intro powi2_mono) simp
    with ilog2_bounds(1) [of "\<bar>x\<bar>"] False assms(1) show False by simp
  qed
  then have "ulp_exp p emin x \<le> k - int p" using assms(2) by (simp add: ulp_exp_def)
  then have u: "?u \<le> 2 powi (k - int p)" by (rule powi2_mono)
  have "fl_round p emin x - x = (of_int (round_half_even (x / ?u)) - x / ?u) * ?u"
    using False by (simp add: fl_round_def Let_def algebra_simps)
  then have "\<bar>fl_round p emin x - x\<bar> = \<bar>of_int (round_half_even (x / ?u)) - x / ?u\<bar> * ?u"
    by (simp add: abs_mult)
  also have "\<dots> \<le> 1 / 2 * ?u" by (intro mult_right_mono round_half_even_err) simp
  finally show ?thesis using u by simp
qed simp

lemma f64_err:
  assumes "\<bar>x\<bar> < 2 ^ n" "n \<le> 53"
  shows "\<bar>f64 x - x\<bar> \<le> 1 / 2 ^ (54 - n)"
proof -
  have "(2 :: rat) powi (int n - 53) / 2 = 2 powi (- int (54 - n))"
    using assms(2) power_int_diff [of "2 :: rat" "int n - 53" 1] by (simp add: of_nat_diff)
  also have "\<dots> = 1 / 2 ^ (54 - n)" by (simp add: power_int_minus inverse_eq_divide)
  finally show ?thesis using fl_round_err [of x "int n" "- 1074" 53] assms(1) by (simp add: f64_def)
qed

lemma to_double_small: "\<bar>x\<bar> \<le> 2 ^ 53 \<Longrightarrow> to_double x = Fin (f64 x)"
proof -
  assume "\<bar>x\<bar> \<le> 2 ^ 53"
  then have "\<bar>f64 x\<bar> \<le> 2 ^ 53"
    using f64.rnd_between [of "- (2 ^ 53)" "2 ^ 53" x] f64_of_int [of "2 ^ 53"] f64_of_int [of "- (2 ^ 53)"]
    by (simp add: abs_le_iff)
  moreover have "(2 :: rat) ^ 53 < overflow_threshold"
    unfolding overflow_threshold_def by (rule power_strict_increasing) auto
  ultimately show ?thesis by (auto simp: to_double_def Let_def)
qed

end
