(* ===== verification/JsDecimal.thy ===== *)
theory JsDecimal
  imports JsNumber
begin

text \<open>
  Decimal text of numbers: ECMAScript's \<^verbatim>\<open>Number::toString\<close> (\<open>num_str\<close>), which template
  literals and \<^verbatim>\<open>JSON.stringify\<close> use, and the number scanner of \<^verbatim>\<open>JSON.parse\<close> (\<open>scan_number\<close>).

  The printer searches the shortest digit string that rounds back to the number, then lays
  it out with or without an exponent. The main lemma is that scanning what was printed gives
  the number back, for every double. The search is bounded by \<open>shortest_fuel\<close> digits; the
  exact decimal expansion of every double is shorter, which \<open>shortest_total\<close> proves.
\<close>

subsection \<open>Digits\<close>

fun dec_digits :: "nat \<Rightarrow> nat list" where
  "dec_digits n = (if n < 10 then [n] else dec_digits (n div 10) @ [n mod 10])"

declare dec_digits.simps [simp del]

definition digits_val :: "nat list \<Rightarrow> nat" where
  "digits_val ds = foldl (\<lambda>a d. 10 * a + d) 0 ds"

lemma digits_val_Nil [simp]: "digits_val [] = 0"
  by (simp add: digits_val_def)

lemma digits_val_snoc [simp]: "digits_val (ds @ [d]) = 10 * digits_val ds + d"
  by (simp add: digits_val_def)

lemma digits_val_append: "digits_val (as @ bs) = digits_val as * 10 ^ length bs + digits_val bs"
  by (induction bs rule: rev_induct) (simp_all add: algebra_simps flip: append_assoc)

lemma digits_val_zeros [simp]: "digits_val (replicate n 0) = 0"
proof (induction n)
  case (Suc n)
  then show ?case using digits_val_append [of "[0]" "replicate n 0"] by (simp add: digits_val_def)
qed simp

lemma digits_val_dec_digits [simp]: "digits_val (dec_digits n) = n"
proof (induction n rule: dec_digits.induct)
  case (1 n)
  then show ?case by (subst dec_digits.simps) (auto simp: digits_val_def)
qed

lemma dec_digits_less: "d \<in> set (dec_digits n) \<Longrightarrow> d < 10"
proof (induction n rule: dec_digits.induct)
  case (1 n)
  then show ?case by (subst (asm) dec_digits.simps) (auto split: if_splits)
qed

lemma dec_digits_neq_Nil [simp]: "dec_digits n \<noteq> []"
  by (subst dec_digits.simps) simp

lemma hd_dec_digits: "0 < n \<Longrightarrow> hd (dec_digits n) \<noteq> 0"
proof (induction n rule: dec_digits.induct)
  case (1 n)
  then show ?case by (subst dec_digits.simps) (auto simp: hd_append)
qed

definition digit_unit :: "nat \<Rightarrow> codeunit" where
  "digit_unit d = word_of_nat (48 + d)"

abbreviation digit_units :: "nat list \<Rightarrow> jsstring" where
  "digit_units ds \<equiv> map digit_unit ds"

definition is_digit :: "codeunit \<Rightarrow> bool" where
  "is_digit u \<longleftrightarrow> 48 \<le> u \<and> u \<le> 57"

definition digit_of :: "codeunit \<Rightarrow> nat" where
  "digit_of u = unat u - 48"

lemma unat_digit_unit [simp]: "d < 10 \<Longrightarrow> unat (digit_unit d) = 48 + d"
  by (simp add: digit_unit_def unat_of_nat del: of_nat_add)

lemma is_digit_unit [simp]: "d < 10 \<Longrightarrow> is_digit (digit_unit d)"
  by (simp add: is_digit_def word_le_nat_alt)

lemma digit_of_unit [simp]: "d < 10 \<Longrightarrow> digit_of (digit_unit d) = d"
  by (simp add: digit_of_def)

lemma digit_unit_0 [simp]: "digit_unit 0 = 48"
  by (simp add: digit_unit_def)

fun take_digits :: "jsstring \<Rightarrow> nat list \<times> jsstring" where
  "take_digits [] = ([], [])"
| "take_digits (u # s) =
     (if is_digit u then (let (ds, r) = take_digits s in (digit_of u # ds, r)) else ([], u # s))"

definition no_digit :: "jsstring \<Rightarrow> bool" where
  "no_digit s = (case s of [] \<Rightarrow> True | u # _ \<Rightarrow> \<not> is_digit u)"

lemma take_digits_units:
  assumes "\<forall>d\<in>set ds. d < 10" "no_digit rest"
  shows "take_digits (digit_units ds @ rest) = (ds, rest)"
  using assms
proof (induction ds)
  case Nil
  then show ?case by (cases rest) (simp_all add: no_digit_def)
next
  case (Cons d ds)
  then have "take_digits (digit_units ds @ rest) = (ds, rest)" by simp
  moreover have "d < 10" using Cons by simp
  ultimately show ?case by simp
qed

lemma take_digits_length: "take_digits s = (ds, r) \<Longrightarrow> length s = length ds + length r"
  by (induction s arbitrary: ds) (auto split: if_splits prod.splits)

subsection \<open>Scanning a JSON number\<close>

definition scan_int :: "jsstring \<Rightarrow> (nat list \<times> jsstring) option" where
  "scan_int s =
     (case s of
        [] \<Rightarrow> None
      | u # r \<Rightarrow>
          if u = 48 then Some ([0], r)
          else if is_digit u then Some (take_digits s) else None)"

definition scan_frac :: "jsstring \<Rightarrow> (nat list \<times> jsstring) option" where
  "scan_frac s =
     (case s of
        [] \<Rightarrow> Some ([], [])
      | u # r \<Rightarrow>
          if u = 46
          then (case take_digits r of ([], _) \<Rightarrow> None | (d # ds, t) \<Rightarrow> Some (d # ds, t))
          else Some ([], s))"

definition scan_exp :: "jsstring \<Rightarrow> (int \<times> jsstring) option" where
  "scan_exp s =
     (case s of
        [] \<Rightarrow> Some (0, [])
      | u # r \<Rightarrow>
          if u = 101 \<or> u = 69
          then (let (neg, t) = (case r of
                    [] \<Rightarrow> (False, [])
                  | v # q \<Rightarrow> if v = 43 then (False, q) else if v = 45 then (True, q) else (False, r))
                in case take_digits t of
                     ([], _) \<Rightarrow> None
                   | (d # ds, w) \<Rightarrow>
                       Some ((if neg then - 1 else 1) * int (digits_val (d # ds)), w))
          else Some (0, s))"

definition scan_sign :: "jsstring \<Rightarrow> bool \<times> jsstring" where
  "scan_sign s = (case s of [] \<Rightarrow> (False, []) | u # r \<Rightarrow> if u = 45 then (True, r) else (False, s))"

definition scan_unsigned :: "jsstring \<Rightarrow> (rat \<times> jsstring) option" where
  "scan_unsigned s =
     (case scan_int s of
        None \<Rightarrow> None
      | Some (is, s2) \<Rightarrow>
          (case scan_frac s2 of
             None \<Rightarrow> None
           | Some (fs, s3) \<Rightarrow>
               (case scan_exp s3 of
                  None \<Rightarrow> None
                | Some (e, s4) \<Rightarrow>
                    Some (of_nat (digits_val (is @ fs)) * 10 powi (e - int (length fs)), s4))))"

text \<open>The exact value of the literal is rounded once, to the nearest double.\<close>

definition scan_number :: "jsstring \<Rightarrow> (jsnum \<times> jsstring) option" where
  "scan_number s =
     (let (neg, s1) = scan_sign s in
      case scan_unsigned s1 of
        None \<Rightarrow> None
      | Some (v, r) \<Rightarrow> Some (to_double (if neg then - v else v), r))"

lemma scan_int_shorter: "scan_int s = Some (ds, r) \<Longrightarrow> length r < length s"
  by (auto simp: scan_int_def split: list.splits if_splits prod.splits dest: take_digits_length)

lemma scan_frac_le: "scan_frac s = Some (ds, r) \<Longrightarrow> length r \<le> length s"
  by (auto simp: scan_frac_def split: list.splits if_splits prod.splits dest: take_digits_length)

lemma scan_exp_le: "scan_exp s = Some (e, r) \<Longrightarrow> length r \<le> length s"
  by (auto simp: scan_exp_def Let_def split: list.splits if_splits prod.splits dest: take_digits_length)

lemma scan_sign_le: "scan_sign s = (b, r) \<Longrightarrow> length r \<le> length s"
  by (auto simp: scan_sign_def split: list.splits if_splits)

lemma scan_number_shorter: "scan_number s = Some (x, r) \<Longrightarrow> length r < length s"
  by (auto simp: scan_number_def scan_unsigned_def split: prod.splits option.splits
      dest!: scan_int_shorter scan_frac_le scan_exp_le scan_sign_le)

subsection \<open>Printing a number\<close>

function strip_zeros :: "nat \<Rightarrow> int \<Rightarrow> nat \<times> int" where
  "strip_zeros s e = (if s \<noteq> 0 \<and> s mod 10 = 0 then strip_zeros (s div 10) (e + 1) else (s, e))"
  by pat_completeness auto
termination
  by (relation "measure fst") auto

declare strip_zeros.simps [simp del]

text \<open>With \<open>k\<close> digits, the number lies between two neighbouring multiples of \<open>10 ^ e\<close>.\<close>

definition dec_candidate :: "rat \<Rightarrow> nat \<Rightarrow> (nat \<times> int) option" where
  "dec_candidate x k =
     (let e = ilog 10 x + 1 - int k;
          q = x / 10 powi e;
          lo = nat \<lfloor>q\<rfloor>;
          hi = lo + 1;
          ok = (\<lambda>s. to_double (of_nat s * 10 powi e) = Fin x);
          dlo = q - of_nat lo;
          dhi = of_nat hi - q
      in if ok lo \<and> (\<not> ok hi \<or> dlo < dhi \<or> dlo = dhi \<and> even lo) then Some (lo, e)
         else if ok hi then Some (hi, e) else None)"

fun shortest :: "nat \<Rightarrow> nat \<Rightarrow> rat \<Rightarrow> (nat \<times> int) option" where
  "shortest 0 k x = None"
| "shortest (Suc fuel) k x =
     (case dec_candidate x k of
        Some (s, e) \<Rightarrow> Some (strip_zeros s e)
      | None \<Rightarrow> shortest fuel (Suc k) x)"

definition shortest_fuel :: nat where
  "shortest_fuel = 2100"

definition nat_str :: "nat \<Rightarrow> jsstring" where
  "nat_str n = digit_units (dec_digits n)"

definition num_layout :: "nat \<Rightarrow> int \<Rightarrow> jsstring" where
  "num_layout s e =
     (let ds = digit_units (dec_digits s);
          k = int (length ds);
          n = e + k
      in if k \<le> n \<and> n \<le> 21 then ds @ replicate (nat (n - k)) 48
         else if 0 < n \<and> n \<le> 21 then take (nat n) ds @ [46] @ drop (nat n) ds
         else if - 6 < n \<and> n \<le> 0 then [48, 46] @ replicate (nat (- n)) 48 @ ds
         else (if length ds = 1 then ds else take 1 ds @ [46] @ drop 1 ds)
              @ [101] @ (if 0 \<le> n - 1 then [43] else [45]) @ nat_str (nat \<bar>n - 1\<bar>))"

definition pos_str :: "rat \<Rightarrow> jsstring" where
  "pos_str r = (case shortest shortest_fuel 1 r of None \<Rightarrow> [] | Some (s, e) \<Rightarrow> num_layout s e)"

definition num_str :: "jsnum \<Rightarrow> jsstring" where
  "num_str x =
     (case x of
        NaN \<Rightarrow> js ''NaN''
      | PosInf \<Rightarrow> js ''Infinity''
      | NegInf \<Rightarrow> js ''-Infinity''
      | Fin r \<Rightarrow>
          (if r = 0 then [48]
           else if r < 0 then 45 # pos_str (- r) else pos_str r))"

lemma strip_zeros_value:
  "strip_zeros s e = (s', e') \<Longrightarrow> (of_nat s' :: rat) * 10 powi e' = of_nat s * 10 powi e \<and> (0 < s \<longrightarrow> 0 < s')"
proof (induction s e rule: strip_zeros.induct)
  case (1 s e)
  show ?case
  proof (cases "s \<noteq> 0 \<and> s mod 10 = 0")
    case True
    with 1 have IH: "(of_nat s' :: rat) * 10 powi e' = of_nat (s div 10) * 10 powi (e + 1)"
      and pos: "0 < s div 10 \<longrightarrow> 0 < s'"
      by (auto simp: strip_zeros.simps [of s e])
    from True obtain t where t: "s = 10 * t" and "0 < t" by (auto simp: mod_eq_0_iff_dvd)
    then show ?thesis using IH pos by (simp add: power_int_add)
  next
    case False
    with "1.prems" have "s' = s" "e' = e" by (auto simp: strip_zeros.simps [of s e])
    then show ?thesis by simp
  qed
qed

lemma dec_candidate_sound:
  "dec_candidate x k = Some (s, e) \<Longrightarrow> to_double (of_nat s * 10 powi e) = Fin x"
  by (auto simp: dec_candidate_def Let_def split: if_splits)

lemma to_double_0 [simp]: "to_double 0 = Fin 0"
  using to_double_id [OF is_double_of_int [of 0]] by simp

lemma shortest_sound:
  assumes "shortest fuel k x = Some (s, e)" "x \<noteq> 0"
  shows "to_double (of_nat s * 10 powi e) = Fin x \<and> 0 < s"
  using assms
proof (induction fuel arbitrary: k)
  case (Suc fuel)
  show ?case
  proof (cases "dec_candidate x k")
    case None
    with Suc show ?thesis by simp
  next
    case (Some r)
    then obtain s' e' where r: "dec_candidate x k = Some (s', e')" by (cases r) auto
    with Suc.prems have "strip_zeros s' e' = (s, e)" by simp
    from strip_zeros_value [OF this] dec_candidate_sound [OF r] Suc.prems(2)
    show ?thesis by (cases s') (auto simp: bot_nat_0.not_eq_extremum)
  qed
qed simp

lemma shortest_found:
  "dec_candidate x k' \<noteq> None \<Longrightarrow> k \<le> k' \<Longrightarrow> k' < k + fuel \<Longrightarrow> shortest fuel k x \<noteq> None"
proof (induction fuel arbitrary: k)
  case (Suc fuel)
  then show ?case by (cases "k = k'") (auto split: option.splits)
qed simp

text \<open>A double is an integer multiple of \<open>10 ^ (- 1074)\<close>, so its exact expansion is a candidate.\<close>

lemma is_fl_decimal:
  assumes "is_fl p (- int K) x"
  shows "\<exists>m. x = of_int m * 10 powi (- int K)"
proof -
  from assms obtain m k where x: "x = of_int m * 2 powi k" and k: "- int K \<le> k"
    by (auto simp: is_fl_def)
  define j where "j = nat (k + int K)"
  have "(2 :: rat) powi k = 2 powi (int j + - int K)" using k by (simp add: j_def)
  also have "\<dots> = 2 ^ j * 2 powi (- int K)" by (simp only: powi2_add power_int_of_nat)
  also have "(2 :: rat) powi (- int K) = 5 ^ K * 10 powi (- int K)"
    using power_mult_distrib [of "2 :: rat" 5 K] by (simp add: power_int_minus field_simps)
  finally have "x = of_int (m * 2 ^ j * 5 ^ K) * 10 powi (- int K)" by (simp add: x)
  then show ?thesis ..
qed

lemma dec_candidate_exact:
  assumes x: "x = of_int m * 10 powi (- int K)" "is_double x" "0 < x"
    and k: "int k = ilog 10 x + 1 + int K"
  shows "dec_candidate x k \<noteq> None"
proof -
  have e: "ilog 10 x + 1 - int k = - int K" using k by simp
  have "0 < (10 :: rat) powi (- int K)" by simp
  with x(1,3) have "0 < m" by (metis of_int_0_less_iff zero_less_mult_pos2)
  then have m: "0 \<le> m" by simp
  have q: "x / 10 powi (- int K) = of_int m" by (simp add: x(1))
  have "to_double (of_nat (nat m) * 10 powi (- int K)) = Fin x"
    using to_double_id [OF x(2)] m by (simp add: x(1))
  then show ?thesis by (simp add: dec_candidate_def Let_def e q m)
qed

lemma ilog10_less:
  assumes "0 < x" "x < 2 ^ N"
  shows "ilog 10 x < int N"
proof (rule ccontr)
  assume "\<not> ilog 10 x < int N"
  then have "(10 :: rat) powi int N \<le> 10 powi ilog 10 x" by (intro power_int_increasing) auto
  also have "\<dots> \<le> x" using ilog_bounds(1) [of 10 x] assms(1) by simp
  finally have "(10 :: rat) ^ N \<le> x" by simp
  moreover have "(2 :: rat) ^ N \<le> 10 ^ N" by (rule power_mono) auto
  ultimately show False using assms(2) by linarith
qed

lemma ilog10_ge:
  assumes x: "x = of_int m * 10 powi (- int K)" "0 < x"
  shows "- int K \<le> ilog 10 x"
proof -
  have pos: "0 < (10 :: rat) powi (- int K)" by simp
  with x have "0 < m" by (metis of_int_0_less_iff zero_less_mult_pos2)
  then have "1 \<le> m" by simp
  then have "1 * 10 powi (- int K) \<le> x" unfolding x(1)
    by (intro mult_right_mono) auto
  then have "10 powi (- int K) < (10 :: rat) powi (ilog 10 x + 1)"
    using ilog_bounds(2) [of 10 x] x(2) by simp
  then have "\<not> ilog 10 x + 1 \<le> - int K"
    using powi_mono_less [of 10 "ilog 10 x + 1" "- int K"] by force
  then show ?thesis by simp
qed

lemma shortest_total:
  assumes d: "is_double x" and x: "0 < x"
  obtains s e where "shortest shortest_fuel 1 x = Some (s, e)"
    and "to_double (of_nat s * 10 powi e) = Fin x" and "0 < s"
proof -
  define K :: nat where "K = 1074"
  define N :: nat where "N = 1024"
  have "is_fl 53 (- int K) x"
    using d is_fl_fl_round [of 53 "- int K" x] by (simp add: is_double_def f64_def K_def)
  then obtain m where m: "x = of_int m * 10 powi (- int K)" using is_fl_decimal by blast
  have "x < 2 ^ N" using d x by (simp add: is_double_def overflow_threshold_def N_def)
  with x have hi: "ilog 10 x < int N" by (rule ilog10_less)
  have lo: "- int K \<le> ilog 10 x" using m x by (rule ilog10_ge)
  define k where "k = nat (ilog 10 x + 1 + int K)"
  have k: "int k = ilog 10 x + 1 + int K" using lo by (simp add: k_def)
  have "shortest shortest_fuel 1 x \<noteq> None"
    by (rule shortest_found [OF dec_candidate_exact [OF m d x k]])
      (use k hi lo in \<open>simp_all add: K_def N_def shortest_fuel_def\<close>)
  then obtain s e where se: "shortest shortest_fuel 1 x = Some (s, e)" by force
  from shortest_sound [OF this] x that [OF se] show thesis by simp
qed

subsection \<open>Scanning what was printed\<close>

text \<open>What may follow a number: nothing that would extend it.\<close>

definition num_end :: "jsstring \<Rightarrow> bool" where
  "num_end s = (case s of [] \<Rightarrow> True | u # _ \<Rightarrow> \<not> is_digit u \<and> u \<noteq> 46 \<and> u \<noteq> 101 \<and> u \<noteq> 69)"

lemma num_end_no_digit: "num_end s \<Longrightarrow> no_digit s"
  by (cases s) (auto simp: num_end_def no_digit_def)

lemma scan_frac_none: "num_end s \<Longrightarrow> scan_frac s = Some ([], s)"
  by (cases s) (auto simp: num_end_def scan_frac_def)

lemma scan_exp_none: "num_end s \<Longrightarrow> scan_exp s = Some (0, s)"
  by (cases s) (auto simp: num_end_def scan_exp_def)

lemma digit_unit_cases:
  assumes "d < 10"
  shows "digit_unit d \<noteq> 45" "digit_unit d \<noteq> 43" "digit_unit d = 48 \<longleftrightarrow> d = 0"
  using assms unat_digit_unit [OF assms] by (auto simp del: unat_digit_unit)

lemma scan_int_units:
  assumes "\<forall>d\<in>set ds. d < 10" "ds \<noteq> []" "hd ds \<noteq> 0" "no_digit rest"
  shows "scan_int (digit_units ds @ rest) = Some (ds, rest)"
proof -
  from assms(2) obtain d ds' where ds: "ds = d # ds'" by (cases ds) auto
  with assms take_digits_units [OF assms(1,4)] show ?thesis
    by (simp add: scan_int_def digit_unit_cases)
qed

lemma scan_frac_units:
  assumes "\<forall>d\<in>set ds. d < 10" "ds \<noteq> []" "no_digit rest"
  shows "scan_frac (46 # digit_units ds @ rest) = Some (ds, rest)"
  using assms(2) take_digits_units [OF assms(1,3)] by (cases ds) (auto simp: scan_frac_def)

lemma scan_exp_units:
  assumes "no_digit rest"
  shows "scan_exp (101 # (if 0 \<le> e then [43] else [45]) @ nat_str (nat \<bar>e\<bar>) @ rest) = Some (e, rest)"
proof -
  have "take_digits (nat_str (nat \<bar>e\<bar>) @ rest) = (dec_digits (nat \<bar>e\<bar>), rest)"
    using assms by (auto simp: nat_str_def intro!: take_digits_units dest: dec_digits_less)
  moreover obtain d ds where dd: "dec_digits (nat \<bar>e\<bar>) = d # ds"
    by (cases "dec_digits (nat \<bar>e\<bar>)") auto
  moreover have "int (digits_val (d # ds)) = \<bar>e\<bar>"
    using digits_val_dec_digits [of "nat \<bar>e\<bar>"] by (simp add: dd)
  ultimately show ?thesis by (cases "0 \<le> e") (simp_all add: scan_exp_def)
qed

lemma scan_unsigned_digits:
  assumes "\<forall>d\<in>set (is @ fs). d < 10" "is \<noteq> []" "hd is \<noteq> 0" "fs \<noteq> []" "no_digit rest"
    and "scan_exp rest = Some (e, rest')"
  shows "scan_unsigned (digit_units is @ 46 # digit_units fs @ rest) =
    Some (of_nat (digits_val (is @ fs)) * 10 powi (e - int (length fs)), rest')"
proof -
  have "no_digit (46 # digit_units fs @ rest)" by (simp add: no_digit_def is_digit_def)
  then have "scan_int (digit_units is @ 46 # digit_units fs @ rest) = Some (is, 46 # digit_units fs @ rest)"
    using assms by (intro scan_int_units) auto
  moreover have "scan_frac (46 # digit_units fs @ rest) = Some (fs, rest)"
    using assms by (intro scan_frac_units) auto
  ultimately show ?thesis using assms(6) by (simp add: scan_unsigned_def)
qed

lemma scan_unsigned_int:
  assumes "\<forall>d\<in>set is. d < 10" "is \<noteq> []" "hd is \<noteq> 0" "no_digit rest"
    and "scan_frac rest = Some ([], rest)" "scan_exp rest = Some (e, rest')"
  shows "scan_unsigned (digit_units is @ rest) = Some (of_nat (digits_val is) * 10 powi e, rest')"
  using assms scan_int_units [of "is" rest] by (simp add: scan_unsigned_def)

lemma scan_unsigned_zero_frac:
  assumes "\<forall>d\<in>set fs. d < 10" "fs \<noteq> []" "num_end rest"
  shows "scan_unsigned (48 # 46 # digit_units fs @ rest) =
    Some (of_nat (digits_val fs) * 10 powi (- int (length fs)), rest)"
proof -
  have "scan_frac (46 # digit_units fs @ rest) = Some (fs, rest)"
    using assms by (intro scan_frac_units) (auto intro: num_end_no_digit)
  moreover have "digits_val (0 # fs) = digits_val fs"
    using digits_val_append [of "[0]" fs] by (simp add: digits_val_def)
  ultimately show ?thesis
    using scan_exp_none [OF assms(3)] by (simp add: scan_unsigned_def scan_int_def)
qed

lemma scan_unsigned_layout:
  assumes s: "0 < s" and rest: "num_end rest"
  shows "scan_unsigned (num_layout s e @ rest) = Some (of_nat s * 10 powi e, rest)"
proof -
  define ds where "ds = dec_digits s"
  define k where "k = length ds"
  define n where "n = e + int k"
  have ds10: "\<forall>d\<in>set ds. d < 10" by (auto simp: ds_def dest: dec_digits_less)
  have ne: "ds \<noteq> []" and hd0: "hd ds \<noteq> 0" and val: "digits_val ds = s"
    using s by (simp_all add: ds_def hd_dec_digits)
  note rest' = num_end_no_digit [OF rest] scan_frac_none [OF rest] scan_exp_none [OF rest]
  have layout: "num_layout s e =
      (if int k \<le> n \<and> n \<le> 21 then digit_units (ds @ replicate (nat (n - int k)) 0)
       else if 0 < n \<and> n \<le> 21 then digit_units (take (nat n) ds) @ 46 # digit_units (drop (nat n) ds)
       else if - 6 < n \<and> n \<le> 0 then 48 # 46 # digit_units (replicate (nat (- n)) 0 @ ds)
       else (if k = 1 then digit_units ds else digit_units (take 1 ds) @ 46 # digit_units (drop 1 ds))
            @ 101 # (if 0 \<le> n - 1 then [43] else [45]) @ nat_str (nat \<bar>n - 1\<bar>))"
    by (simp add: num_layout_def Let_def n_def k_def ds_def take_map drop_map)
  consider (int) "int k \<le> n" "n \<le> 21" | (mid) "0 < n" "n < int k" "n \<le> 21"
    | (small) "- 6 < n" "n \<le> 0" | (exp) "\<not> (- 6 < n \<and> n \<le> 21)" by linarith
  then show ?thesis
  proof cases
    case int
    have "scan_unsigned (digit_units (ds @ replicate (nat (n - int k)) 0) @ rest) =
        Some (of_nat (digits_val (ds @ replicate (nat (n - int k)) 0)) * 10 powi 0, rest)"
      using ds10 ne hd0 rest' by (intro scan_unsigned_int) (auto simp: hd_append)
    moreover have "n - int k = e" "0 \<le> e" using int by (simp_all add: n_def)
    ultimately show ?thesis using int
      by (simp add: layout digits_val_append val power_int_def)
  next
    case mid
    have "scan_unsigned (digit_units (take (nat n) ds) @ 46 # digit_units (drop (nat n) ds) @ rest) =
        Some (of_nat (digits_val (take (nat n) ds @ drop (nat n) ds)) * 10 powi (0 - int (length (drop (nat n) ds))), rest)"
      using ds10 ne hd0 rest' mid
      by (intro scan_unsigned_digits) (auto simp: k_def hd_take)
    moreover have "0 - int (length (drop (nat n) ds)) = e" using mid by (simp add: n_def k_def)
    ultimately show ?thesis using mid by (simp add: layout val)
  next
    case small
    have "scan_unsigned (48 # 46 # digit_units (replicate (nat (- n)) 0 @ ds) @ rest) =
        Some (of_nat (digits_val (replicate (nat (- n)) 0 @ ds)) * 10 powi (- int (length (replicate (nat (- n)) 0 @ ds))), rest)"
      using ds10 ne rest by (intro scan_unsigned_zero_frac) auto
    moreover have "- int (length (replicate (nat (- n)) 0 @ ds)) = e" using small by (simp add: n_def k_def)
    moreover have "\<not> int k \<le> n" using small ne by (cases ds) (auto simp: k_def)
    ultimately show ?thesis using small by (simp add: layout digits_val_append val)
  next
    case exp
    let ?t = "101 # (if 0 \<le> n - 1 then [43] else [45]) @ nat_str (nat \<bar>n - 1\<bar>) @ rest"
    have ex: "scan_exp ?t = Some (n - 1, rest)" by (rule scan_exp_units [OF rest'(1)])
    have nd: "no_digit ?t" "scan_frac ?t = Some ([], ?t)" by (simp_all add: no_digit_def is_digit_def scan_frac_def)
    show ?thesis
    proof (cases "k = 1")
      case True
      have "scan_unsigned (digit_units ds @ ?t) = Some (of_nat (digits_val ds) * 10 powi (n - 1), rest)"
        using ds10 ne hd0 nd ex by (rule scan_unsigned_int)
      moreover have "n - 1 = e" using True by (simp add: n_def)
      ultimately show ?thesis using exp True by (auto simp: layout val)
    next
      case False
      with ne have k: "1 < k" by (cases ds) (auto simp: k_def)
      have "scan_unsigned (digit_units (take 1 ds) @ 46 # digit_units (drop 1 ds) @ ?t) =
          Some (of_nat (digits_val (take 1 ds @ drop 1 ds)) * 10 powi (n - 1 - int (length (drop 1 ds))), rest)"
        using ds10 ne hd0 nd ex k by (intro scan_unsigned_digits) (auto simp: k_def hd_take dest: in_set_takeD in_set_dropD)
      moreover have "n - 1 - int (length (drop 1 ds)) = e" using k by (simp add: n_def k_def)
      ultimately show ?thesis using exp False by (auto simp: layout val)
    qed
  qed
qed

lemma pos_str_layout:
  assumes "is_double r" "0 < r"
  obtains s e where "pos_str r = num_layout s e" "0 < s" "to_double (of_nat s * 10 powi e) = Fin r"
  by (rule shortest_total [OF assms]) (use that in \<open>auto simp: pos_str_def\<close>)

lemma num_layout_hd:
  assumes "0 < s"
  shows "num_layout s e \<noteq> [] \<and> is_digit (hd (num_layout s e))"
proof -
  obtain d ds where ds: "dec_digits s = d # ds" by (cases "dec_digits s") auto
  have "d < 10" using dec_digits_less [of d s] by (simp add: ds)
  moreover have "is_digit 48" by (simp add: is_digit_def)
  ultimately show ?thesis
    by (auto simp: num_layout_def Let_def ds take_Cons' split: if_splits)
qed

lemma is_digit_neq_minus: "is_digit u \<Longrightarrow> u \<noteq> 45"
  by (auto simp: is_digit_def)

lemma scan_sign_digit: "s \<noteq> [] \<Longrightarrow> is_digit (hd s) \<Longrightarrow> scan_sign s = (False, s)"
  by (cases s) (auto simp: scan_sign_def is_digit_def)

lemma to_double_minus: "to_double v = Fin r \<Longrightarrow> to_double (- v) = Fin (- r)"
  by (auto simp: to_double_def Let_def f64.rnd_minus split: if_splits)

lemma scan_number_pos:
  assumes "is_double r" "0 < r" "num_end rest"
  shows "scan_sign (pos_str r @ rest) = (False, pos_str r @ rest)"
    and "\<exists>v. scan_unsigned (pos_str r @ rest) = Some (v, rest) \<and> to_double v = Fin r"
proof -
  obtain s e where se: "pos_str r = num_layout s e" "0 < s" "to_double (of_nat s * 10 powi e) = Fin r"
    using assms(1,2) by (rule pos_str_layout)
  from num_layout_hd [OF se(2), of e]
  show "scan_sign (pos_str r @ rest) = (False, pos_str r @ rest)"
    by (intro scan_sign_digit) (simp_all add: se(1) hd_append)
  from scan_unsigned_layout [OF se(2) assms(3)] se(3)
  show "\<exists>v. scan_unsigned (pos_str r @ rest) = Some (v, rest) \<and> to_double v = Fin r"
    by (simp add: se(1))
qed

theorem scan_num_str:
  assumes "is_double r" "num_end rest"
  shows "scan_number (num_str (Fin r) @ rest) = Some (Fin r, rest)"
proof (cases r "0 :: rat" rule: linorder_cases)
  case less
  then have "is_double (- r)" "0 < - r" using assms(1) by (simp_all add: is_double_def f64.rnd_minus)
  from scan_number_pos [OF this assms(2)] obtain v
    where "scan_unsigned (pos_str (- r) @ rest) = Some (v, rest)" "to_double v = Fin (- r)" by blast
  with less show ?thesis
    by (simp add: num_str_def scan_number_def scan_sign_def to_double_minus)
next
  case equal
  have "scan_frac rest = Some ([], rest)" "scan_exp rest = Some (0, rest)"
    using assms(2) by (simp_all add: scan_frac_none scan_exp_none)
  with equal show ?thesis
    by (simp add: num_str_def scan_number_def scan_sign_def scan_unsigned_def scan_int_def digits_val_def)
next
  case greater
  from scan_number_pos [OF assms(1) this assms(2)] greater show ?thesis
    by (auto simp: num_str_def scan_number_def)
qed

lemma num_str_hd:
  assumes "is_double r"
  shows "num_str (Fin r) \<noteq> [] \<and> (is_digit (hd (num_str (Fin r))) \<or> hd (num_str (Fin r)) = 45)"
proof (cases "0 < r")
  case True
  obtain s e where "pos_str r = num_layout s e" "0 < s" by (rule pos_str_layout [OF assms True])
  with num_layout_hd [of s e] True show ?thesis by (simp add: num_str_def)
next
  case False
  then show ?thesis by (auto simp: num_str_def is_digit_def)
qed

subsection \<open>Integers print as their decimal digits\<close>

lemma shortest_first:
  assumes "shortest fuel k x = Some (s, e)" "dec_candidate x k' \<noteq> None" "k \<le> k'"
  shows "\<exists>k'' s0 e0. k \<le> k'' \<and> k'' \<le> k' \<and> dec_candidate x k'' = Some (s0, e0) \<and> strip_zeros s0 e0 = (s, e)"
  using assms
proof (induction fuel arbitrary: k)
  case (Suc fuel)
  show ?case
  proof (cases "dec_candidate x k")
    case None
    with Suc.prems have "shortest fuel (Suc k) x = Some (s, e)" "Suc k \<le> k'"
      by (auto simp: le_less Suc_le_eq)
    from Suc.IH [OF this(1) Suc.prems(2) this(2)] show ?thesis by (meson Suc_leD)
  next
    case (Some r)
    with Suc.prems show ?thesis by (cases r) (fastforce)
  qed
qed simp

lemma dec_candidate_bound:
  assumes "dec_candidate x k = Some (s, e)" "0 < x"
  shows "e = ilog 10 x + 1 - int k" and "of_nat s * 10 powi e \<le> x + 10 powi e"
proof -
  show e: "e = ilog 10 x + 1 - int k"
    using assms by (auto simp: dec_candidate_def Let_def split: if_splits)
  let ?q = "x / 10 powi e"
  have q: "0 \<le> ?q" using assms(2) by simp
  have "s \<le> nat \<lfloor>?q\<rfloor> + 1"
    using assms(1) unfolding dec_candidate_def Let_def e by (auto split: if_splits)
  then have "(of_nat s :: rat) \<le> of_nat (nat \<lfloor>?q\<rfloor> + 1)" by (rule of_nat_mono)
  also have "\<dots> \<le> ?q + 1" using q by simp
  finally have "of_nat s * 10 powi e \<le> (?q + 1) * 10 powi e" by (rule mult_right_mono) simp
  then show "of_nat s * 10 powi e \<le> x + 10 powi e" by (simp add: algebra_simps)
qed

lemma strip_zeros_exp: "strip_zeros s e = (s', e') \<Longrightarrow> e \<le> e'"
proof (induction s e rule: strip_zeros.induct)
  case (1 s e)
  then show ?case by (subst (asm) (2) strip_zeros.simps) (auto split: if_splits)
qed

lemma shortest_int:
  assumes n: "0 < n" "n < 10 ^ 15"
  shows "\<exists>s j. shortest shortest_fuel 1 (of_nat n) = Some (s, int j) \<and> n = s * 10 ^ j"
proof -
  let ?x = "of_nat n :: rat"
  have x: "0 < ?x" using n by simp
  have d: "is_double ?x" using is_double_of_int [of "int n"] n by simp
  obtain s e where se: "shortest shortest_fuel 1 ?x = Some (s, e)" by (rule shortest_total [OF d x])
  have il: "0 \<le> ilog 10 ?x"
    using ilog10_ge [of ?x "int n" 0] x by simp
  have "dec_candidate ?x (nat (ilog 10 ?x + 1)) \<noteq> None"
    using x d il by (intro dec_candidate_exact [of _ "int n" 0]) auto
  from shortest_first [OF se this] il obtain k s0 e0
    where k: "1 \<le> k" "int k \<le> ilog 10 ?x + 1" and c: "dec_candidate ?x k = Some (s0, e0)"
      and st: "strip_zeros s0 e0 = (s, e)" by (auto simp: le_nat_iff)
  note e0 = dec_candidate_bound [OF c x]
  define i where "i = nat e0"
  have i: "e0 = int i" using e0(1) k by (simp add: i_def)
  have "10 powi e0 \<le> (10 :: rat) powi ilog 10 ?x" using e0(1) k by (intro power_int_increasing) auto
  also have "\<dots> \<le> ?x" using ilog_bounds(1) [of 10 ?x] x by simp
  finally have "of_nat s0 * 10 powi e0 \<le> 2 * ?x" using e0(2) by linarith
  then have "(of_nat (s0 * 10 ^ i) :: rat) \<le> of_nat (2 * n)" by (simp add: i)
  then have le: "s0 * 10 ^ i \<le> 2 * n" by (simp only: of_nat_le_iff)
  have "(2 :: nat) * 10 ^ 15 \<le> 2 ^ 53" by simp
  with n le have "s0 * 10 ^ i \<le> 2 ^ 53" by linarith
  then have "\<bar>int (s0 * 10 ^ i)\<bar> \<le> int (2 ^ 53)" by (simp only: abs_of_nat of_nat_le_iff)
  then have "\<bar>int (s0 * 10 ^ i)\<bar> \<le> 2 ^ 53" by simp
  from to_double_id [OF is_double_of_int [OF this]] dec_candidate_sound [OF c]
  have "(of_nat (s0 * 10 ^ i) :: rat) = of_nat n" by (simp add: i)
  then have s0: "s0 * 10 ^ i = n" by (simp only: of_nat_eq_iff)
  obtain j where j: "e = int j" using strip_zeros_exp [OF st] i by (cases e) auto
  from strip_zeros_value [OF st] have "(of_nat (s * 10 ^ j) :: rat) = of_nat (s0 * 10 ^ i)"
    by (simp add: i j)
  then have "s * 10 ^ j = n" using s0 by (simp only: of_nat_eq_iff)
  with se j show ?thesis by metis
qed

lemma dec_digits_times10: "0 < s \<Longrightarrow> dec_digits (s * 10 ^ j) = dec_digits s @ replicate j 0"
proof (induction j)
  case (Suc j)
  have "10 * (s * 10 ^ j) \<ge> 10" using Suc.prems by simp
  then have "dec_digits (10 * (s * 10 ^ j)) = dec_digits (s * 10 ^ j) @ [0]"
    by (subst dec_digits.simps) simp
  with Suc show ?case by (simp add: mult.left_commute replicate_append_same)
qed simp

lemma dec_digits_length: "n < 10 ^ k \<Longrightarrow> 0 < k \<Longrightarrow> length (dec_digits n) \<le> k"
proof (induction n arbitrary: k rule: dec_digits.induct)
  case (1 n)
  show ?case
  proof (cases "n < 10")
    case False
    from 1 obtain j where "k = Suc j" by (cases k) auto
    moreover have "0 < j" using 1 False calculation by (cases j) auto
    ultimately have j: "k = Suc j" "0 < j" by auto
    with 1 False have "n div 10 < 10 ^ j" by (simp add: div_less_iff_less_mult mult.commute)
    with 1 False j show ?thesis by (subst dec_digits.simps) simp
  qed (use 1 in \<open>subst dec_digits.simps, simp\<close>)
qed

lemma num_str_nat [simp]:
  assumes "n < 10 ^ 15"
  shows "num_str (Fin (of_nat n)) = nat_str n"
proof (cases "n = 0")
  case True
  then show ?thesis by (simp add: num_str_def nat_str_def dec_digits.simps)
next
  case False
  then obtain s j where sj: "shortest shortest_fuel 1 (of_nat n) = Some (s, int j)" "n = s * 10 ^ j"
    using shortest_int [of n] assms by auto
  with False have s: "0 < s" by (cases s) auto
  have "length (dec_digits n) \<le> 15" using assms by (rule dec_digits_length) simp
  then have len: "j + length (dec_digits s) \<le> 15" by (simp add: sj(2) dec_digits_times10 [OF s])
  have "num_layout s (int j) = digit_units (dec_digits s @ replicate j 0)"
    using len by (simp add: num_layout_def Let_def)
  moreover have "num_str (Fin (of_nat n)) = pos_str (of_nat n)" using False by (simp add: num_str_def)
  ultimately show ?thesis
    using sj(1) by (simp add: pos_str_def nat_str_def sj(2) dec_digits_times10 [OF s])
qed

lemma num_str_numeral [simp]: "num_str (Fin 0) = nat_str 0" "num_str (Fin 1) = nat_str 1"
  "numeral k < (10 :: nat) ^ 15 \<Longrightarrow> num_str (Fin (numeral k)) = nat_str (numeral k)"
  using num_str_nat [of 0] num_str_nat [of 1] num_str_nat [of "numeral k"] by simp_all

end
