(* ===== verification/JsText.thy ===== *)
theory JsText
  imports Prelude
begin

text \<open>
  \<^verbatim>\<open>TextEncoder\<close> and \<^verbatim>\<open>TextDecoder("utf-8", { fatal: true })\<close> on strings of UTF-16 code units
  (\<^verbatim>\<open>shared/ts/src/messages.ts\<close>, lines 5 and 6).

  Encoding first pairs surrogates into code points (a lone surrogate becomes U+FFFD) and then
  writes each as one to four bytes. Decoding follows the Encoding Standard: overlong forms,
  encoded surrogates and values above U+10FFFF are errors, and one leading byte order mark is
  removed. The lemma \<open>decode_encode\<close> is the round trip on well-formed strings.
\<close>

subsection \<open>UTF-16\<close>

definition is_high :: "codeunit \<Rightarrow> bool" where
  "is_high u \<longleftrightarrow> 0xD800 \<le> unat u \<and> unat u \<le> 0xDBFF"

definition is_low :: "codeunit \<Rightarrow> bool" where
  "is_low u \<longleftrightarrow> 0xDC00 \<le> unat u \<and> unat u \<le> 0xDFFF"

definition pair_cp :: "codeunit \<Rightarrow> codeunit \<Rightarrow> nat" where
  "pair_cp u v = 0x10000 + (unat u - 0xD800) * 0x400 + (unat v - 0xDC00)"

definition unit_cp :: "codeunit \<Rightarrow> nat" where
  "unit_cp u = (if is_high u \<or> is_low u then 0xFFFD else unat u)"

fun utf16_cps :: "jsstring \<Rightarrow> nat list" where
  "utf16_cps [] = []"
| "utf16_cps [u] = [unit_cp u]"
| "utf16_cps (u # v # s) =
     (if is_high u \<and> is_low v then pair_cp u v # utf16_cps s
      else unit_cp u # utf16_cps (v # s))"

definition cp_utf16 :: "nat \<Rightarrow> jsstring" where
  "cp_utf16 c =
     (if c < 0x10000 then [word_of_nat c]
      else [word_of_nat (0xD800 + (c - 0x10000) div 0x400),
            word_of_nat (0xDC00 + (c - 0x10000) mod 0x400)])"

text \<open>Every surrogate is part of a pair.\<close>

fun wf16 :: "jsstring \<Rightarrow> bool" where
  "wf16 [] = True"
| "wf16 [u] = (\<not> is_high u \<and> \<not> is_low u)"
| "wf16 (u # v # s) =
     (if is_high u \<and> is_low v then wf16 s else \<not> is_high u \<and> \<not> is_low u \<and> wf16 (v # s))"

definition scalar :: "nat \<Rightarrow> bool" where
  "scalar c \<longleftrightarrow> c < 0xD800 \<or> 0xE000 \<le> c \<and> c < 0x110000"

lemma unat_16_less: "unat (u :: codeunit) < 65536"
  using unsigned_less [of u, where ?'a = nat] by simp

lemma scalar_unit_cp: "scalar (unit_cp u)"
  using unat_16_less [of u] by (auto simp: scalar_def unit_cp_def is_high_def is_low_def)

lemma scalar_pair_cp: "is_high u \<Longrightarrow> is_low v \<Longrightarrow> scalar (pair_cp u v)"
  by (auto simp: scalar_def pair_cp_def is_high_def is_low_def)

lemma scalar_utf16_cps: "c \<in> set (utf16_cps s) \<Longrightarrow> scalar c"
  by (induction s rule: utf16_cps.induct) (auto simp: scalar_unit_cp scalar_pair_cp split: if_splits)

lemma cp_utf16_unit: "\<not> is_high u \<Longrightarrow> \<not> is_low u \<Longrightarrow> cp_utf16 (unit_cp u) = [u]"
  using unat_16_less [of u] by (simp add: cp_utf16_def unit_cp_def)

lemma cp_utf16_pair:
  assumes "is_high u" "is_low v"
  shows "cp_utf16 (pair_cp u v) = [u, v]"
proof -
  define a where "a = unat u - 0xD800"
  define b where "b = unat v - 0xDC00"
  have a: "unat u = 0xD800 + a" using assms(1) by (simp add: a_def is_high_def)
  have b: "unat v = 0xDC00 + b" "b < 0x400" using assms(2) by (auto simp: b_def is_low_def)
  have "(a * 0x400 + b) div 0x400 = a" "(a * 0x400 + b) mod 0x400 = b" using b(2) by simp_all
  then have "cp_utf16 (pair_cp u v) = [word_of_nat (0xD800 + a), word_of_nat (0xDC00 + b)]"
    by (simp add: cp_utf16_def pair_cp_def a b(1) add.assoc)
  moreover have "word_of_nat (0xD800 + a) = u" "word_of_nat (0xDC00 + b) = v"
    unfolding a [symmetric] b(1) [symmetric] by simp_all
  ultimately show ?thesis by simp
qed

lemma utf16_roundtrip: "wf16 s \<Longrightarrow> concat (map cp_utf16 (utf16_cps s)) = s"
  by (induction s rule: utf16_cps.induct) (auto simp: cp_utf16_unit cp_utf16_pair split: if_splits)

subsection \<open>UTF-8\<close>

definition utf8_enc :: "nat \<Rightarrow> bytes" where
  "utf8_enc c =
     (if c < 0x80 then [word_of_nat c]
      else if c < 0x800 then [word_of_nat (0xC0 + c div 64), word_of_nat (0x80 + c mod 64)]
      else if c < 0x10000
      then [word_of_nat (0xE0 + c div 4096), word_of_nat (0x80 + c div 64 mod 64),
            word_of_nat (0x80 + c mod 64)]
      else [word_of_nat (0xF0 + c div 262144), word_of_nat (0x80 + c div 4096 mod 64),
            word_of_nat (0x80 + c div 64 mod 64), word_of_nat (0x80 + c mod 64)])"

definition cont :: "nat \<Rightarrow> nat \<Rightarrow> byte \<Rightarrow> bool" where
  "cont lo hi b \<longleftrightarrow> lo \<le> unat b \<and> unat b \<le> hi"

definition low6 :: "byte \<Rightarrow> nat" where
  "low6 b = unat b - 0x80"

text \<open>One code point: the lead byte fixes the length and the range of the second byte.\<close>

definition utf8_step :: "byte \<Rightarrow> bytes \<Rightarrow> (nat \<times> bytes) option" where
  "utf8_step b bs =
     (let n = unat b in
      if n < 0x80 then Some (n, bs)
      else if 0xC2 \<le> n \<and> n \<le> 0xDF then
        (case bs of
           c1 # r \<Rightarrow> if cont 0x80 0xBF c1 then Some ((n - 0xC0) * 64 + low6 c1, r) else None
         | _ \<Rightarrow> None)
      else if 0xE0 \<le> n \<and> n \<le> 0xEF then
        (case bs of
           c1 # c2 # r \<Rightarrow>
             if cont (if n = 0xE0 then 0xA0 else 0x80) (if n = 0xED then 0x9F else 0xBF) c1
                \<and> cont 0x80 0xBF c2
             then Some ((n - 0xE0) * 4096 + low6 c1 * 64 + low6 c2, r) else None
         | _ \<Rightarrow> None)
      else if 0xF0 \<le> n \<and> n \<le> 0xF4 then
        (case bs of
           c1 # c2 # c3 # r \<Rightarrow>
             if cont (if n = 0xF0 then 0x90 else 0x80) (if n = 0xF4 then 0x8F else 0xBF) c1
                \<and> cont 0x80 0xBF c2 \<and> cont 0x80 0xBF c3
             then Some ((n - 0xF0) * 262144 + low6 c1 * 4096 + low6 c2 * 64 + low6 c3, r) else None
         | _ \<Rightarrow> None)
      else None)"

lemma utf8_step_shorter: "utf8_step b bs = Some (c, r) \<Longrightarrow> length r \<le> length bs"
  by (auto simp: utf8_step_def Let_def split: if_splits list.splits)

function utf8_dec :: "bytes \<Rightarrow> nat list option" where
  "utf8_dec [] = Some []"
| "utf8_dec (b # bs) =
     (case utf8_step b bs of
        None \<Rightarrow> None
      | Some (c, r) \<Rightarrow> (case utf8_dec r of None \<Rightarrow> None | Some cs \<Rightarrow> Some (c # cs)))"
  by pat_completeness auto
termination
  by (relation "measure length") (auto dest: utf8_step_shorter)

lemma unat_byte_of_nat: "n < 256 \<Longrightarrow> unat (word_of_nat n :: byte) = n"
  by (simp add: unat_of_nat)

lemma utf8_step2:
  assumes "2 \<le> a" "a < 32" "b < 64"
  shows "utf8_step (word_of_nat (0xC0 + a)) (word_of_nat (0x80 + b) # rest) = Some (a * 64 + b, rest)"
  using assms by (simp add: utf8_step_def Let_def unat_byte_of_nat cont_def low6_def del: of_nat_add)

lemma utf8_step3:
  assumes "a < 16" "b < 64" "d < 64" "a = 0 \<longrightarrow> 32 \<le> b" "a = 13 \<longrightarrow> b < 32"
  shows "utf8_step (word_of_nat (0xE0 + a)) (word_of_nat (0x80 + b) # word_of_nat (0x80 + d) # rest)
    = Some (a * 4096 + b * 64 + d, rest)"
  using assms by (auto simp: utf8_step_def Let_def unat_byte_of_nat cont_def low6_def simp del: of_nat_add)

lemma utf8_step4:
  assumes "a < 5" "b < 64" "d < 64" "e < 64" "a = 0 \<longrightarrow> 16 \<le> b" "a = 4 \<longrightarrow> b < 16"
  shows "utf8_step (word_of_nat (0xF0 + a))
      (word_of_nat (0x80 + b) # word_of_nat (0x80 + d) # word_of_nat (0x80 + e) # rest)
    = Some (a * 262144 + b * 4096 + d * 64 + e, rest)"
  using assms by (auto simp: utf8_step_def Let_def unat_byte_of_nat cont_def low6_def simp del: of_nat_add)

lemma utf8_step_enc:
  assumes "scalar c"
  shows "\<exists>b bs. utf8_enc c = b # bs \<and> utf8_step b (bs @ rest) = Some (c, rest)"
proof -
  consider (one) "c < 0x80" | (two) "0x80 \<le> c" "c < 0x800"
    | (three) "0x800 \<le> c" "c < 0x10000" "c < 0xD800 \<or> 0xE000 \<le> c" | (four) "0x10000 \<le> c" "c < 0x110000"
    using assms by (force simp: scalar_def)
  then show ?thesis
  proof cases
    case one
    then show ?thesis by (simp add: utf8_enc_def utf8_step_def unat_byte_of_nat)
  next
    case two
    then have "2 \<le> c div 64" "c div 64 < 32" by linarith+
    with two show ?thesis by (simp add: utf8_enc_def utf8_step2 del: of_nat_add)
  next
    case three
    define q where "q = c div 64"
    have q: "32 \<le> q" "q < 1024" "q < 864 \<or> 896 \<le> q" "c = q * 64 + c mod 64"
      using three by (auto simp: q_def)
    have d: "c div 4096 = q div 64" by (simp add: q_def div_mult2_eq [of c 64 64, simplified])
    have "q div 64 < 16" using q(2) by simp
    moreover have "q div 64 = 0 \<longrightarrow> 32 \<le> q mod 64" using q(1) by auto
    moreover have "q div 64 = 13 \<longrightarrow> q mod 64 < 32"
      using q(3) div_mult_mod_eq [of q 64] by (elim disjE; linarith)
    moreover have "q div 64 * 4096 + q mod 64 * 64 + c mod 64 = c"
      using q(4) div_mult_mod_eq [of q 64] by linarith
    ultimately show ?thesis using three utf8_step3 [of "q div 64" "q mod 64" "c mod 64" rest]
      by (simp add: utf8_enc_def d q_def [symmetric] del: of_nat_add)
  next
    case four
    define q where "q = c div 64"
    define p where "p = q div 64"
    have q: "c = q * 64 + c mod 64" "q = p * 64 + q mod 64" by (simp_all add: q_def p_def)
    have p: "16 \<le> p" "p < 272" using four q by linarith+
    have d: "c div 4096 = p" "c div 262144 = p div 64"
      by (simp_all add: p_def q_def div_mult2_eq [of c 64 64, simplified] div_mult2_eq [of c 64 4096, simplified]
          div_mult2_eq [of "c div 64" 64 64, simplified])
    have "p div 64 < 5" using p(2) by simp
    moreover have "p div 64 = 0 \<longrightarrow> 16 \<le> p mod 64" using p(1) by auto
    moreover have "p div 64 = 4 \<longrightarrow> p mod 64 < 16"
      using p(2) div_mult_mod_eq [of p 64] by linarith
    moreover have "p div 64 * 262144 + p mod 64 * 4096 + q mod 64 * 64 + c mod 64 = c"
      using q div_mult_mod_eq [of p 64] by linarith
    ultimately show ?thesis using four utf8_step4 [of "p div 64" "p mod 64" "q mod 64" "c mod 64" rest]
      by (simp add: utf8_enc_def d q_def [symmetric] del: of_nat_add)
  qed
qed

lemma utf8_roundtrip: "\<forall>c\<in>set cs. scalar c \<Longrightarrow> utf8_dec (concat (map utf8_enc cs)) = Some cs"
proof (induction cs)
  case (Cons c cs)
  then obtain b bs where "utf8_enc c = b # bs"
    "utf8_step b (bs @ concat (map utf8_enc cs)) = Some (c, concat (map utf8_enc cs))"
    using utf8_step_enc [of c "concat (map utf8_enc cs)"] by auto
  with Cons show ?case by simp
qed simp

subsection \<open>The two Web API objects\<close>

definition TextEncoder_encode :: "jsstring \<Rightarrow> bytes" where
  "TextEncoder_encode s = concat (map utf8_enc (utf16_cps s))"

definition strip_bom :: "bytes \<Rightarrow> bytes" where
  "strip_bom bs = (if take 3 bs = [0xEF, 0xBB, 0xBF] then drop 3 bs else bs)"

definition TextDecoder_decode :: "bytes \<Rightarrow> jsstring option" where
  "TextDecoder_decode bs = map_option (\<lambda>cs. concat (map cp_utf16 cs)) (utf8_dec (strip_bom bs))"

text \<open>A string that starts with an ASCII character has no byte order mark to lose.\<close>

lemma TextEncoder_ascii_hd:
  assumes "unat u < 0x80"
  shows "TextEncoder_encode (u # s) = word_of_nat (unat u) # TextEncoder_encode s"
proof -
  have "\<not> is_high u" "\<not> is_low u" using assms by (auto simp: is_high_def is_low_def)
  then have "utf16_cps (u # s) = unit_cp u # utf16_cps s" and "unit_cp u = unat u"
    by (cases s; simp add: unit_cp_def)+
  with assms show ?thesis by (simp add: TextEncoder_encode_def utf8_enc_def)
qed

lemma decode_encode:
  assumes "wf16 (u # s)" "unat u < 0x80"
  shows "TextDecoder_decode (TextEncoder_encode (u # s)) = Some (u # s)"
proof -
  have "unat (word_of_nat (unat u) :: byte) = unat u" using assms(2) by (intro unat_byte_of_nat) simp
  then have "(word_of_nat (unat u) :: byte) \<noteq> 0xEF" using assms(2) by force
  then have "strip_bom (TextEncoder_encode (u # s)) = TextEncoder_encode (u # s)"
    by (simp add: strip_bom_def TextEncoder_ascii_hd [OF assms(2)])
  moreover have "utf8_dec (TextEncoder_encode (u # s)) = Some (utf16_cps (u # s))"
    unfolding TextEncoder_encode_def by (rule utf8_roundtrip) (blast intro: scalar_utf16_cps)
  ultimately show ?thesis using utf16_roundtrip [OF assms(1)] by (simp add: TextDecoder_decode_def)
qed

end
