(* ===== verification/JsJson.thy ===== *)
theory JsJson
  imports JsDecimal JsText "HOL-Library.Monad_Syntax"
begin

text \<open>
  \<^verbatim>\<open>JSON.stringify\<close> and \<^verbatim>\<open>JSON.parse\<close> on the values the codecs exchange.

  An object is the list of its members in textual order; \<open>getprop\<close> reads a property and lets
  the last of several members with the same name win, as \<^verbatim>\<open>JSON.parse\<close> does. The parser is a
  recursive descent with a fuel argument that every call spends; \<open>JSON_parse\<close> starts it with
  enough fuel for its input, and \<open>parse_value_fuel\<close> proves that more fuel never changes the
  result. The lemma \<open>JSON_parse_stringify\<close> is the round trip.
\<close>

datatype json =
    JNull
  | JBool bool
  | JNum jsnum
  | JStr jsstring
  | JArr "json list"
  | JObj "(jsstring \<times> json) list"

subsection \<open>Printing\<close>

definition hex_unit :: "nat \<Rightarrow> codeunit" where
  "hex_unit d = (if d < 10 then word_of_nat (48 + d) else word_of_nat (87 + d))"

definition hex4 :: "codeunit \<Rightarrow> jsstring" where
  "hex4 u = [hex_unit (unat u div 4096 mod 16), hex_unit (unat u div 256 mod 16),
             hex_unit (unat u div 16 mod 16), hex_unit (unat u mod 16)]"

definition quote_unit :: "codeunit \<Rightarrow> jsstring" where
  "quote_unit u =
     (if u = 8 then [92, 98]
      else if u = 9 then [92, 116]
      else if u = 10 then [92, 110]
      else if u = 12 then [92, 102]
      else if u = 13 then [92, 114]
      else if u = 34 then [92, 34]
      else if u = 92 then [92, 92]
      else if u < 0x20 \<or> is_high u \<or> is_low u then [92, 117] @ hex4 u
      else [u])"

fun quote_body :: "jsstring \<Rightarrow> jsstring" where
  "quote_body [] = []"
| "quote_body [u] = quote_unit u"
| "quote_body (u # v # s) =
     (if is_high u \<and> is_low v then u # v # quote_body s
      else quote_unit u @ quote_body (v # s))"

definition quote :: "jsstring \<Rightarrow> jsstring" where
  "quote s = 34 # quote_body s @ [34]"

fun joinc :: "jsstring list \<Rightarrow> jsstring" where
  "joinc [] = []"
| "joinc [x] = x"
| "joinc (x # y # xs) = x @ 44 # joinc (y # xs)"

fun stringify :: "json \<Rightarrow> jsstring" where
  "stringify JNull = js ''null''"
| "stringify (JBool b) = (if b then js ''true'' else js ''false'')"
| "stringify (JNum x) = (if isFinite x then num_str x else js ''null'')"
| "stringify (JStr s) = quote s"
| "stringify (JArr vs) = 91 # joinc (map stringify vs) @ [93]"
| "stringify (JObj kvs) = 123 # joinc (map (\<lambda>(k, v). quote k @ 58 # stringify v) kvs) @ [125]"

subsection \<open>Parsing\<close>

definition is_ws :: "codeunit \<Rightarrow> bool" where
  "is_ws u \<longleftrightarrow> u = 32 \<or> u = 9 \<or> u = 10 \<or> u = 13"

definition skip_ws :: "jsstring \<Rightarrow> jsstring" where
  "skip_ws s = dropWhile is_ws s"

definition hex_val :: "codeunit \<Rightarrow> nat option" where
  "hex_val u =
     (let n = unat u in
      if 48 \<le> n \<and> n \<le> 57 then Some (n - 48)
      else if 97 \<le> n \<and> n \<le> 102 then Some (n - 87)
      else if 65 \<le> n \<and> n \<le> 70 then Some (n - 55)
      else None)"

definition hex4_val :: "codeunit \<Rightarrow> codeunit \<Rightarrow> codeunit \<Rightarrow> codeunit \<Rightarrow> codeunit option" where
  "hex4_val a b c d =
     do { w \<leftarrow> hex_val a; x \<leftarrow> hex_val b; y \<leftarrow> hex_val c; z \<leftarrow> hex_val d;
          Some (word_of_nat (w * 4096 + x * 256 + y * 16 + z)) }"

definition simple_escape :: "codeunit \<Rightarrow> codeunit option" where
  "simple_escape u =
     (if u = 34 \<or> u = 92 \<or> u = 47 then Some u
      else if u = 98 then Some 8
      else if u = 102 then Some 12
      else if u = 110 then Some 10
      else if u = 114 then Some 13
      else if u = 116 then Some 9
      else None)"

text \<open>The rest of a string literal, after its opening quote.\<close>

fun scan_string :: "jsstring \<Rightarrow> (jsstring \<times> jsstring) option" where
  "scan_string [] = None"
| "scan_string (u # s) =
     (if u = 34 then Some ([], s)
      else if u = 92 then
        (case s of
           [] \<Rightarrow> None
         | e # r \<Rightarrow>
             if e = 117 then
               (case r of
                  a # b # c # d # t \<Rightarrow>
                    (case hex4_val a b c d of
                       None \<Rightarrow> None
                     | Some w \<Rightarrow>
                         (case scan_string t of None \<Rightarrow> None | Some (x, y) \<Rightarrow> Some (w # x, y)))
                | _ \<Rightarrow> None)
             else
               (case simple_escape e of
                  None \<Rightarrow> None
                | Some w \<Rightarrow>
                    (case scan_string r of None \<Rightarrow> None | Some (x, y) \<Rightarrow> Some (w # x, y))))
      else if u < 0x20 then None
      else (case scan_string s of None \<Rightarrow> None | Some (x, y) \<Rightarrow> Some (u # x, y)))"

definition expect :: "jsstring \<Rightarrow> jsstring \<Rightarrow> jsstring option" where
  "expect lit s = (if take (length lit) s = lit then Some (drop (length lit) s) else None)"

text \<open>The next significant code unit, with what follows it.\<close>

definition next_tok :: "jsstring \<Rightarrow> (codeunit \<times> jsstring) option" where
  "next_tok s = (case skip_ws s of [] \<Rightarrow> None | u # r \<Rightarrow> Some (u, r))"

fun parse_value :: "nat \<Rightarrow> jsstring \<Rightarrow> (json \<times> jsstring) option"
  and parse_elems :: "nat \<Rightarrow> jsstring \<Rightarrow> (json list \<times> jsstring) option"
  and parse_members :: "nat \<Rightarrow> jsstring \<Rightarrow> ((jsstring \<times> json) list \<times> jsstring) option" where
  "parse_value 0 s = None"
| "parse_value (Suc n) s =
     do { (u, r) \<leftarrow> next_tok s;
          if u = 34 then do { (x, t) \<leftarrow> scan_string r; Some (JStr x, t) }
          else if u = 91 then
            do { (v, t) \<leftarrow> next_tok r;
                 if v = 93 then Some (JArr [], t)
                 else do { (vs, q) \<leftarrow> parse_elems n r; Some (JArr vs, q) } }
          else if u = 123 then
            do { (v, t) \<leftarrow> next_tok r;
                 if v = 125 then Some (JObj [], t)
                 else do { (kvs, q) \<leftarrow> parse_members n r; Some (JObj kvs, q) } }
          else if u = 110 then do { t \<leftarrow> expect (js ''ull'') r; Some (JNull, t) }
          else if u = 116 then do { t \<leftarrow> expect (js ''rue'') r; Some (JBool True, t) }
          else if u = 102 then do { t \<leftarrow> expect (js ''alse'') r; Some (JBool False, t) }
          else do { (x, t) \<leftarrow> scan_number (u # r); Some (JNum x, t) } }"
| "parse_elems 0 s = None"
| "parse_elems (Suc n) s =
     do { (v, r) \<leftarrow> parse_value n s;
          (u, t) \<leftarrow> next_tok r;
          if u = 93 then Some ([v], t)
          else if u = 44 then do { (vs, q) \<leftarrow> parse_elems n t; Some (v # vs, q) }
          else None }"
| "parse_members 0 s = None"
| "parse_members (Suc n) s =
     do { (u, r) \<leftarrow> next_tok s;
          if u = 34 then
            do { (k, t) \<leftarrow> scan_string r;
                 (c, t2) \<leftarrow> next_tok t;
                 if c = 58 then
                   do { (v, t3) \<leftarrow> parse_value n t2;
                        (e, t4) \<leftarrow> next_tok t3;
                        if e = 125 then Some ([(k, v)], t4)
                        else if e = 44 then
                          do { (kvs, q) \<leftarrow> parse_members n t4; Some ((k, v) # kvs, q) }
                        else None }
                 else None }
          else None }"

definition JSON_parse :: "jsstring \<Rightarrow> json option" where
  "JSON_parse s =
     do { (v, r) \<leftarrow> parse_value (2 * length s + 2) s;
          if skip_ws r = [] then Some v else None }"

definition getprop :: "json \<Rightarrow> jsstring \<Rightarrow> json option" where
  "getprop v k = (case v of JObj kvs \<Rightarrow> map_of (rev kvs) k | _ \<Rightarrow> None)"


subsection \<open>Every call consumes input, and the fuel is enough\<close>

lemma skip_ws_le: "length (skip_ws s) \<le> length s"
  by (simp add: skip_ws_def length_dropWhile_le)

lemma next_tok_less: "next_tok s = Some (u, r) \<Longrightarrow> length r < length s"
  using skip_ws_le [of s] by (auto simp: next_tok_def split: list.splits)

lemma scan_string_less: "scan_string s = Some (x, r) \<Longrightarrow> length r < length s"
proof (induction s arbitrary: x rule: length_induct)
  case (1 s)
  then have IH: "length r < length t" if "scan_string t = Some (y, r)" "length t < length s" for t y
    using that by blast
  from 1(2) show ?case
    by (cases s) (auto split: if_splits list.splits option.splits dest!: IH)
qed

lemma option_bind_cong: "x = y \<Longrightarrow> (\<And>z. y = Some z \<Longrightarrow> f z = g z) \<Longrightarrow> Option.bind x f = Option.bind y g"
  by (cases y) auto

lemma expect_le: "expect lit s = Some t \<Longrightarrow> length t \<le> length s"
  by (auto simp: expect_def split: if_splits)

lemma parse_less_step:
  assumes val: "\<And>s v r. parse_value n s = Some (v, r) \<Longrightarrow> length r < length s"
    and els: "\<And>s vs r. parse_elems n s = Some (vs, r) \<Longrightarrow> length r < length s"
    and mem: "\<And>s kvs r. parse_members n s = Some (kvs, r) \<Longrightarrow> length r < length s"
  shows "parse_value (Suc n) s = Some (v, r) \<Longrightarrow> length r < length s"
    and "parse_elems (Suc n) s = Some (vs, r) \<Longrightarrow> length r < length s"
    and "parse_members (Suc n) s = Some (kvs, r) \<Longrightarrow> length r < length s"
  by (auto simp: bind_eq_Some_conv split: if_splits
      dest!: next_tok_less scan_string_less expect_le scan_number_shorter val els mem)

lemma parse_less:
  "parse_value n s = Some (v, r) \<Longrightarrow> length r < length s"
  "parse_elems n s = Some (vs, r) \<Longrightarrow> length r < length s"
  "parse_members n s = Some (kvs, r) \<Longrightarrow> length r < length s"
proof (induction n arbitrary: s v vs kvs r)
  case (Suc n)
  { case 1 from Suc.IH this show ?case by (rule parse_less_step(1)) next
    case 2 from Suc.IH this show ?case by (rule parse_less_step(2)) next
    case 3 from Suc.IH this show ?case by (rule parse_less_step(3)) }
qed simp_all

lemma parse_fuel_step:
  assumes val: "\<And>s. 2 * length s < n \<Longrightarrow> parse_value (Suc n) s = parse_value n s"
    and els: "\<And>s. 2 * length s + 1 < n \<Longrightarrow> parse_elems (Suc n) s = parse_elems n s"
    and mem: "\<And>s. 2 * length s + 1 < n \<Longrightarrow> parse_members (Suc n) s = parse_members n s"
  shows "2 * length s < Suc n \<Longrightarrow> parse_value (Suc (Suc n)) s = parse_value (Suc n) s"
    and "2 * length s + 1 < Suc n \<Longrightarrow> parse_elems (Suc (Suc n)) s = parse_elems (Suc n) s"
    and "2 * length s + 1 < Suc n \<Longrightarrow> parse_members (Suc (Suc n)) s = parse_members (Suc n) s"
proof -
  show "parse_value (Suc (Suc n)) s = parse_value (Suc n) s" if l: "2 * length s < Suc n"
  proof -
    have "2 * length r + 1 < n" if "next_tok s = Some (u, r)" for u r
      using next_tok_less [OF that] l by simp
    then have "parse_elems (Suc n) r = parse_elems n r" "parse_members (Suc n) r = parse_members n r"
      if "next_tok s = Some (u, r)" for u r
      using that els mem by blast+
    then show ?thesis
      unfolding parse_value.simps(2) [of "Suc n"] parse_value.simps(2) [of n]
      by (auto intro!: option_bind_cong simp del: parse_elems.simps parse_members.simps)
  qed
  show "parse_elems (Suc (Suc n)) s = parse_elems (Suc n) s" if l: "2 * length s + 1 < Suc n"
  proof -
    have v: "parse_value (Suc n) s = parse_value n s" using l by (intro val) simp
    have "2 * length t + 1 < n" if "parse_value n s = Some (x, r)" "next_tok r = Some (u, t)" for x r u t
      using parse_less(1) [OF that(1)] next_tok_less [OF that(2)] l by simp
    then have "parse_elems (Suc n) t = parse_elems n t"
      if "parse_value n s = Some (x, r)" "next_tok r = Some (u, t)" for x r u t
      using that els by blast
    then show ?thesis
      unfolding parse_elems.simps(2) [of "Suc n" s] parse_elems.simps(2) [of n s] v
      by (auto intro!: option_bind_cong simp del: parse_elems.simps)
  qed
  show "parse_members (Suc (Suc n)) s = parse_members (Suc n) s" if l: "2 * length s + 1 < Suc n"
  proof -
    have a: "2 * length t2 < n" if "next_tok s = Some (u, r)" "scan_string r = Some (k, t)" "next_tok t = Some (c, t2)"
      for u r k t c t2
      using next_tok_less [OF that(1)] scan_string_less [OF that(2)] next_tok_less [OF that(3)] l by simp
    have b: "2 * length t4 + 1 < n" if "next_tok s = Some (u, r)" "scan_string r = Some (k, t)" "next_tok t = Some (c, t2)"
        "parse_value n t2 = Some (v, t3)" "next_tok t3 = Some (e, t4)" for u r k t c t2 v t3 e t4
      using a [OF that(1-3)] parse_less(1) [OF that(4)] next_tok_less [OF that(5)] by simp
    have m: "parse_members (Suc n) t4 = parse_members n t4"
      if "next_tok s = Some (u, r)" "scan_string r = Some (k, t)" "next_tok t = Some (c, t2)"
        "parse_value n t2 = Some (v, t3)" "next_tok t3 = Some (e, t4)" for u r k t c t2 v t3 e t4
      using b [OF that] by (rule mem)
    show ?thesis
      unfolding parse_members.simps(2) [of "Suc n" s] parse_members.simps(2) [of n s]
      by (auto intro!: option_bind_cong simp del: parse_value.simps parse_members.simps simp: val a)
        (erule (4) m)
  qed
qed

lemma parse_fuel:
  "2 * length s < n \<Longrightarrow> parse_value (Suc n) s = parse_value n s"
  "2 * length s + 1 < n \<Longrightarrow> parse_elems (Suc n) s = parse_elems n s"
  "2 * length s + 1 < n \<Longrightarrow> parse_members (Suc n) s = parse_members n s"
proof (induction n arbitrary: s)
  case (Suc n)
  { case 1 from Suc.IH this show ?case by (rule parse_fuel_step(1)) next
    case 2 from Suc.IH this show ?case by (rule parse_fuel_step(2)) next
    case 3 from Suc.IH this show ?case by (rule parse_fuel_step(3)) }
qed simp_all

lemma parse_value_fuel:
  assumes "2 * length s < n" "n \<le> m"
  shows "parse_value m s = parse_value n s"
  using assms(2,1) by (induction m rule: dec_induct) (simp_all only: parse_fuel(1))

subsection \<open>Parsing what was printed\<close>

lemma hex_val_unit: "d < 16 \<Longrightarrow> hex_val (hex_unit d) = Some d"
  by (simp add: hex_val_def hex_unit_def Let_def unat_of_nat del: of_nat_add)

lemma hex4_roundtrip:
  obtains a b c d where "hex4 u = [a, b, c, d]" "hex4_val a b c d = Some u"
proof
  show "hex4 u = [hex_unit (unat u div 4096 mod 16), hex_unit (unat u div 256 mod 16),
      hex_unit (unat u div 16 mod 16), hex_unit (unat u mod 16)]" by (simp add: hex4_def)
  define n where "n = unat u"
  have n: "n < 65536" using unat_16_less [of u] by (simp add: n_def)
  have eq: "n div 4096 mod 16 * 4096 + n div 256 mod 16 * 256 + n div 16 mod 16 * 16 + n mod 16 = n"
  proof -
    define q where "q = n div 16"
    define p where "p = q div 16"
    have "n div 256 = p" "n div 4096 = p div 16"
      by (simp_all add: p_def q_def div_mult2_eq [of n 16 16, simplified] div_mult2_eq [of n 16 256, simplified]
          div_mult2_eq [of "n div 16" 16 16, simplified])
    moreover have "p div 16 < 16" using n by (simp add: p_def q_def)
    moreover have "n = q * 16 + n mod 16" "q = p * 16 + q mod 16" "p = p div 16 * 16 + p mod 16"
      by (simp_all add: p_def q_def)
    ultimately have "p div 16 mod 16 * 4096 + p mod 16 * 256 + q mod 16 * 16 + n mod 16 = n"
      by (subst mod_less) linarith+
    then show ?thesis using \<open>n div 256 = p\<close> \<open>n div 4096 = p div 16\<close> by (simp add: q_def)
  qed
  have "word_of_nat (n div 4096 mod 16 * 4096 + n div 256 mod 16 * 256 + n div 16 mod 16 * 16 + n mod 16) = u"
    unfolding eq by (simp add: n_def)
  then show "hex4_val (hex_unit (unat u div 4096 mod 16)) (hex_unit (unat u div 256 mod 16))
      (hex_unit (unat u div 16 mod 16)) (hex_unit (unat u mod 16)) = Some u"
    unfolding hex4_val_def n_def [symmetric]
    by (simp add: hex_val_unit del: of_nat_add of_nat_mult)
qed

lemma scan_string_unit:
  assumes "scan_string r = Some (x, y)"
  shows "scan_string (quote_unit u @ r) = Some (u # x, y)"
proof -
  obtain a b c d where h: "hex4 u = [a, b, c, d]" "hex4_val a b c d = Some u" by (rule hex4_roundtrip)
  show ?thesis
    using assms h by (simp add: quote_unit_def simple_escape_def)
qed

lemma scan_string_raw:
  assumes "is_high u \<or> is_low u" "scan_string r = Some (x, y)"
  shows "scan_string (u # r) = Some (u # x, y)"
proof -
  have "u \<noteq> 34" "u \<noteq> 92" "\<not> u < 0x20"
    using assms(1) by (auto simp: is_high_def is_low_def word_less_nat_alt)
  with assms(2) show ?thesis by simp
qed

lemma scan_quote_body: "scan_string (quote_body s @ 34 # r) = Some (s, r)"
proof (induction s rule: quote_body.induct)
  case (3 u v s)
  show ?case
  proof (cases "is_high u \<and> is_low v")
    case True
    with 3(1) have "scan_string (quote_body s @ 34 # r) = Some (s, r)" by simp
    with True show ?thesis by (simp add: scan_string_raw del: scan_string.simps)
  next
    case False
    with 3(2) show ?thesis by (auto simp add: scan_string_unit simp del: scan_string.simps)
  qed
qed (simp_all add: scan_string_unit)

text \<open>Values that survive a round trip: every number in them is a finite double.\<close>

fun json_ok :: "json \<Rightarrow> bool" where
  "json_ok (JNum x) = (case x of Fin r \<Rightarrow> is_double r | _ \<Rightarrow> False)"
| "json_ok (JArr vs) = list_all json_ok vs"
| "json_ok (JObj kvs) = list_all (\<lambda>(k, v). json_ok v) kvs"
| "json_ok _ = True"

lemma next_tok_Cons: "\<not> is_ws u \<Longrightarrow> next_tok (u # r) = Some (u, r)"
  by (simp add: next_tok_def skip_ws_def)

lemma next_tok_lits [simp]:
  "next_tok (34 # r) = Some (34, r)" "next_tok (44 # r) = Some (44, r)"
  "next_tok (58 # r) = Some (58, r)" "next_tok (91 # r) = Some (91, r)"
  "next_tok (93 # r) = Some (93, r)" "next_tok (123 # r) = Some (123, r)"
  "next_tok (125 # r) = Some (125, r)"
  by (simp_all add: next_tok_Cons is_ws_def)

lemma num_end_lits [simp]: "num_end []" "num_end (44 # r)" "num_end (93 # r)" "num_end (125 # r)"
  by (simp_all add: num_end_def is_digit_def)

text \<open>How a printed value starts: never with white space or a closing bracket.\<close>

definition value_start :: "codeunit \<Rightarrow> bool" where
  "value_start u \<longleftrightarrow> \<not> is_ws u \<and> u \<noteq> 93 \<and> u \<noteq> 125"

lemma stringify_start:
  assumes "json_ok v"
  obtains u r where "stringify v = u # r" "value_start u"
proof (cases v)
  case (JNum x)
  with assms obtain q where q: "x = Fin q" "is_double q" by (cases x) auto
  obtain u r where ur: "num_str (Fin q) = u # r" using num_str_hd [OF q(2)] by (cases "num_str (Fin q)") auto
  have "is_digit u \<or> u = 45" using num_str_hd [OF q(2)] ur by simp
  then have "value_start u" by (auto simp: value_start_def is_ws_def is_digit_def)
  with JNum q ur that show thesis by simp
next
  case (JBool b)
  with that show thesis by (cases b) (auto simp: value_start_def is_ws_def)
qed (use that in \<open>auto simp: quote_def value_start_def is_ws_def split: if_splits\<close>)

lemma next_tok_stringify:
  assumes "json_ok v" "stringify v = u # r"
  shows "next_tok (u # r @ t) = Some (u, r @ t)"
  by (rule stringify_start [OF assms(1)]) (use assms(2) in \<open>auto simp: next_tok_Cons value_start_def\<close>)

lemma joinc_Cons: "joinc (x # xs) = x @ (if xs = [] then [] else 44 # joinc xs)"
  by (cases xs) simp_all

lemma parse_elems_joinc:
  assumes IH: "\<And>v n rest. v \<in> set vs \<Longrightarrow> num_end rest \<Longrightarrow> 2 * length (stringify v) < n \<Longrightarrow>
      parse_value n (stringify v @ rest) = Some (v, rest)"
  shows "vs \<noteq> [] \<Longrightarrow> 2 * length (joinc (map stringify vs)) + 3 < n \<Longrightarrow>
      parse_elems n (joinc (map stringify vs) @ 93 # rest) = Some (vs, rest)"
  using IH
proof (induction vs arbitrary: n)
  case (Cons v vs)
  then obtain m where n: "n = Suc m" by (cases n) auto
  let ?t = "(if vs = [] then [] else 44 # joinc (map stringify vs)) @ 93 # rest"
  have "parse_value m (stringify v @ ?t) = Some (v, ?t)"
    using Cons.prems(2) by (intro Cons.prems(3)) (auto simp: n joinc_Cons)
  moreover have "parse_elems m (joinc (map stringify vs) @ 93 # rest) = Some (vs, rest)" if "vs \<noteq> []"
    using Cons.prems that by (intro Cons.IH) (auto simp: n joinc_Cons)
  ultimately show ?case by (simp add: n joinc_Cons del: parse_value.simps)
qed simp

definition print_member :: "jsstring \<times> json \<Rightarrow> jsstring" where
  "print_member = (\<lambda>(k, v). quote k @ 58 # stringify v)"

lemma print_member_append: "print_member (k, v) @ r = 34 # quote_body k @ 34 # 58 # stringify v @ r"
  by (simp add: print_member_def quote_def)

lemma stringify_JObj: "stringify (JObj kvs) = 123 # joinc (map print_member kvs) @ [125]"
  by (simp add: print_member_def)

lemma parse_members_joinc:
  assumes IH: "\<And>k v n rest. (k, v) \<in> set kvs \<Longrightarrow> num_end rest \<Longrightarrow> 2 * length (stringify v) < n \<Longrightarrow>
      parse_value n (stringify v @ rest) = Some (v, rest)"
  shows "kvs \<noteq> [] \<Longrightarrow> 2 * length (joinc (map print_member kvs)) + 3 < n \<Longrightarrow>
      parse_members n (joinc (map print_member kvs) @ 125 # rest) = Some (kvs, rest)"
  using IH
proof (induction kvs arbitrary: n)
  case (Cons kv kvs)
  then obtain m where n: "n = Suc m" by (cases n) auto
  obtain k v where kv: "kv = (k, v)" by (cases kv)
  let ?t = "(if kvs = [] then [] else 44 # joinc (map print_member kvs)) @ 125 # rest"
  have "parse_value m (stringify v @ ?t) = Some (v, ?t)"
    using Cons.prems(2) by (intro Cons.prems(3)) (auto simp: n joinc_Cons kv print_member_def)
  moreover have "parse_members m (joinc (map print_member kvs) @ 125 # rest) = Some (kvs, rest)" if "kvs \<noteq> []"
    using Cons.prems that by (intro Cons.IH) (auto simp: n joinc_Cons kv)
  ultimately show ?case
    by (cases "kvs = []")
      (simp_all add: n joinc_Cons kv print_member_append scan_quote_body del: parse_value.simps scan_string.simps)
qed simp

lemma scan_number_stringify:
  assumes "is_double q" "num_end rest" "Suc m = n"
  shows "parse_value n (num_str (Fin q) @ rest) = Some (JNum (Fin q), rest)"
proof -
  obtain u r where ur: "num_str (Fin q) = u # r" using num_str_hd [OF assms(1)] by (cases "num_str (Fin q)") auto
  have u: "is_digit u \<or> u = 45" using num_str_hd [OF assms(1)] ur by simp
  then have "next_tok (u # r @ rest) = Some (u, r @ rest)"
    by (intro next_tok_Cons) (auto simp: is_ws_def is_digit_def)
  moreover have "u \<noteq> 34 \<and> u \<noteq> 91 \<and> u \<noteq> 123 \<and> u \<noteq> 110 \<and> u \<noteq> 116 \<and> u \<noteq> 102"
    using u by (auto simp: is_digit_def)
  moreover have "scan_number (u # r @ rest) = Some (Fin q, rest)"
    using scan_num_str [OF assms(1,2)] ur by simp
  ultimately show ?thesis by (simp add: ur assms(3) [symmetric])
qed

lemma parse_stringify:
  "json_ok v \<Longrightarrow> num_end rest \<Longrightarrow> 2 * length (stringify v) < n \<Longrightarrow>
   parse_value n (stringify v @ rest) = Some (v, rest)"
proof (induction v arbitrary: n rest)
  case (JNum x)
  then show ?case by (cases n; cases x) (simp_all add: scan_number_stringify del: parse_value.simps)
next
  case (JArr vs)
  then obtain m where n: "n = Suc m" by (cases n) auto
  show ?case
  proof (cases vs)
    case (Cons v vs')
    have ok: "json_ok v" using JArr.prems(1) Cons by simp
    obtain u r where ur: "stringify v = u # r" "value_start u" by (rule stringify_start [OF ok])
    then obtain t where t: "joinc (map stringify vs) = u # t"
      by (cases vs') (auto simp: Cons)
    have "next_tok (u # t @ 93 # rest) = Some (u, t @ 93 # rest)" "u \<noteq> 93"
      using ur(2) by (simp_all add: next_tok_Cons value_start_def)
    moreover have "parse_elems m (joinc (map stringify vs) @ 93 # rest) = Some (vs, rest)"
      using JArr Cons by (intro parse_elems_joinc) (auto simp: n list_all_iff)
    ultimately show ?thesis by (simp add: n t del: parse_elems.simps)
  qed (simp add: n)
next
  case (JObj kvs)
  then obtain m where n: "n = Suc m" by (cases n) auto
  show ?case
  proof (cases kvs)
    case (Cons kv kvs')
    obtain t where t: "joinc (map print_member kvs) = 34 # t"
      by (cases kv) (auto simp: Cons joinc_Cons print_member_append)
    have "parse_members m (joinc (map print_member kvs) @ 125 # rest) = Some (kvs, rest)"
      using JObj Cons by (intro parse_members_joinc) (force simp: n list_all_iff stringify_JObj simp del: stringify.simps(6))+
    then show ?thesis by (simp add: n t stringify_JObj del: parse_members.simps stringify.simps(6))
  qed (simp add: n)
next
  case (JStr s)
  then show ?case by (cases n) (simp_all add: quote_def scan_quote_body del: scan_string.simps)
next
  case (JBool b)
  then show ?case by (cases n; cases b) (simp_all add: next_tok_Cons is_ws_def expect_def)
next
  case JNull
  then show ?case by (cases n) (simp_all add: next_tok_Cons is_ws_def expect_def)
qed

theorem JSON_parse_stringify: "json_ok v \<Longrightarrow> JSON_parse (stringify v) = Some v"
  using parse_stringify [of v "[]" "2 * length (stringify v) + 2"]
  by (simp add: JSON_parse_def skip_ws_def del: parse_value.simps)

subsection \<open>Printed text is well-formed UTF-16\<close>

definition ascii :: "codeunit \<Rightarrow> bool" where
  "ascii u \<longleftrightarrow> unat u < 0x80"

lemma ascii_not_surrogate: "ascii u \<Longrightarrow> \<not> is_high u \<and> \<not> is_low u"
  by (auto simp: ascii_def is_high_def is_low_def)

lemma wf16_Cons: "\<not> is_high u \<Longrightarrow> \<not> is_low u \<Longrightarrow> wf16 (u # s) = wf16 s"
  by (cases s) simp_all

lemma wf16_ascii: "\<forall>u\<in>set s. ascii u \<Longrightarrow> wf16 s"
  by (induction s) (auto simp: wf16_Cons dest: ascii_not_surrogate)

lemma wf16_append: "wf16 a \<Longrightarrow> wf16 b \<Longrightarrow> wf16 (a @ b)"
  by (induction a rule: wf16.induct) (auto simp: wf16_Cons split: if_splits)

declare wf16.simps(3) [simp del]

lemma ascii_numeral: "ascii 34" "ascii 44" "ascii 58" "ascii 91" "ascii 93" "ascii 123" "ascii 125"
  "ascii 43" "ascii 45" "ascii 46" "ascii 48" "ascii 101"
  by (simp_all add: ascii_def)

lemma wf16_Cons_ascii: "ascii u \<Longrightarrow> wf16 s \<Longrightarrow> wf16 (u # s)"
  by (auto simp: wf16_Cons dest: ascii_not_surrogate)

lemma ascii_digit_units: "u \<in> set (digit_units (dec_digits n)) \<Longrightarrow> ascii u"
  by (auto simp: ascii_def dest: dec_digits_less)

lemma ascii_num_layout: "u \<in> set (num_layout s e) \<Longrightarrow> ascii u"
  by (auto simp: num_layout_def Let_def nat_str_def ascii_numeral simp del: set_map
      dest!: in_set_takeD in_set_dropD ascii_digit_units split: if_splits)

lemma wf16_num_str: "is_double r \<Longrightarrow> wf16 (num_str (Fin r))"
proof -
  have pos: "\<forall>u\<in>set (pos_str q). ascii u" if q: "is_double q" "0 < q" for q
    by (rule pos_str_layout [OF q]) (auto simp: ascii_num_layout)
  assume r: "is_double r"
  then have "is_double (- r)" by (simp add: is_double_def f64.rnd_minus)
  with pos [of r] pos [of "- r"] r show ?thesis
    by (intro wf16_ascii) (auto simp: num_str_def ascii_numeral split: if_splits)
qed

lemma ascii_hex_unit: "d < 16 \<Longrightarrow> ascii (hex_unit d)"
  by (simp add: ascii_def hex_unit_def unat_of_nat del: of_nat_add)

lemma ascii_escapes: "ascii 92" "ascii 98" "ascii 102" "ascii 110" "ascii 114" "ascii 116" "ascii 117" "ascii 34"
  by (simp_all add: ascii_def)

lemma wf16_quote_unit: "wf16 (quote_unit u)"
  by (auto simp: quote_unit_def hex4_def ascii_hex_unit ascii_escapes intro!: wf16_ascii)

lemma wf16_quote_body: "wf16 (quote_body s)"
  by (induction s rule: quote_body.induct) (auto simp: wf16_quote_unit wf16.simps(3) intro: wf16_append)

lemma wf16_quote: "wf16 (quote s)"
  unfolding quote_def
  by (intro wf16_Cons_ascii wf16_append wf16_quote_body) (simp_all add: ascii_numeral wf16_ascii)

lemma wf16_joinc: "\<forall>x\<in>set xs. wf16 x \<Longrightarrow> wf16 (joinc xs)"
  by (induction xs rule: joinc.induct) (auto intro!: wf16_append wf16_Cons_ascii simp: ascii_numeral)

lemma wf16_brackets: "ascii a \<Longrightarrow> ascii b \<Longrightarrow> wf16 s \<Longrightarrow> wf16 (a # s @ [b])"
  by (intro wf16_Cons_ascii wf16_append) (auto dest: ascii_not_surrogate)

lemma wf16_stringify: "json_ok v \<Longrightarrow> wf16 (stringify v)"
proof (induction v)
  case (JNum x)
  then show ?case by (cases x) (auto simp: wf16_num_str)
next
  case (JArr vs)
  then show ?case
    by (simp add: list_all_iff) (intro wf16_brackets wf16_joinc; auto simp: ascii_numeral)
next
  case (JObj kvs)
  have "wf16 (print_member (k, v))" if "(k, v) \<in> set kvs" for k v
    using JObj that unfolding print_member_def
    by (auto simp: list_all_iff ascii_numeral intro!: wf16_append wf16_quote wf16_Cons_ascii)
  then show ?case unfolding stringify_JObj by (intro wf16_brackets wf16_joinc) (auto simp: ascii_numeral)
next
  case (JBool b)
  then show ?case by (cases b) (auto simp: ascii_def intro!: wf16_ascii)
qed (auto simp: wf16_quote ascii_def intro!: wf16_ascii)

text \<open>Through the byte level: the text of an object survives UTF-8.\<close>

lemma decode_stringify_obj:
  assumes "json_ok (JObj kvs)"
  shows "TextDecoder_decode (TextEncoder_encode (stringify (JObj kvs))) = Some (stringify (JObj kvs))"
  using wf16_stringify [OF assms] unfolding stringify_JObj by (rule decode_encode) simp

lemmas parse_simps = parse_value.simps parse_elems.simps parse_members.simps

declare parse_simps [simp del]

end
