(* ===== verification/Constants.thy ===== *)
theory Constants
  imports JsJson
begin

text \<open>
  \<^verbatim>\<open>shared/ts/src/constants.ts\<close> and \<^verbatim>\<open>shared/ts/src/errors.ts\<close>: the wire constants, the
  message types and the two kinds of error codes. \<open>ProtocolError\<close> is what the encoders and
  decoders throw: a message for the developer and a code for the program.
\<close>

definition MAGIC :: bytes where
  "MAGIC = [0x53, 0x4d, 0x58, 0x31]"

definition SUBPROTOCOL :: jsstring where
  "SUBPROTOCOL = js ''streammix.v1''"

definition HEADER_BYTES :: nat where
  "HEADER_BYTES = 21"

definition MAX_PAYLOAD_BYTES :: nat where
  "MAX_PAYLOAD_BYTES = 4096"

definition MAX_TRACK_SLOT :: nat where
  "MAX_TRACK_SLOT = 0x08"

definition MAX_TRACKS :: nat where
  "MAX_TRACKS = 8"

definition CONTROL_TRACK :: nat where
  "CONTROL_TRACK = 0x00"

datatype MessageType =
  Hello | TrackList | AudioOpus | Fingerprint | TrackMeta | Stats | SubTracks | Error

fun MessageType_value :: "MessageType \<Rightarrow> nat" where
  "MessageType_value Hello = 0x01"
| "MessageType_value TrackList = 0x02"
| "MessageType_value AudioOpus = 0x03"
| "MessageType_value Fingerprint = 0x04"
| "MessageType_value TrackMeta = 0x05"
| "MessageType_value Stats = 0x10"
| "MessageType_value SubTracks = 0x20"
| "MessageType_value Error = 0xff"

text \<open>A number as the sources have it: \<^verbatim>\<open>num\<close> on naturals.\<close>

abbreviation nnum :: "nat \<Rightarrow> jsnum" where
  "nnum n \<equiv> Fin (of_nat n)"

abbreviation mt :: "MessageType \<Rightarrow> jsnum" where
  "mt t \<equiv> nnum (MessageType_value t)"

lemma MessageType_value_inj [simp]: "MessageType_value a = MessageType_value b \<longleftrightarrow> a = b"
  by (cases a; cases b) simp_all

subsection \<open>Errors\<close>

definition ERROR_CODES :: "jsstring list" where
  "ERROR_CODES =
     [js ''AUTH_FAILED'', js ''CHANNEL_TAKEN'', js ''VERSION_MISMATCH'', js ''RATE_LIMIT'',
      js ''TRACK_LIMIT'', js ''MALFORMED'']"

definition isErrorCode :: "jsstring \<Rightarrow> bool" where
  "isErrorCode value = List.member ERROR_CODES value"

datatype protocol_code = BAD_MAGIC | BAD_LENGTH | BAD_TRACK | BAD_TYPE | BAD_PAYLOAD | TOO_LARGE

datatype ProtocolError = ProtocolError (message: jsstring) (code: protocol_code)

type_synonym 'a result = "ProtocolError + 'a"

end
