(* ===== verification/Header.thy ===== *)
theory Header
  imports Constants
begin

text \<open>
  \<^verbatim>\<open>shared/ts/src/header.ts\<close>: the 21-byte frame header and its codec.

  A frame's \<^verbatim>\<open>number\<close> fields are JavaScript numbers, so the encoder's range checks are modelled
  on NaN and fractions too; its stores truncate as typed arrays do. The results: encoding and
  decoding are inverse to each other between the well-formed frames and the byte strings the
  decoder accepts, and each error branch is characterised.
\<close>

record Frame =
  ftype :: jsnum
  track :: jsnum
  flags :: jsnum
  seq :: jsnum
  timestampMs :: int
  payload :: bytes

definition KNOWN_TYPES :: "nat list" where
  "KNOWN_TYPES =
     map MessageType_value [Hello, TrackList, AudioOpus, Fingerprint, TrackMeta, Stats, SubTracks, Error]"

definition encodeFrame :: "Frame \<Rightarrow> bytes result" where
  "encodeFrame frame =
     (if length (payload frame) > MAX_PAYLOAD_BYTES then
        throw (ProtocolError (js ''payload too large: '' @ nat_str (length (payload frame)) @
                 js '' > '' @ nat_str MAX_PAYLOAD_BYTES) TOO_LARGE)
      else if num_lt (track frame) (nnum 0) \<or> num_lt (nnum MAX_TRACK_SLOT) (track frame) then
        throw (ProtocolError (js ''invalid track slot: '' @ num_str (track frame)) BAD_TRACK)
      else if num_lt (flags frame) (nnum 0) \<or> num_lt (nnum 0xff) (flags frame) then
        throw (ProtocolError (js ''flags out of range: '' @ num_str (flags frame)) BAD_PAYLOAD)
      else if num_lt (seq frame) (nnum 0) \<or> num_lt (nnum 0xffffffff) (seq frame) then
        throw (ProtocolError (js ''seq out of uint32 range: '' @ num_str (seq frame)) BAD_PAYLOAD)
      else if timestampMs frame < 0 \<or> timestampMs frame > 0xffffffffffffffff then
        throw (ProtocolError (js ''timestamp out of uint64 range'') BAD_PAYLOAD)
      else
        (let buf = replicate (HEADER_BYTES + length (payload frame)) 0;
             buf = buf_set buf 0 MAGIC;
             buf = buf[4 := word_of_nat (to_uint 8 (ftype frame))];
             buf = buf[5 := word_of_nat (to_uint 8 (track frame))];
             buf = buf[6 := word_of_nat (to_uint 8 (flags frame))];
             buf = buf_set buf 7 (be_bytes 2 (length (payload frame)));
             buf = buf_set buf 9 (be_bytes 4 (to_uint 32 (seq frame)));
             buf = buf_set buf 13 (be_bytes 8 (nat (timestampMs frame mod 2 ^ 64)));
             buf = buf_set buf HEADER_BYTES (payload frame)
         in Inr buf))"

fun hex_digits :: "nat \<Rightarrow> nat list" where
  "hex_digits n = (if n < 16 then [n] else hex_digits (n div 16) @ [n mod 16])"

declare hex_digits.simps [simp del]

definition hex_str :: "nat \<Rightarrow> jsstring" where
  "hex_str n = map hex_unit (hex_digits n)"

definition decodeFrame :: "bytes \<Rightarrow> Frame result" where
  "decodeFrame input =
     (if length input < HEADER_BYTES then
        throw (ProtocolError (js ''frame shorter than header: '' @ nat_str (length input) @
                 js '' < '' @ nat_str HEADER_BYTES) BAD_LENGTH)
      else if list_ex (\<lambda>i. input ! i \<noteq> MAGIC ! i) [0..<length MAGIC] then
        throw (ProtocolError (js ''magic mismatch'') BAD_MAGIC)
      else
        (let type = unat (input ! 4);
             track = unat (input ! 5);
             flags = unat (input ! 6);
             payloadLen = be_val (take 2 (drop 7 input));
             seq = be_val (take 4 (drop 9 input));
             timestampMs = be_val (take 8 (drop 13 input))
         in if payloadLen > MAX_PAYLOAD_BYTES then
              throw (ProtocolError (js ''payload too large: '' @ nat_str payloadLen) TOO_LARGE)
            else if HEADER_BYTES + payloadLen \<noteq> length input then
              throw (ProtocolError (js ''length mismatch: declared '' @ nat_str payloadLen @
                       js '', got '' @ nat_str (length input - HEADER_BYTES)) BAD_LENGTH)
            else if track > MAX_TRACK_SLOT then
              throw (ProtocolError (js ''invalid track slot: '' @ nat_str track) BAD_TRACK)
            else if \<not> List.member KNOWN_TYPES type then
              throw (ProtocolError (js ''unknown message type: 0x'' @ hex_str type) BAD_TYPE)
            else Inr \<lparr>ftype = nnum type, track = nnum track, flags = nnum flags, seq = nnum seq,
                      timestampMs = int timestampMs,
                      payload = take payloadLen (drop HEADER_BYTES input)\<rparr>))"


subsection \<open>The layout the encoder writes\<close>

definition frame_bytes :: "nat \<Rightarrow> nat \<Rightarrow> nat \<Rightarrow> nat \<Rightarrow> nat \<Rightarrow> bytes \<Rightarrow> bytes" where
  "frame_bytes ty tr fl sq ts pl =
     MAGIC @ [word_of_nat ty, word_of_nat tr, word_of_nat fl] @ be_bytes 2 (length pl)
       @ be_bytes 4 sq @ be_bytes 8 ts @ pl"

lemma buf_set_append:
  "length a = off \<Longrightarrow> length b = length bs \<Longrightarrow> buf_set (a @ b @ c) off bs = a @ bs @ c"
  by (simp add: buf_set_def)

lemma header_zeros:
  "replicate (21 + n) (0 :: byte) =
     replicate 4 0 @ [0, 0, 0] @ replicate 2 0 @ replicate 4 0 @ replicate 8 0 @ replicate n 0"
  by (simp add: eval_nat_numeral)

lemma encode_layout:
  "(let buf = replicate (HEADER_BYTES + length pl) 0;
        buf = buf_set buf 0 MAGIC;
        buf = buf[4 := ty];
        buf = buf[5 := tr];
        buf = buf[6 := fl];
        buf = buf_set buf 7 (be_bytes 2 (length pl));
        buf = buf_set buf 9 (be_bytes 4 sq);
        buf = buf_set buf 13 (be_bytes 8 ts);
        buf = buf_set buf HEADER_BYTES pl
    in buf) =
   MAGIC @ [ty, tr, fl] @ be_bytes 2 (length pl) @ be_bytes 4 sq @ be_bytes 8 ts @ pl"
proof -
  let ?z = "\<lambda>n. replicate n (0 :: byte)"
  have 1: "buf_set (?z (HEADER_BYTES + length pl)) 0 MAGIC =
      MAGIC @ [0, 0, 0] @ ?z 2 @ ?z 4 @ ?z 8 @ ?z (length pl)"
    unfolding HEADER_BYTES_def header_zeros
    using buf_set_append [of "[]" 0 "?z 4" MAGIC] by (simp add: MAGIC_def)
  have 2: "(MAGIC @ [0, 0, 0] @ r)[4 := ty, 5 := tr, 6 := fl] = MAGIC @ [ty, tr, fl] @ r" for r
    by (simp add: MAGIC_def)
  have 3: "buf_set (MAGIC @ [ty, tr, fl] @ ?z 2 @ r) 7 (be_bytes 2 (length pl)) =
      MAGIC @ [ty, tr, fl] @ be_bytes 2 (length pl) @ r" for r
    using buf_set_append [of "MAGIC @ [ty, tr, fl]" 7 "?z 2" "be_bytes 2 (length pl)" r] by (simp add: MAGIC_def)
  have 4: "buf_set (MAGIC @ [ty, tr, fl] @ be_bytes 2 (length pl) @ ?z 4 @ r) 9 (be_bytes 4 sq) =
      MAGIC @ [ty, tr, fl] @ be_bytes 2 (length pl) @ be_bytes 4 sq @ r" for r
    using buf_set_append [of "MAGIC @ [ty, tr, fl] @ be_bytes 2 (length pl)" 9 "?z 4" "be_bytes 4 sq" r]
    by (simp add: MAGIC_def)
  have 5: "buf_set (MAGIC @ [ty, tr, fl] @ be_bytes 2 (length pl) @ be_bytes 4 sq @ ?z 8 @ r) 13 (be_bytes 8 ts) =
      MAGIC @ [ty, tr, fl] @ be_bytes 2 (length pl) @ be_bytes 4 sq @ be_bytes 8 ts @ r" for r
    using buf_set_append [of "MAGIC @ [ty, tr, fl] @ be_bytes 2 (length pl) @ be_bytes 4 sq" 13 "?z 8" "be_bytes 8 ts" r]
    by (simp add: MAGIC_def)
  have 6: "buf_set (MAGIC @ [ty, tr, fl] @ be_bytes 2 (length pl) @ be_bytes 4 sq @ be_bytes 8 ts @ ?z (length pl)) 21 pl =
      MAGIC @ [ty, tr, fl] @ be_bytes 2 (length pl) @ be_bytes 4 sq @ be_bytes 8 ts @ pl"
    using buf_set_append [of "MAGIC @ [ty, tr, fl] @ be_bytes 2 (length pl) @ be_bytes 4 sq @ be_bytes 8 ts" 21 "?z (length pl)" pl "[]"]
    by (simp add: MAGIC_def)
  show ?thesis by (simp only: Let_def 1 2 3 4 5) (simp only: HEADER_BYTES_def 6)
qed

lemmas encode_layout_unfolded = encode_layout [unfolded Let_def]

text \<open>The encoder's five range checks.\<close>

definition frame_in_range :: "Frame \<Rightarrow> bool" where
  "frame_in_range f \<longleftrightarrow>
     length (payload f) \<le> MAX_PAYLOAD_BYTES
     \<and> \<not> num_lt (track f) (nnum 0) \<and> \<not> num_lt (nnum MAX_TRACK_SLOT) (track f)
     \<and> \<not> num_lt (flags f) (nnum 0) \<and> \<not> num_lt (nnum 0xff) (flags f)
     \<and> \<not> num_lt (seq f) (nnum 0) \<and> \<not> num_lt (nnum 0xffffffff) (seq f)
     \<and> 0 \<le> timestampMs f \<and> timestampMs f \<le> 0xffffffffffffffff"

lemma encodeFrame_Inr:
  "encodeFrame f = Inr b \<longleftrightarrow>
     frame_in_range f
     \<and> b = frame_bytes (to_uint 8 (ftype f)) (to_uint 8 (track f)) (to_uint 8 (flags f))
            (to_uint 32 (seq f)) (nat (timestampMs f)) (payload f)"
proof (cases "frame_in_range f")
  case True
  then have "timestampMs f mod 2 ^ 64 = timestampMs f" by (simp add: frame_in_range_def)
  then show ?thesis using True
    unfolding encodeFrame_def frame_in_range_def
    by (simp add: Let_def encode_layout_unfolded frame_bytes_def eq_commute del: append.simps)
next
  case False
  then show ?thesis unfolding encodeFrame_def frame_in_range_def by (auto simp: Let_def)
qed


subsection \<open>Reading a layout back\<close>

lemma length_MAGIC [simp]: "length MAGIC = 4"
  by (simp add: MAGIC_def)

lemma magic_check:
  assumes "4 \<le> length input"
  shows "list_ex (\<lambda>i. input ! i \<noteq> MAGIC ! i) [0..<length MAGIC] \<longleftrightarrow> take 4 input \<noteq> MAGIC"
  using assms by (auto simp: list_ex_iff list_eq_iff_nth_eq)

lemma frame_bytes_fields:
  fixes pl :: bytes and ty tr fl sq ts :: nat
  defines "b \<equiv> frame_bytes ty tr fl sq ts pl"
  shows "length b = HEADER_BYTES + length pl" and "take 4 b = MAGIC"
    and "b ! 4 = word_of_nat ty" and "b ! 5 = word_of_nat tr" and "b ! 6 = word_of_nat fl"
    and "take 2 (drop 7 b) = be_bytes 2 (length pl)" and "take 4 (drop 9 b) = be_bytes 4 sq"
    and "take 8 (drop 13 b) = be_bytes 8 ts" and "drop HEADER_BYTES b = pl"
proof -
  have b: "b = MAGIC @ [word_of_nat ty, word_of_nat tr, word_of_nat fl] @ be_bytes 2 (length pl)
      @ be_bytes 4 sq @ be_bytes 8 ts @ pl" by (simp add: b_def frame_bytes_def)
  show "length b = HEADER_BYTES + length pl" "take 4 b = MAGIC" "drop HEADER_BYTES b = pl"
    by (simp_all add: b HEADER_BYTES_def)
  show "b ! 4 = word_of_nat ty" "b ! 5 = word_of_nat tr" "b ! 6 = word_of_nat fl"
    by (simp_all add: b nth_append)
  show "take 2 (drop 7 b) = be_bytes 2 (length pl)"
    by (rule drop_take_eqI [where as = "MAGIC @ [word_of_nat ty, word_of_nat tr, word_of_nat fl]"]) (simp_all add: b)
  show "take 4 (drop 9 b) = be_bytes 4 sq"
    by (rule drop_take_eqI [where as = "MAGIC @ [word_of_nat ty, word_of_nat tr, word_of_nat fl] @ be_bytes 2 (length pl)"]) (simp_all add: b)
  show "take 8 (drop 13 b) = be_bytes 8 ts"
    by (rule drop_take_eqI [where as = "MAGIC @ [word_of_nat ty, word_of_nat tr, word_of_nat fl] @ be_bytes 2 (length pl) @ be_bytes 4 sq"]) (simp_all add: b)
qed

text \<open>The byte strings the decoder accepts, and what it reads from them.\<close>

definition frame_accepted :: "bytes \<Rightarrow> bool" where
  "frame_accepted b \<longleftrightarrow>
     HEADER_BYTES \<le> length b \<and> take 4 b = MAGIC
     \<and> be_val (take 2 (drop 7 b)) \<le> MAX_PAYLOAD_BYTES
     \<and> length b = HEADER_BYTES + be_val (take 2 (drop 7 b))
     \<and> unat (b ! 5) \<le> MAX_TRACK_SLOT \<and> unat (b ! 4) \<in> set KNOWN_TYPES"

definition frame_read :: "bytes \<Rightarrow> Frame" where
  "frame_read b =
     \<lparr>ftype = nnum (unat (b ! 4)), track = nnum (unat (b ! 5)), flags = nnum (unat (b ! 6)),
      seq = nnum (be_val (take 4 (drop 9 b))), timestampMs = int (be_val (take 8 (drop 13 b))),
      payload = drop HEADER_BYTES b\<rparr>"

lemma frame_accepted_facts:
  assumes "frame_accepted b"
  shows "21 \<le> length b" "take 4 b = MAGIC" "length (drop HEADER_BYTES b) = be_val (take 2 (drop 7 b))"
    "length (drop HEADER_BYTES b) \<le> MAX_PAYLOAD_BYTES"
    "unat (b ! 5) \<le> MAX_TRACK_SLOT" "unat (b ! 4) \<in> set KNOWN_TYPES"
proof -
  define n where "n = be_val (take 2 (drop 7 b))"
  have *: "HEADER_BYTES \<le> length b" "take 4 b = MAGIC" "n \<le> MAX_PAYLOAD_BYTES"
      "length b = HEADER_BYTES + n" "unat (b ! 5) \<le> MAX_TRACK_SLOT" "unat (b ! 4) \<in> set KNOWN_TYPES"
    using assms by (simp_all only: frame_accepted_def n_def)
  from * show "21 \<le> length b" "take 4 b = MAGIC" "length (drop HEADER_BYTES b) = be_val (take 2 (drop 7 b))"
    "length (drop HEADER_BYTES b) \<le> MAX_PAYLOAD_BYTES"
    "unat (b ! 5) \<le> MAX_TRACK_SLOT" "unat (b ! 4) \<in> set KNOWN_TYPES"
    by (simp_all add: HEADER_BYTES_def flip: n_def)
qed

lemma decodeFrame_accepts:
  assumes "frame_accepted b"
  shows "decodeFrame b = Inr (frame_read b)"
proof -
  define n where "n = be_val (take 2 (drop 7 b))"
  have len: "length b = HEADER_BYTES + n" and h: "\<not> length b < HEADER_BYTES"
   and mm: "take 4 b = MAGIC"  and n: "\<not> n > MAX_PAYLOAD_BYTES" and tr: "\<not> unat (b ! 5) > MAX_TRACK_SLOT" and ty: "unat (b ! 4) \<in> set KNOWN_TYPES"
    using assms by (auto simp only: frame_accepted_def n_def)
  then have "4 \<le> length b" by (simp add: HEADER_BYTES_def)
  note m = magic_check [OF this]
  have pl: "take n (drop HEADER_BYTES b) = drop HEADER_BYTES b" using len by simp
  have len': "\<not> HEADER_BYTES + n \<noteq> length b" using len by simp
  show ?thesis
    unfolding decodeFrame_def m Let_def frame_read_def List.member_iff n_def [symmetric] pl
    by (simp only: h mm n len' tr ty simp_thms if_False if_True)
qed

lemma decodeFrame_rejects:
  assumes "\<not> frame_accepted b"
  shows "decodeFrame b \<noteq> Inr f"
proof (cases "HEADER_BYTES \<le> length b")
  case True
  then have "4 \<le> length b" by (simp add: HEADER_BYTES_def)
  note m = magic_check [OF this]
  show ?thesis
    using assms True unfolding decodeFrame_def m Let_def if_throw_eq_Inr frame_accepted_def
      List.member_iff not_not not_less by metis
qed (simp add: decodeFrame_def)

lemma decodeFrame_Inr: "decodeFrame b = Inr f \<longleftrightarrow> frame_accepted b \<and> f = frame_read b"
  using decodeFrame_accepts [of b] decodeFrame_rejects [of b f] by (metis sum.inject(2))

subsection \<open>Well-formed frames and the two inverses\<close>

definition frame_wf :: "Frame \<Rightarrow> bool" where
  "frame_wf f \<longleftrightarrow>
     (\<exists>ty tr fl sq. ty \<in> set KNOWN_TYPES \<and> tr \<le> MAX_TRACK_SLOT \<and> fl \<le> 0xff \<and> sq \<le> 0xffffffff
        \<and> ftype f = nnum ty \<and> track f = nnum tr \<and> flags f = nnum fl \<and> seq f = nnum sq)
     \<and> 0 \<le> timestampMs f \<and> timestampMs f \<le> 0xffffffffffffffff
     \<and> length (payload f) \<le> MAX_PAYLOAD_BYTES"

lemma KNOWN_TYPES_byte: "ty \<in> set KNOWN_TYPES \<Longrightarrow> ty < 256"
  by (auto simp: KNOWN_TYPES_def)

lemma frame_accepted_layout:
  assumes "ty \<in> set KNOWN_TYPES" "tr \<le> MAX_TRACK_SLOT" "length pl \<le> MAX_PAYLOAD_BYTES"
  shows "frame_accepted (frame_bytes ty tr fl sq ts pl)"
  using assms KNOWN_TYPES_byte [of ty]
  by (simp add: frame_accepted_def frame_bytes_fields be_val_be_bytes unat_of_nat
      MAX_PAYLOAD_BYTES_def MAX_TRACK_SLOT_def)

lemma frame_read_layout:
  assumes "ty < 256" "tr < 256" "fl < 256" "sq < 2 ^ 32" "ts < 2 ^ 64"
  shows "frame_read (frame_bytes ty tr fl sq ts pl) =
    \<lparr>ftype = nnum ty, track = nnum tr, flags = nnum fl, seq = nnum sq, timestampMs = int ts, payload = pl\<rparr>"
  using assms by (simp add: frame_read_def frame_bytes_fields be_val_be_bytes unat_of_nat)

lemma frame_wf_in_range: "frame_wf f \<Longrightarrow> frame_in_range f"
  by (auto simp: frame_wf_def frame_in_range_def)

lemma encode_wf:
  assumes "frame_wf f"
  shows "\<exists>b. encodeFrame f = Inr b \<and> decodeFrame b = Inr f"
proof -
  from assms obtain ty tr fl sq where f: "ty \<in> set KNOWN_TYPES" "tr \<le> MAX_TRACK_SLOT" "fl \<le> 0xff"
      "sq \<le> 0xffffffff" "ftype f = nnum ty" "track f = nnum tr" "flags f = nnum fl" "seq f = nnum sq"
    and ts: "0 \<le> timestampMs f" "timestampMs f \<le> 0xffffffffffffffff"
    and pl: "length (payload f) \<le> MAX_PAYLOAD_BYTES" unfolding frame_wf_def by blast
  have b: "ty < 256" "tr < 256" "fl < 256" "sq < 2 ^ 32" "nat (timestampMs f) < 2 ^ 64"
    using f(1-4) ts KNOWN_TYPES_byte [of ty] by (simp_all add: MAX_TRACK_SLOT_def nat_less_iff)
  let ?b = "frame_bytes ty tr fl sq (nat (timestampMs f)) (payload f)"
  have "encodeFrame f = Inr ?b"
    unfolding encodeFrame_Inr f(5-8)
    using b frame_wf_in_range [OF assms] by simp
  moreover have "decodeFrame ?b = Inr f"
    unfolding decodeFrame_Inr frame_read_layout [OF b]
    using frame_accepted_layout [OF f(1,2) pl] f ts by (simp)
  ultimately show ?thesis by blast
qed

lemma be_val_bound': "length bs = n \<Longrightarrow> be_val bs < 256 ^ n"
  using be_val_bound [of bs] by simp

lemma accepted_wf:
  assumes "frame_accepted b"
  shows "frame_wf (frame_read b)"
proof -
  note fa = frame_accepted_facts [OF assms]
  note len = fa(1)
  have "be_val (take 4 (drop 9 b)) < 256 ^ 4" "be_val (take 8 (drop 13 b)) < 256 ^ 8"
    using len by (intro be_val_bound'; simp)+
  then have "be_val (take 4 (drop 9 b)) \<le> 0xffffffff" "be_val (take 8 (drop 13 b)) \<le> 0xffffffffffffffff"
    by simp_all
  moreover have "unat (b ! 6) \<le> 0xff" using unat_byte_less [of "b ! 6"] by linarith
  ultimately show ?thesis using fa(4,5,6)
    unfolding frame_wf_def frame_read_def Frame.simps
    by (intro conjI exI [of _ "unat (b ! 4)"] exI [of _ "unat (b ! 5)"] exI [of _ "unat (b ! 6)"]
        exI [of _ "be_val (take 4 (drop 9 b))"] refl) simp_all
qed

lemma accepted_layout:
  assumes "frame_accepted b"
  shows "b = frame_bytes (unat (b ! 4)) (unat (b ! 5)) (unat (b ! 6)) (be_val (take 4 (drop 9 b)))
    (be_val (take 8 (drop 13 b))) (drop HEADER_BYTES b)"
proof -
  note len = frame_accepted_facts(1) [OF assms] and mg = frame_accepted_facts(2) [OF assms]
    and pl = frame_accepted_facts(3) [OF assms]
  have split: "drop i b = take n (drop i b) @ drop (i + n) b" for i n
    by (metis append_take_drop_id drop_drop add.commute)
  have three: "take 3 (drop 4 b) = [b ! 4, b ! 5, b ! 6]"
    using len by (simp add: list_eq_iff_nth_eq less_Suc_eq numeral_3_eq_3)
  have "b = take 4 b @ take 3 (drop 4 b) @ take 2 (drop 7 b) @ take 4 (drop 9 b) @ take 8 (drop 13 b) @ drop 21 b"
    using split [of 4 3] split [of 7 2] split [of 9 4] split [of 13 8] append_take_drop_id [of 4 b] by simp
  moreover have "be_bytes 2 (be_val (take 2 (drop 7 b))) = take 2 (drop 7 b)"
    "be_bytes 4 (be_val (take 4 (drop 9 b))) = take 4 (drop 9 b)"
    "be_bytes 8 (be_val (take 8 (drop 13 b))) = take 8 (drop 13 b)"
    using len by (auto intro!: be_bytes_be_val)
  ultimately show ?thesis
    unfolding frame_bytes_def pl by (simp only: mg three HEADER_BYTES_def) simp
qed


lemma to_uint_byte [simp]: "to_uint 8 (Fin (unsigned (w :: byte))) = unat w"
  using to_uint_nat [of "unat w" 8] by simp

lemma decode_canonical:
  assumes "decodeFrame b = Inr f"
  shows "encodeFrame f = Inr b"
proof -
  from assms have acc: "frame_accepted b" and f: "f = frame_read b" by (simp_all add: decodeFrame_Inr)
  from encode_wf [OF accepted_wf [OF acc]] obtain b' where
    "encodeFrame f = Inr b'" by (auto simp: f)
  moreover have "be_val (take 4 (drop 9 b)) < 2 ^ 32"
    using be_val_bound' [of "take 4 (drop 9 b)" 4] frame_accepted_facts(1) [OF acc] by simp
  ultimately have "b' = frame_bytes (unat (b ! 4)) (unat (b ! 5)) (unat (b ! 6)) (be_val (take 4 (drop 9 b)))
    (be_val (take 8 (drop 13 b))) (drop HEADER_BYTES b)"
    unfolding encodeFrame_Inr by (simp add: f frame_read_def)
  with accepted_layout [OF acc] \<open>encodeFrame f = Inr b'\<close> show ?thesis by simp
qed

text \<open>
  Whatever numbers a caller passes (NaN, fractions), if the encoder returns bytes and the type
  truncates to a known one, the decoder takes them.
\<close>

lemma encode_accepted:
  assumes "encodeFrame f = Inr b" "to_uint 8 (ftype f) \<in> set KNOWN_TYPES"
  shows "frame_accepted b \<and> payload (frame_read b) = payload f"
proof -
  from assms(1) have r: "frame_in_range f"
    and b: "b = frame_bytes (to_uint 8 (ftype f)) (to_uint 8 (track f)) (to_uint 8 (flags f))
            (to_uint 32 (seq f)) (nat (timestampMs f)) (payload f)"
    by (simp_all add: encodeFrame_Inr)
  have "to_uint 8 (track f) \<le> nat (int MAX_TRACK_SLOT)"
    using r by (intro to_uint_le) (auto simp: frame_in_range_def MAX_TRACK_SLOT_def)
  then show ?thesis using r assms(2) unfolding b
    by (intro conjI frame_accepted_layout)
      (auto simp: frame_in_range_def frame_read_def frame_bytes_fields(9))
qed

subsection \<open>Properties\<close>

definition sample_frame :: Frame where
  "sample_frame =
     \<lparr>ftype = mt AudioOpus, track = nnum 3, flags = nnum 0, seq = nnum 70000,
      timestampMs = 1700000000000, payload = [1, 2, 255]\<rparr>"

lemma sample_frame_wf: "frame_wf sample_frame"
  unfolding frame_wf_def sample_frame_def
  by (intro conjI exI [of _ "MessageType_value AudioOpus"] exI [of _ 3] exI [of _ 0] exI [of _ 70000])
    (simp_all add: KNOWN_TYPES_def MAX_TRACK_SLOT_def MAX_PAYLOAD_BYTES_def)

text \<open>
  C5: a well-formed frame (known type, slot at most 8, byte flags, 32-bit sequence number, 64-bit
  timestamp, payload of at most 4096 bytes) is encoded, into 21 header bytes and the payload, and
  decoding the bytes gives the frame back.
\<close>

theorem frame_roundtrip:
  assumes "frame_wf f"
  shows "\<exists>b. encodeFrame f = Inr b \<and> length b = HEADER_BYTES + length (payload f) \<and> decodeFrame b = Inr f"
proof -
  from encode_wf [OF assms] obtain b where b: "encodeFrame f = Inr b" "decodeFrame b = Inr f" by blast
  moreover have "length b = HEADER_BYTES + length (payload f)"
    using b(1) by (simp add: encodeFrame_Inr frame_bytes_def HEADER_BYTES_def)
  ultimately show ?thesis by blast
qed

theorem frame_roundtrip_witness:
  "\<exists>b. encodeFrame sample_frame = Inr b \<and> length b = HEADER_BYTES + length (payload sample_frame)
       \<and> decodeFrame b = Inr sample_frame"
  by (rule frame_roundtrip [OF sample_frame_wf])

text \<open>
  C19: the wire form is canonical. Whatever bytes the decoder accepts are exactly the bytes the
  encoder makes of the decoded frame, so no two byte strings decode to the same frame.
\<close>

theorem frame_canonical: "decodeFrame b = Inr f \<Longrightarrow> encodeFrame f = Inr b"
  by (rule decode_canonical)

theorem frame_canonical_witness:
  "\<exists>b. decodeFrame b = Inr sample_frame \<and> encodeFrame sample_frame = Inr b"
  using encode_wf [OF sample_frame_wf] frame_canonical by blast

text \<open>
  C18: the decoder accepts a byte string exactly when the header is complete and starts with the
  magic, the declared payload length is at most 4096 and is what follows the header, the slot is
  at most 8 and the type is known; it then returns the big-endian fields.
\<close>

theorem decodeFrame_exact: "decodeFrame b = Inr f \<longleftrightarrow> frame_accepted b \<and> f = frame_read b"
  by (rule decodeFrame_Inr)

text \<open>
  C20: the encoder's errors, in the order of its checks: an oversized payload is TOO\_LARGE, then a
  slot out of range is BAD\_TRACK, then flags, sequence number or timestamp out of range are
  BAD\_PAYLOAD, and every other frame is encoded.
\<close>

theorem encodeFrame_errors:
  "(case encodeFrame f of
      Inl e \<Rightarrow> code e =
        (if length (payload f) > MAX_PAYLOAD_BYTES then TOO_LARGE
         else if num_lt (track f) (nnum 0) \<or> num_lt (nnum MAX_TRACK_SLOT) (track f) then BAD_TRACK
         else BAD_PAYLOAD) \<and> \<not> frame_in_range f
    | Inr b \<Rightarrow> frame_in_range f)"
proof (cases "encodeFrame f")
  case (Inl e)
  then have "\<not> frame_in_range f" using encodeFrame_Inr [of f] by (cases "frame_in_range f") auto
  moreover have "code e =
        (if length (payload f) > MAX_PAYLOAD_BYTES then TOO_LARGE
         else if num_lt (track f) (nnum 0) \<or> num_lt (nnum MAX_TRACK_SLOT) (track f) then BAD_TRACK
         else BAD_PAYLOAD)"
    using Inl by (auto simp: encodeFrame_def Let_def throw_def split: if_splits)
  ultimately show ?thesis using Inl by simp
next
  case (Inr b)
  then have "frame_in_range f" using encodeFrame_Inr by blast
  with Inr show ?thesis by simp
qed

text \<open>
  What the encoder produces the decoder takes, for every frame of a known type, also when the
  caller's numbers are fractions or NaN; the payload arrives unchanged.
\<close>

lemma encoded_is_decodable:
  assumes "encodeFrame f = Inr b" "to_uint 8 (ftype f) \<in> set KNOWN_TYPES"
  shows "\<exists>g. decodeFrame b = Inr g \<and> payload g = payload f"
  using encode_accepted [OF assms] by (auto simp: decodeFrame_Inr)

lemma encoded_is_decodable_example:
  "\<exists>b g. encodeFrame (sample_frame\<lparr>seq := Fin (5 / 2)\<rparr>) = Inr b \<and> decodeFrame b = Inr g \<and> payload g = [1, 2, 255]"
proof -
  let ?f = "sample_frame\<lparr>seq := Fin (5 / 2)\<rparr>"
  have "frame_in_range ?f"
    by (simp add: frame_in_range_def sample_frame_def MAX_PAYLOAD_BYTES_def MAX_TRACK_SLOT_def)
  then obtain b where b: "encodeFrame ?f = Inr b" by (simp add: encodeFrame_Inr)
  moreover have "to_uint 8 (ftype ?f) \<in> set KNOWN_TYPES" by (simp add: sample_frame_def KNOWN_TYPES_def)
  ultimately show ?thesis using encoded_is_decodable [OF b] by (auto simp: sample_frame_def)
qed

text \<open>
  The type is the one field the encoder does not check: a frame of type 0x77 is encoded, and the
  decoder rejects it.
\<close>

lemma encodeFrame_unknown_type:
  "\<exists>b e. encodeFrame (sample_frame\<lparr>ftype := nnum 0x77\<rparr>) = Inr b \<and> decodeFrame b = Inl e"
proof -
  let ?f = "sample_frame\<lparr>ftype := nnum 0x77\<rparr>"
  have "frame_in_range ?f"
    by (simp add: frame_in_range_def sample_frame_def MAX_PAYLOAD_BYTES_def MAX_TRACK_SLOT_def)
  then obtain b where b: "encodeFrame ?f = Inr b" by (simp add: encodeFrame_Inr)
  then have "b ! 4 = word_of_nat 0x77"
    by (auto simp: encodeFrame_Inr sample_frame_def frame_bytes_fields(3))
  then have "\<not> frame_accepted b" by (auto simp: KNOWN_TYPES_def dest: frame_accepted_facts(6))
  then show ?thesis using b decodeFrame_rejects [of b] by (cases "decodeFrame b") auto
qed

end
