(* ===== verification/JsRegex.thy ===== *)
theory JsRegex
  imports Prelude
begin

text \<open>
  The regular expressions of the sources, as anchored patterns over code units.

  A character class is a list of ranges. \<open>rx_test\<close> is the executable matcher for a pattern
  \<^verbatim>\<open>/^...$/\<close> (by derivatives); \<open>rx_lang\<close> is its language, and \<open>rx_test_iff\<close> says they
  agree. The components prove what their patterns accept from the language.
\<close>

datatype rexp =
    RNone
  | REps
  | RClass "(codeunit \<times> codeunit) list"
  | RNotClass "(codeunit \<times> codeunit) list"
  | RAlt rexp rexp
  | RSeq rexp rexp
  | RStar rexp

definition in_class :: "(codeunit \<times> codeunit) list \<Rightarrow> codeunit \<Rightarrow> bool" where
  "in_class rs u \<longleftrightarrow> list_ex (\<lambda>(lo, hi). lo \<le> u \<and> u \<le> hi) rs"

abbreviation RPlus :: "rexp \<Rightarrow> rexp" where
  "RPlus r \<equiv> RSeq r (RStar r)"

fun RRepeat :: "nat \<Rightarrow> rexp \<Rightarrow> rexp" where
  "RRepeat 0 r = REps"
| "RRepeat (Suc n) r = RAlt REps (RSeq r (RRepeat n r))"

fun RWord :: "jsstring \<Rightarrow> rexp" where
  "RWord [] = REps"
| "RWord (u # s) = RSeq (RClass [(u, u)]) (RWord s)"

inductive_set rx_star :: "jsstring set \<Rightarrow> jsstring set" for L where
  star_Nil: "[] \<in> rx_star L"
| star_append: "x \<in> L \<Longrightarrow> y \<in> rx_star L \<Longrightarrow> x @ y \<in> rx_star L"

fun rx_lang :: "rexp \<Rightarrow> jsstring set" where
  "rx_lang RNone = {}"
| "rx_lang REps = {[]}"
| "rx_lang (RClass rs) = {[u] | u. in_class rs u}"
| "rx_lang (RNotClass rs) = {[u] | u. \<not> in_class rs u}"
| "rx_lang (RAlt r s) = rx_lang r \<union> rx_lang s"
| "rx_lang (RSeq r s) = {x @ y | x y. x \<in> rx_lang r \<and> y \<in> rx_lang s}"
| "rx_lang (RStar r) = rx_star (rx_lang r)"

fun nullable :: "rexp \<Rightarrow> bool" where
  "nullable RNone = False"
| "nullable REps = True"
| "nullable (RClass rs) = False"
| "nullable (RNotClass rs) = False"
| "nullable (RAlt r s) = (nullable r \<or> nullable s)"
| "nullable (RSeq r s) = (nullable r \<and> nullable s)"
| "nullable (RStar r) = True"

fun rx_deriv :: "codeunit \<Rightarrow> rexp \<Rightarrow> rexp" where
  "rx_deriv u RNone = RNone"
| "rx_deriv u REps = RNone"
| "rx_deriv u (RClass rs) = (if in_class rs u then REps else RNone)"
| "rx_deriv u (RNotClass rs) = (if in_class rs u then RNone else REps)"
| "rx_deriv u (RAlt r s) = RAlt (rx_deriv u r) (rx_deriv u s)"
| "rx_deriv u (RSeq r s) =
     (if nullable r then RAlt (RSeq (rx_deriv u r) s) (rx_deriv u s) else RSeq (rx_deriv u r) s)"
| "rx_deriv u (RStar r) = RSeq (rx_deriv u r) (RStar r)"

fun rx_test :: "rexp \<Rightarrow> jsstring \<Rightarrow> bool" where
  "rx_test r [] = nullable r"
| "rx_test r (u # s) = rx_test (rx_deriv u r) s"

lemma nullable_iff: "nullable r \<longleftrightarrow> [] \<in> rx_lang r"
  by (induction r) (auto intro: rx_star.star_Nil)

lemma rx_star_Cons:
  "u # s \<in> rx_star L \<longleftrightarrow> (\<exists>x y. s = x @ y \<and> u # x \<in> L \<and> y \<in> rx_star L)"
proof
  show "u # s \<in> rx_star L \<Longrightarrow> \<exists>x y. s = x @ y \<and> u # x \<in> L \<and> y \<in> rx_star L"
  proof (induction "u # s" arbitrary: s rule: rx_star.induct)
    case (star_append x y)
    then show ?case by (cases x) auto
  qed
next
  assume "\<exists>x y. s = x @ y \<and> u # x \<in> L \<and> y \<in> rx_star L"
  then show "u # s \<in> rx_star L" using rx_star.star_append by force
qed

lemma rx_seq_Cons:
  "u # s \<in> rx_lang (RSeq r q) \<longleftrightarrow>
     (\<exists>x y. s = x @ y \<and> u # x \<in> rx_lang r \<and> y \<in> rx_lang q) \<or> [] \<in> rx_lang r \<and> u # s \<in> rx_lang q"
  by (auto simp: Cons_eq_append_conv)

lemma rx_deriv_lang: "s \<in> rx_lang (rx_deriv u r) \<longleftrightarrow> u # s \<in> rx_lang r"
proof (induction r arbitrary: s)
  case (RSeq r q)
  then show ?case by (simp add: rx_seq_Cons nullable_iff del: rx_lang.simps(6)) (auto)
next
  case (RStar r)
  then show ?case by (auto simp: rx_star_Cons)
qed auto

theorem rx_test_iff: "rx_test r s \<longleftrightarrow> s \<in> rx_lang r"
  by (induction s arbitrary: r) (simp_all add: nullable_iff rx_deriv_lang)

subsection \<open>Languages of the common shapes\<close>

lemma rx_seq_class:
  "s \<in> rx_lang (RSeq (RClass rs) q) \<longleftrightarrow> (\<exists>u t. s = u # t \<and> in_class rs u \<and> t \<in> rx_lang q)"
proof
  assume "\<exists>u t. s = u # t \<and> in_class rs u \<and> t \<in> rx_lang q"
  then obtain u t where "s = [u] @ t" "in_class rs u" "t \<in> rx_lang q" by auto
  then show "s \<in> rx_lang (RSeq (RClass rs) q)" by (simp only: rx_lang.simps) blast
qed auto

declare rx_lang.simps(6) [simp del]

lemma rx_lang_star_class: "s \<in> rx_lang (RStar (RClass rs)) \<longleftrightarrow> list_all (in_class rs) s"
  by (induction s) (auto simp: rx_star_Cons intro: rx_star.star_Nil)

lemma rx_lang_plus_class: "s \<in> rx_lang (RPlus (RClass rs)) \<longleftrightarrow> s \<noteq> [] \<and> list_all (in_class rs) s"
  unfolding rx_seq_class rx_lang_star_class by (cases s) auto

lemma rx_lang_star_notclass: "s \<in> rx_lang (RStar (RNotClass rs)) \<longleftrightarrow> list_all (\<lambda>u. \<not> in_class rs u) s"
  by (induction s) (auto simp: rx_star_Cons intro: rx_star.star_Nil)

lemma rx_seq_notclass:
  "s \<in> rx_lang (RSeq (RNotClass rs) q) \<longleftrightarrow> (\<exists>u t. s = u # t \<and> \<not> in_class rs u \<and> t \<in> rx_lang q)"
  unfolding rx_lang.simps(6) by (auto intro: exI [of _ "[_]"])

lemma rx_lang_plus_notclass:
  "s \<in> rx_lang (RPlus (RNotClass rs)) \<longleftrightarrow> s \<noteq> [] \<and> list_all (\<lambda>u. \<not> in_class rs u) s"
  unfolding rx_seq_notclass rx_lang_star_notclass by (cases s) auto

lemma rx_lang_repeat_class:
  "s \<in> rx_lang (RRepeat n (RClass rs)) \<longleftrightarrow> length s \<le> n \<and> list_all (in_class rs) s"
proof (induction n arbitrary: s)
  case (Suc n)
  then show ?case by (cases s) (auto simp: rx_seq_class)
qed auto

lemma in_class_single: "in_class [(v, v)] u \<longleftrightarrow> u = v"
  unfolding in_class_def list_ex_iff by (auto intro: antisym)

lemma rx_lang_word: "s \<in> rx_lang (RWord w) \<longleftrightarrow> s = w"
proof (induction w arbitrary: s)
  case (Cons u w)
  then show ?case unfolding RWord.simps rx_seq_class in_class_single by auto
qed simp

lemma rx_seq_word: "s \<in> rx_lang (RSeq (RWord w) q) \<longleftrightarrow> (\<exists>r. s = w @ r \<and> r \<in> rx_lang q)"
  unfolding rx_lang.simps(6) by (auto simp: rx_lang_word)

end
