(* ===== verification/Categories.thy ===== *)
theory Categories
  imports JsRegex
begin

text \<open>
  \<^verbatim>\<open>shared/ts/src/categories.ts\<close>: the preset channel categories, the sluggifier for custom
  labels and the slug rule that \<^verbatim>\<open>TRACK_LIST\<close> enforces.

  \<open>String.prototype.toLowerCase\<close> and \<open>normalize("NFKD")\<close> are Unicode tables; they are the
  arguments \<open>lower\<close> and \<open>nfkd\<close> of \<open>sluggify\<close>. What the results say of its output holds for
  every such pair; only idempotence needs that both leave a slug alone.
\<close>

definition CUSTOM_CATEGORY :: jsstring where
  "CUSTOM_CATEGORY = js ''custom''"

definition PRESET_CATEGORIES :: "jsstring list" where
  "PRESET_CATEGORIES =
     [js ''mic'', js ''game'', js ''music'', js ''voicechat'', js ''notifications'',
      js ''browser'', js ''alerts'', js ''tts'']"

definition isPresetCategory :: "jsstring \<Rightarrow> bool" where
  "isPresetCategory value = List.member PRESET_CATEGORIES value"

subsection \<open>Slugs\<close>

definition alnum_class :: "(codeunit \<times> codeunit) list" where
  "alnum_class = [(97, 122), (48, 57)]"

abbreviation alnum :: "codeunit \<Rightarrow> bool" where
  "alnum u \<equiv> in_class alnum_class u"

text \<open>\<^verbatim>\<open>/^[a-z0-9]+(?:-[a-z0-9]+)*$/\<close>\<close>

definition SLUG_RE :: rexp where
  "SLUG_RE =
     RSeq (RPlus (RClass alnum_class))
          (RStar (RSeq (RClass [(45, 45)]) (RPlus (RClass alnum_class))))"

definition isValidSlug :: "jsstring \<Rightarrow> bool" where
  "isValidSlug slug \<longleftrightarrow> 1 \<le> length slug \<and> length slug \<le> 64 \<and> rx_test SLUG_RE slug"

text \<open>\<^verbatim>\<open>.replace(/[U+0300-U+036F]/g, "")\<close>\<close>

definition strip_marks :: "jsstring \<Rightarrow> jsstring" where
  "strip_marks s = filter (\<lambda>u. \<not> (0x300 \<le> u \<and> u \<le> 0x36F)) s"

text \<open>\<^verbatim>\<open>.replace(/[^a-z0-9]+/g, "-")\<close>: each maximal run becomes one dash.\<close>

fun dash_runs :: "bool \<Rightarrow> jsstring \<Rightarrow> jsstring" where
  "dash_runs in_run [] = []"
| "dash_runs in_run (u # s) =
     (if alnum u then u # dash_runs False s
      else if in_run then dash_runs True s else 45 # dash_runs True s)"

text \<open>\<^verbatim>\<open>.replace(/^-+|-+$/g, "")\<close>\<close>

definition trim_dashes :: "jsstring \<Rightarrow> jsstring" where
  "trim_dashes s = rev (dropWhile (\<lambda>u. u = 45) (rev (dropWhile (\<lambda>u. u = 45) s)))"

definition sluggify :: "(jsstring \<Rightarrow> jsstring) \<Rightarrow> (jsstring \<Rightarrow> jsstring) \<Rightarrow> jsstring \<Rightarrow> jsstring" where
  "sluggify lower nfkd label =
     trim_dashes (dash_runs False (strip_marks (nfkd (lower label))))"

subsection \<open>What the pattern accepts\<close>

text \<open>A run of the slug automaton; \<open>need\<close>: the next unit must be a letter or digit.\<close>

fun slug_from :: "bool \<Rightarrow> jsstring \<Rightarrow> bool" where
  "slug_from need [] = (\<not> need)"
| "slug_from need (u # s) =
     (if alnum u then slug_from False s else u = 45 \<and> \<not> need \<and> slug_from True s)"

abbreviation dash_blocks :: rexp where
  "dash_blocks \<equiv> RStar (RSeq (RClass [(45, 45)]) (RPlus (RClass alnum_class)))"

lemma not_alnum_dash [simp]: "\<not> alnum 45"
  by (simp add: in_class_def alnum_class_def)

text \<open>What may follow a letter or digit: more of them, then blocks that start with a dash.\<close>

definition slug_tail :: "jsstring \<Rightarrow> bool" where
  "slug_tail s \<longleftrightarrow> (\<exists>x y. s = x @ y \<and> list_all alnum x \<and> y \<in> rx_lang dash_blocks)"

lemma SLUG_RE_iff:
  "s \<in> rx_lang SLUG_RE \<longleftrightarrow>
     (\<exists>x y. s = x @ y \<and> x \<noteq> [] \<and> list_all alnum x \<and> y \<in> rx_lang dash_blocks)"
  unfolding SLUG_RE_def rx_lang.simps(6) [of "RPlus (RClass alnum_class)"]
  by (auto simp: rx_lang_plus_class)

lemma SLUG_RE_Nil: "[] \<notin> rx_lang SLUG_RE"
  by (simp add: SLUG_RE_iff)

lemma SLUG_RE_Cons: "u # s \<in> rx_lang SLUG_RE \<longleftrightarrow> alnum u \<and> slug_tail s"
proof
  assume "u # s \<in> rx_lang SLUG_RE"
  then obtain x y where "u # s = x @ y" "x \<noteq> []" "list_all alnum x" "y \<in> rx_lang dash_blocks"
    unfolding SLUG_RE_iff by blast
  then show "alnum u \<and> slug_tail s" by (cases x) (auto simp: slug_tail_def)
next
  assume "alnum u \<and> slug_tail s"
  then obtain x y where "s = x @ y" "list_all alnum (u # x)" "y \<in> rx_lang dash_blocks"
    by (auto simp: slug_tail_def)
  then show "u # s \<in> rx_lang SLUG_RE" unfolding SLUG_RE_iff by (metis append_Cons list.discI)
qed

lemma dash_block_iff:
  "x \<in> rx_lang (RSeq (RClass [(45, 45)]) (RPlus (RClass alnum_class))) \<longleftrightarrow>
     (\<exists>t. x = 45 # t \<and> t \<noteq> [] \<and> list_all alnum t)"
  unfolding rx_seq_class [of x] in_class_single rx_lang_plus_class by auto

lemma dash_blocks_Cons: "u # s \<in> rx_lang dash_blocks \<longleftrightarrow> u = 45 \<and> s \<in> rx_lang SLUG_RE"
  unfolding rx_lang.simps(7) rx_star_Cons dash_block_iff SLUG_RE_iff by auto

lemma slug_tail_Nil: "slug_tail []"
  by (auto simp: slug_tail_def intro: rx_star.star_Nil)

lemma slug_tail_Cons: "slug_tail (u # s) \<longleftrightarrow> alnum u \<and> slug_tail s \<or> u = 45 \<and> s \<in> rx_lang SLUG_RE"
proof
  assume "slug_tail (u # s)"
  then obtain x y where "u # s = x @ y" "list_all alnum x" "y \<in> rx_lang dash_blocks"
    by (auto simp: slug_tail_def)
  then show "alnum u \<and> slug_tail s \<or> u = 45 \<and> s \<in> rx_lang SLUG_RE"
    by (cases x) (auto simp: slug_tail_def dash_blocks_Cons [symmetric])
next
  assume "alnum u \<and> slug_tail s \<or> u = 45 \<and> s \<in> rx_lang SLUG_RE"
  then consider x y where "alnum u" "s = x @ y" "list_all alnum x" "y \<in> rx_lang dash_blocks"
    | "u # s \<in> rx_lang dash_blocks" unfolding dash_blocks_Cons by (auto simp: slug_tail_def)
  then show "slug_tail (u # s)"
  proof cases
    case 1
    then have "u # s = (u # x) @ y" "list_all alnum (u # x)" by auto
    with 1(4) show ?thesis unfolding slug_tail_def by blast
  next
    case 2
    then have "u # s = [] @ (u # s)" "list_all alnum []" by auto
    with 2 show ?thesis unfolding slug_tail_def by blast
  qed
qed

lemma slug_from_iff: "slug_from need s \<longleftrightarrow> (if need then s \<in> rx_lang SLUG_RE else slug_tail s)"
  by (induction s arbitrary: need)
    (auto simp: SLUG_RE_Nil slug_tail_Nil SLUG_RE_Cons slug_tail_Cons split: if_splits)

lemma SLUG_RE_test: "rx_test SLUG_RE s = slug_from True s"
  by (simp add: rx_test_iff slug_from_iff)

text \<open>
  The rule in the comment above \<^verbatim>\<open>SLUG_RE\<close>: only \<^verbatim>\<open>[a-z0-9-]\<close>, no leading or trailing dash,
  no double dash.
\<close>

fun double_dash :: "jsstring \<Rightarrow> bool" where
  "double_dash (u # v # s) = (u = 45 \<and> v = 45 \<or> double_dash (v # s))"
| "double_dash _ = False"

definition slug_char :: "codeunit \<Rightarrow> bool" where
  "slug_char u \<longleftrightarrow> alnum u \<or> u = 45"

definition slug_rule :: "jsstring \<Rightarrow> bool" where
  "slug_rule s \<longleftrightarrow>
     list_all slug_char s \<and> hd s \<noteq> 45 \<and> last s \<noteq> 45 \<and> \<not> double_dash s"

lemma slug_from_rule:
  "slug_from need s \<longleftrightarrow>
     list_all slug_char s \<and> \<not> double_dash s
     \<and> (if s = [] then \<not> need else (need \<longrightarrow> hd s \<noteq> 45) \<and> last s \<noteq> 45)"
proof (induction need s rule: slug_from.induct)
  case (2 need u s)
  then show ?case by (cases s) (auto simp: slug_char_def)
qed simp

lemma isValidSlug_rule: "isValidSlug s \<longleftrightarrow> 1 \<le> length s \<and> length s \<le> 64 \<and> slug_rule s"
  by (auto simp: isValidSlug_def SLUG_RE_test slug_from_rule slug_rule_def)

subsection \<open>What the sluggifier returns\<close>

lemma dash_runs_chars: "list_all slug_char (dash_runs b s)"
  by (induction b s rule: dash_runs.induct) (auto simp: slug_char_def)

lemma dash_runs_True_hd: "dash_runs True s = [] \<or> hd (dash_runs True s) \<noteq> 45"
  by (induction s) auto

lemma double_dash_Cons: "double_dash (u # s) \<longleftrightarrow> s \<noteq> [] \<and> u = 45 \<and> hd s = 45 \<or> double_dash s"
  by (cases s) auto

lemma dash_runs_no_double: "\<not> double_dash (dash_runs b s)"
proof (induction b s rule: dash_runs.induct)
  case (2 b u s)
  then show ?case using dash_runs_True_hd [of s] by (auto simp: double_dash_Cons)
qed simp

lemma double_dash_append: "double_dash (a @ b) \<longleftrightarrow> double_dash a \<or> double_dash b \<or> (a \<noteq> [] \<and> b \<noteq> [] \<and> last a = 45 \<and> hd b = 45)"
  by (induction a) (auto simp: double_dash_Cons hd_append)

lemma trim_dashes_split: "\<exists>a b. s = a @ trim_dashes s @ b"
proof -
  let ?P = "\<lambda>u :: codeunit. u = 45"
  have 1: "s = takeWhile ?P s @ dropWhile ?P s" by simp
  have "rev (dropWhile ?P s) = takeWhile ?P (rev (dropWhile ?P s)) @ dropWhile ?P (rev (dropWhile ?P s))" by simp
  then have "dropWhile ?P s = trim_dashes s @ rev (takeWhile ?P (rev (dropWhile ?P s)))"
    unfolding trim_dashes_def by (metis rev_append rev_rev_ident)
  with 1 show ?thesis by metis
qed

lemma trim_dashes_ends:
  assumes "trim_dashes s \<noteq> []"
  shows "hd (trim_dashes s) \<noteq> 45" "last (trim_dashes s) \<noteq> 45"
proof -
  let ?P = "\<lambda>u :: codeunit. u = 45"
  let ?d = "dropWhile ?P s"
  have ne: "dropWhile ?P (rev ?d) \<noteq> []" using assms by (simp add: trim_dashes_def)
  then show "last (trim_dashes s) \<noteq> 45"
    using hd_dropWhile [OF ne] by (simp add: trim_dashes_def last_rev)
  obtain b where b: "?d = trim_dashes s @ b" using trim_dashes_split
    by (metis (no_types, lifting) append_Nil2 rev_append rev_rev_ident takeWhile_dropWhile_id trim_dashes_def)
  then have "?d \<noteq> []" "hd ?d = hd (trim_dashes s)" using assms by auto
  with hd_dropWhile [of ?P s] show "hd (trim_dashes s) \<noteq> 45" by simp
qed

lemma sluggify_rule: "sluggify lower nfkd label \<noteq> [] \<Longrightarrow> slug_rule (sluggify lower nfkd label)"
proof -
  let ?d = "dash_runs False (strip_marks (nfkd (lower label)))"
  assume ne: "sluggify lower nfkd label \<noteq> []"
  obtain a b where ab: "?d = a @ sluggify lower nfkd label @ b"
    using trim_dashes_split [of ?d] by (auto simp: sluggify_def)
  have "list_all slug_char (a @ sluggify lower nfkd label @ b)" "\<not> double_dash (a @ sluggify lower nfkd label @ b)"
    using dash_runs_chars dash_runs_no_double ab by metis+
  then show ?thesis using ne trim_dashes_ends [of ?d]
    by (auto simp: slug_rule_def double_dash_append sluggify_def)
qed

lemma sluggify_chars: "list_all slug_char (sluggify lower nfkd label)"
  using sluggify_rule [of lower nfkd label] by (cases "sluggify lower nfkd label = []") (auto simp: slug_rule_def)

text \<open>A slug passes every stage unchanged.\<close>

lemma alnum_small: "alnum u \<Longrightarrow> \<not> 0x300 \<le> u"
  by (auto simp: in_class_def alnum_class_def word_le_nat_alt)

lemma strip_marks_slug: "list_all slug_char s \<Longrightarrow> strip_marks s = s"
  by (induction s) (auto simp: strip_marks_def slug_char_def alnum_small)

lemma dash_runs_slug:
  "list_all slug_char s \<Longrightarrow> \<not> double_dash s \<Longrightarrow> b \<longrightarrow> s = [] \<or> hd s \<noteq> 45 \<Longrightarrow> dash_runs b s = s"
  by (induction s arbitrary: b) (auto simp: slug_char_def double_dash_Cons)

lemma trim_dashes_slug:
  assumes "s = [] \<or> hd s \<noteq> 45 \<and> last s \<noteq> 45"
  shows "trim_dashes s = s"
proof (cases "s = []")
  case False
  then obtain u t where ut: "s = u # t" by (cases s) auto
  obtain v w where vw: "rev s = v # w" "v = last s" using False
    by (metis hd_rev list.collapse rev_is_Nil_conv)
  have "dropWhile (\<lambda>u. u = 45) s = s" using assms ut by simp
  moreover have "dropWhile (\<lambda>u. u = 45) (rev s) = rev s"
    unfolding vw(1) using assms False vw(2) by simp
  ultimately show ?thesis by (simp add: trim_dashes_def)
qed (simp add: trim_dashes_def)

lemma slug_stages:
  assumes "s = [] \<or> slug_rule s"
  shows "trim_dashes (dash_runs False (strip_marks s)) = s"
proof -
  have "strip_marks s = s" using assms by (auto simp: slug_rule_def intro: strip_marks_slug)
  moreover have "dash_runs False s = s" using assms by (auto simp: slug_rule_def intro: dash_runs_slug)
  moreover have "trim_dashes s = s" using assms by (intro trim_dashes_slug) (auto simp: slug_rule_def)
  ultimately show ?thesis by simp
qed

subsection \<open>Properties\<close>

text \<open>
  The pattern test is the documented rule: 1 to 64 characters of [a-z0-9-], no leading or
  trailing dash and no double dash.
\<close>

lemma valid_slug_rule:
  "isValidSlug s \<longleftrightarrow>
     1 \<le> length s \<and> length s \<le> 64 \<and> list_all (\<lambda>u. alnum u \<or> u = 45) s
     \<and> hd s \<noteq> 45 \<and> last s \<noteq> 45 \<and> \<not> double_dash s"
  by (auto simp: isValidSlug_rule slug_rule_def slug_char_def [abs_def])

text \<open>
  Whatever lower-casing and normalisation do, \<^verbatim>\<open>sluggify\<close> returns the empty string or a string
  that satisfies every slug rule but the length limit; it is idempotent when both leave such
  strings alone.
\<close>

lemma sluggify_slug:
  assumes "\<And>s. list_all slug_char s \<Longrightarrow> lower s = s \<and> nfkd s = s"
  shows "(sluggify lower nfkd label = [] \<or> slug_rule (sluggify lower nfkd label))
    \<and> sluggify lower nfkd (sluggify lower nfkd label) = sluggify lower nfkd label"
proof -
  let ?s = "sluggify lower nfkd label"
  have r: "?s = [] \<or> slug_rule ?s" using sluggify_rule by blast
  moreover have "nfkd (lower ?s) = ?s" using assms sluggify_chars by metis
  ultimately show ?thesis using slug_stages [OF r] by (simp add: sluggify_def)
qed

definition ascii_lower :: "jsstring \<Rightarrow> jsstring" where
  "ascii_lower s = map (\<lambda>u. if 65 \<le> u \<and> u \<le> 90 then u + 32 else u) s"

lemma ascii_lower_slug: "list_all slug_char s \<Longrightarrow> ascii_lower s = s"
  by (induction s) (auto simp: ascii_lower_def slug_char_def in_class_def alnum_class_def word_le_nat_alt)

lemma sluggify_slug_example:
  "sluggify ascii_lower id (js ''  Night Radio #2! '') = js ''night-radio-2''
   \<and> sluggify ascii_lower id (js ''night-radio-2'') = js ''night-radio-2''"
proof -
  have "sluggify ascii_lower id (js ''  Night Radio #2! '') = js ''night-radio-2''"
    by (simp add: sluggify_def ascii_lower_def strip_marks_def in_class_def alnum_class_def trim_dashes_def
        word_le_nat_alt)
  with sluggify_slug [of ascii_lower id "js ''  Night Radio #2! ''"] ascii_lower_slug show ?thesis by simp
qed

text \<open>A label without letters or digits has no slug, and a long label has too long a one.\<close>

lemma sluggify_not_valid: "sluggify ascii_lower id (js ''!!!'') = [] \<and> \<not> isValidSlug []"
  by (simp add: sluggify_def ascii_lower_def strip_marks_def in_class_def alnum_class_def trim_dashes_def
      word_le_nat_alt isValidSlug_def)

end
