(* ===== verification/Messages.thy ===== *)
theory Messages
  imports Header Categories
begin

text \<open>
  \<^verbatim>\<open>shared/ts/src/messages.ts\<close>: the payload codecs. Each message has an encoder that builds a
  JSON object (or, for FINGERPRINT, ten bytes) and a decoder that validates every field.

  The well-formedness predicate of each payload says what its decoder guarantees. The locale
  \<open>payload_codec\<close> is the contract of a codec: a well-formed payload survives encoding and
  decoding, and only well-formed payloads come out of the decoder. Every codec of the file
  interprets it.
\<close>

subsection \<open>Helpers (lines 216 to 259)\<close>

definition MAX_JSON_BYTES :: nat where
  "MAX_JSON_BYTES = 4096"

definition bad :: "jsstring \<Rightarrow> ProtocolError" where
  "bad detail = ProtocolError (js ''malformed payload: '' @ detail) BAD_PAYLOAD"

definition encodeJson :: "json \<Rightarrow> bytes result" where
  "encodeJson value =
     (let out = TextEncoder_encode (stringify value)
      in if length out > MAX_JSON_BYTES then
           throw (ProtocolError (js ''json payload too large: '' @ nat_str (length out)) TOO_LARGE)
         else Inr out)"

definition decodeJson :: "bytes \<Rightarrow> json result" where
  "decodeJson buf =
     (if length buf > MAX_JSON_BYTES then
        throw (ProtocolError (js ''json payload too large: '' @ nat_str (length buf)) TOO_LARGE)
      else
        (case Option.bind (TextDecoder_decode buf) JSON_parse of
           None \<Rightarrow> throw (ProtocolError (js ''invalid json or utf-8'') BAD_PAYLOAD)
         | Some parsed \<Rightarrow>
             (case parsed of
                JObj _ \<Rightarrow> Inr parsed
              | _ \<Rightarrow> throw (ProtocolError (js ''payload must be a json object'') BAD_PAYLOAD))))"

definition strField :: "json \<Rightarrow> jsstring \<Rightarrow> nat \<Rightarrow> jsstring result" where
  "strField obj key maxLen =
     (case getprop obj key of
        Some (JStr v) \<Rightarrow>
          (if length v > maxLen then throw (bad (js ''field '' @ key @ js '' too long'')) else Inr v)
      | _ \<Rightarrow> throw (bad (js ''field '' @ key @ js '' must be string'')))"

definition numField :: "json \<Rightarrow> jsstring \<Rightarrow> jsnum result" where
  "numField obj key =
     (case getprop obj key of
        Some (JNum v) \<Rightarrow>
          (if \<not> isFinite v \<or> num_lt v (nnum 0)
           then throw (bad (js ''field '' @ key @ js '' must be non-negative finite number''))
           else Inr v)
      | _ \<Rightarrow> throw (bad (js ''field '' @ key @ js '' must be non-negative finite number'')))"

text \<open>\<^verbatim>\<open>v && typeof v === "object"\<close>: an object or an array, not null.\<close>

definition is_object :: "json option \<Rightarrow> bool" where
  "is_object v = (case v of Some (JObj _) \<Rightarrow> True | Some (JArr _) \<Rightarrow> True | _ \<Rightarrow> False)"

text \<open>A property of a value that may be \<^verbatim>\<open>undefined\<close>.\<close>

definition getprop_opt :: "json option \<Rightarrow> jsstring \<Rightarrow> json option" where
  "getprop_opt v k = Option.bind v (\<lambda>w. getprop w k)"

subsection \<open>HELLO\<close>

record AudioParams =
  codec :: jsstring
  sampleRate :: jsnum
  channels :: jsnum
  frameMs :: jsnum

record HelloPayload =
  version :: jsnum
  client :: jsstring
  audio :: AudioParams

definition encodeHello :: "HelloPayload \<Rightarrow> bytes result" where
  "encodeHello p =
     encodeJson (JObj
       [(js ''version'', JNum (version p)),
        (js ''client'', JStr (client p)),
        (js ''audio'', JObj
           [(js ''codec'', JStr (codec (audio p))),
            (js ''sample_rate'', JNum (sampleRate (audio p))),
            (js ''channels'', JNum (channels (audio p))),
            (js ''frame_ms'', JNum (frameMs (audio p)))])])"

definition decodeHello :: "bytes \<Rightarrow> HelloPayload result" where
  "decodeHello buf =
     bindR (decodeJson buf) (\<lambda>obj.
       if getprop obj (js ''version'') \<noteq> Some (JNum (nnum 1)) then throw (bad (js ''hello.version''))
       else bindR (strField obj (js ''client'') 128) (\<lambda>client.
         let audio = getprop obj (js ''audio'') in
         if \<not> is_object audio then throw (bad (js ''hello.audio''))
         else if getprop_opt audio (js ''codec'') \<noteq> Some (JStr (js ''opus''))
         then throw (bad (js ''hello.audio.codec''))
         else if getprop_opt audio (js ''sample_rate'') \<noteq> Some (JNum (nnum 48000))
         then throw (bad (js ''hello.audio.sample_rate''))
         else if getprop_opt audio (js ''channels'') \<noteq> Some (JNum (nnum 1))
            \<and> getprop_opt audio (js ''channels'') \<noteq> Some (JNum (nnum 2))
         then throw (bad (js ''hello.audio.channels''))
         else if getprop_opt audio (js ''frame_ms'') \<noteq> Some (JNum (nnum 20))
         then throw (bad (js ''hello.audio.frame_ms''))
         else Inr \<lparr>version = nnum 1, client = client,
                   audio = \<lparr>codec = js ''opus'', sampleRate = nnum 48000,
                            channels = (case getprop_opt audio (js ''channels'') of
                                          Some (JNum c) \<Rightarrow> c | _ \<Rightarrow> NaN),
                            frameMs = nnum 20\<rparr>\<rparr>))"

subsection \<open>TRACK\_LIST\<close>

record TrackInfo =
  tid :: jsnum
  slug :: jsstring
  category :: jsstring
  label :: jsstring

definition track_json :: "TrackInfo \<Rightarrow> json" where
  "track_json t =
     JObj [(js ''id'', JNum (tid t)), (js ''slug'', JStr (slug t)),
           (js ''category'', JStr (category t)), (js ''label'', JStr (label t))]"

definition encodeTrackList :: "TrackInfo list \<Rightarrow> bytes result" where
  "encodeTrackList tracks = encodeJson (JObj [(js ''tracks'', JArr (map track_json tracks))])"

text \<open>\<^verbatim>\<open>!Number.isInteger(id) || id < 1 || id > MAX_TRACK_SLOT\<close>, negated.\<close>

definition track_id :: "json option \<Rightarrow> jsnum option" where
  "track_id v =
     (case v of
        Some (JNum x) \<Rightarrow>
          if \<not> isInteger x \<or> num_lt x (nnum 1) \<or> num_lt (nnum MAX_TRACK_SLOT) x then None else Some x
      | _ \<Rightarrow> None)"

fun decode_tracks :: "jsnum list \<Rightarrow> json list \<Rightarrow> TrackInfo list result" where
  "decode_tracks seen [] = Inr []"
| "decode_tracks seen (raw # rest) =
     (if \<not> is_object (Some raw) then throw (bad (js ''track entry''))
      else
        case track_id (getprop raw (js ''id'')) of
          None \<Rightarrow> throw (bad (js ''track.id''))
        | Some i \<Rightarrow>
            if List.member seen i then throw (bad (js ''track.id duplicate''))
            else
              bindR (strField raw (js ''slug'') 64) (\<lambda>slug.
                if \<not> isValidSlug slug then throw (bad (js ''track.slug format''))
                else
                  bindR (strField raw (js ''category'') 32) (\<lambda>category.
                    if category \<noteq> CUSTOM_CATEGORY \<and> \<not> isPresetCategory category
                    then throw (bad (js ''track.category''))
                    else
                      bindR (strField raw (js ''label'') 64) (\<lambda>label.
                        bindR (decode_tracks (i # seen) rest) (\<lambda>ts.
                          Inr (\<lparr>tid = i, slug = slug, category = category, label = label\<rparr> # ts))))))"

definition decodeTrackList :: "bytes \<Rightarrow> TrackInfo list result" where
  "decodeTrackList buf =
     bindR (decodeJson buf) (\<lambda>obj.
       case getprop obj (js ''tracks'') of
         Some (JArr raws) \<Rightarrow>
           (if length raws > MAX_TRACK_SLOT then throw (bad (js ''track_list too many tracks''))
            else decode_tracks [] raws)
       | _ \<Rightarrow> throw (bad (js ''track_list.tracks'')))"

subsection \<open>FINGERPRINT\<close>

record FingerprintPayload =
  hash :: int
  windowMs :: jsnum

definition encodeFingerprint :: "FingerprintPayload \<Rightarrow> bytes" where
  "encodeFingerprint p =
     (let buf = replicate 10 0;
          buf = buf_set buf 0 (be_bytes 8 (nat (hash p mod 2 ^ 64)));
          buf = buf_set buf 8 (be_bytes 2 (to_uint 16 (windowMs p)))
      in buf)"

definition decodeFingerprint :: "bytes \<Rightarrow> FingerprintPayload result" where
  "decodeFingerprint buf =
     (if length buf \<noteq> 10 then throw (bad (js ''fingerprint length''))
      else Inr \<lparr>hash = int (be_val (take 8 (drop 0 buf))),
                windowMs = nnum (be_val (take 2 (drop 8 buf)))\<rparr>)"

subsection \<open>TRACK\_META\<close>

record TrackMetaPayload =
  title :: "jsstring option"
  artist :: "jsstring option"
  albumArtUrl :: "jsstring option"

definition opt_member :: "jsstring \<Rightarrow> jsstring option \<Rightarrow> (jsstring \<times> json) list" where
  "opt_member k v = (case v of None \<Rightarrow> [] | Some s \<Rightarrow> [(k, JStr s)])"

definition encodeTrackMeta :: "TrackMetaPayload \<Rightarrow> bytes result" where
  "encodeTrackMeta p =
     encodeJson (JObj (opt_member (js ''title'') (title p) @ opt_member (js ''artist'') (artist p)
                       @ opt_member (js ''album_art_url'') (albumArtUrl p)))"

definition opt_strField :: "json \<Rightarrow> jsstring \<Rightarrow> nat \<Rightarrow> jsstring option result" where
  "opt_strField obj key maxLen =
     (if getprop obj key = None then Inr None else bindR (strField obj key maxLen) (\<lambda>s. Inr (Some s)))"

definition decodeTrackMeta :: "bytes \<Rightarrow> TrackMetaPayload result" where
  "decodeTrackMeta buf =
     bindR (decodeJson buf) (\<lambda>obj.
       bindR (opt_strField obj (js ''title'') 256) (\<lambda>t.
       bindR (opt_strField obj (js ''artist'') 256) (\<lambda>a.
       bindR (opt_strField obj (js ''album_art_url'') 1024) (\<lambda>u.
         if (case u of None \<Rightarrow> False | Some s \<Rightarrow> \<not> startsWith s (js ''https://''))
         then throw (bad (js ''album_art_url must be https''))
         else Inr \<lparr>title = t, artist = a, albumArtUrl = u\<rparr>))))"

subsection \<open>STATS\<close>

record StatsPayload =
  uptimeS :: jsnum
  packetsSent :: jsnum
  subscribers :: jsnum
  tracksActive :: jsnum

definition encodeStats :: "StatsPayload \<Rightarrow> bytes result" where
  "encodeStats p =
     encodeJson (JObj [(js ''uptime_s'', JNum (uptimeS p)), (js ''packets_sent'', JNum (packetsSent p)),
                       (js ''subscribers'', JNum (subscribers p)),
                       (js ''tracks_active'', JNum (tracksActive p))])"

definition decodeStats :: "bytes \<Rightarrow> StatsPayload result" where
  "decodeStats buf =
     bindR (decodeJson buf) (\<lambda>obj.
       bindR (numField obj (js ''uptime_s'')) (\<lambda>u.
       bindR (numField obj (js ''packets_sent'')) (\<lambda>p.
       bindR (numField obj (js ''subscribers'')) (\<lambda>s.
       bindR (numField obj (js ''tracks_active'')) (\<lambda>t.
         Inr \<lparr>uptimeS = u, packetsSent = p, subscribers = s, tracksActive = t\<rparr>)))))"

subsection \<open>SUB\_TRACKS\<close>

definition encodeSubTracks :: "jsnum list \<Rightarrow> bytes result" where
  "encodeSubTracks tracks = encodeJson (JObj [(js ''tracks'', JArr (map JNum tracks))])"

fun decode_sub_ids :: "jsnum list \<Rightarrow> json list \<Rightarrow> jsnum list result" where
  "decode_sub_ids seen [] = Inr []"
| "decode_sub_ids seen (raw # rest) =
     (case track_id (Some raw) of
        None \<Rightarrow> throw (bad (js ''sub_tracks.id''))
      | Some i \<Rightarrow>
          if List.member seen i then throw (bad (js ''sub_tracks.id duplicate''))
          else bindR (decode_sub_ids (i # seen) rest) (\<lambda>is. Inr (i # is)))"

definition decodeSubTracks :: "bytes \<Rightarrow> jsnum list result" where
  "decodeSubTracks buf =
     bindR (decodeJson buf) (\<lambda>obj.
       case getprop obj (js ''tracks'') of
         Some (JArr raws) \<Rightarrow>
           (if length raws > MAX_TRACK_SLOT then throw (bad (js ''sub_tracks too many''))
            else decode_sub_ids [] raws)
       | _ \<Rightarrow> throw (bad (js ''sub_tracks'')))"

subsection \<open>ERROR\<close>

record ErrorPayload =
  ecode :: jsstring
  emessage :: jsstring

definition encodeError :: "ErrorPayload \<Rightarrow> bytes result" where
  "encodeError p =
     encodeJson (JObj [(js ''code'', JStr (ecode p)), (js ''message'', JStr (emessage p))])"

definition decodeError :: "bytes \<Rightarrow> ErrorPayload result" where
  "decodeError buf =
     bindR (decodeJson buf) (\<lambda>obj.
       bindR (strField obj (js ''code'') 32) (\<lambda>code.
         if \<not> isErrorCode code then throw (bad (js ''error.code''))
         else bindR (strField obj (js ''message'') 512) (\<lambda>message.
           Inr \<lparr>ecode = code, emessage = message\<rparr>)))"


declare js_Cons [simp del]

subsection \<open>The JSON layer is a round trip\<close>

lemma encodeJson_Inr:
  "encodeJson v = Inr b \<longleftrightarrow> b = TextEncoder_encode (stringify v) \<and> length b \<le> MAX_JSON_BYTES"
  by (auto simp: encodeJson_def Let_def)

lemma decode_encodeJson:
  assumes "encodeJson (JObj kvs) = Inr b" "json_ok (JObj kvs)"
  shows "decodeJson b = Inr (JObj kvs)"
  using assms decode_stringify_obj [OF assms(2)] JSON_parse_stringify [OF assms(2)]
  by (auto simp: encodeJson_Inr decodeJson_def simp del: stringify.simps)

text \<open>The numbers of a parsed value are doubles (or an infinity, from an overflowing literal).\<close>

fun json_parsed :: "json \<Rightarrow> bool" where
  "json_parsed (JNum x) = (case x of Fin r \<Rightarrow> is_double r | _ \<Rightarrow> True)"
| "json_parsed (JArr vs) = list_all json_parsed vs"
| "json_parsed (JObj kvs) = list_all (\<lambda>(k, v). json_parsed v) kvs"
| "json_parsed _ = True"

lemma scan_number_parsed: "scan_number s = Some (x, r) \<Longrightarrow> json_parsed (JNum x)"
  by (auto simp: scan_number_def split: prod.splits option.splits jsnum.splits dest!: to_double_Fin)

lemma parse_parsed_step:
  assumes "\<And>s v r. parse_value n s = Some (v, r) \<Longrightarrow> json_parsed v"
    and "\<And>s vs r. parse_elems n s = Some (vs, r) \<Longrightarrow> list_all json_parsed vs"
    and "\<And>s kvs r. parse_members n s = Some (kvs, r) \<Longrightarrow> list_all (\<lambda>(k, v). json_parsed v) kvs"
  shows "parse_value (Suc n) s = Some (v, r) \<Longrightarrow> json_parsed v"
    and "parse_elems (Suc n) s = Some (vs, r) \<Longrightarrow> list_all json_parsed vs"
    and "parse_members (Suc n) s = Some (kvs, r) \<Longrightarrow> list_all (\<lambda>(k, v). json_parsed v) kvs"
  by (auto simp: bind_eq_Some_conv parse_simps split: if_splits dest!: assms simp del: json_parsed.simps(1)
      dest: scan_number_parsed)

lemma parse_parsed:
  "parse_value n s = Some (v, r) \<Longrightarrow> json_parsed v"
  "parse_elems n s = Some (vs, r) \<Longrightarrow> list_all json_parsed vs"
  "parse_members n s = Some (kvs, r) \<Longrightarrow> list_all (\<lambda>(k, v). json_parsed v) kvs"
proof (induction n arbitrary: s v vs kvs r)
  case (Suc n)
  { case 1 from Suc.IH this show ?case by (rule parse_parsed_step(1)) next
    case 2 from Suc.IH this show ?case by (rule parse_parsed_step(2)) next
    case 3 from Suc.IH this show ?case by (rule parse_parsed_step(3)) }
qed (simp_all add: parse_simps)

lemma decodeJson_parsed: "decodeJson b = Inr v \<Longrightarrow> json_parsed v"
  by (auto simp: decodeJson_def JSON_parse_def bind_eq_Some_conv throw_def
      split: if_splits option.splits json.splits dest: parse_parsed(1))

lemma getprop_parsed: "json_parsed v \<Longrightarrow> getprop v k = Some w \<Longrightarrow> json_parsed w"
  by (cases v) (auto simp: getprop_def list_all_iff dest!: map_of_SomeD)

text \<open>Reading a property back from a printed object.\<close>

lemma getprop_Nil [simp]: "getprop (JObj []) k = None"
  by (simp add: getprop_def)

lemma getprop_Cons:
  "getprop (JObj ((k', v) # kvs)) k =
     (case getprop (JObj kvs) k of None \<Rightarrow> if k' = k then Some v else None | Some w \<Rightarrow> Some w)"
  by (simp add: getprop_def map_of_append map_add_def split: option.split)

lemma getprop_append:
  "getprop (JObj (as @ bs)) k =
     (case getprop (JObj bs) k of None \<Rightarrow> getprop (JObj as) k | Some w \<Rightarrow> Some w)"
  by (simp add: getprop_def map_add_def split: option.split)

lemmas field_simps' = getprop_Cons getprop_opt_def strField_def numField_def is_object_def

subsection \<open>The contract of a codec\<close>

locale payload_codec =
  fixes enc :: "'p \<Rightarrow> bytes result"
    and dec :: "bytes \<Rightarrow> 'p result"
    and wf :: "'p \<Rightarrow> bool"
  assumes enc_dec: "wf p \<Longrightarrow> enc p = Inr b \<Longrightarrow> dec b = Inr p"
    and dec_wf: "dec b = Inr p \<Longrightarrow> wf p"
begin

text \<open>Two payloads with the same bytes are the same payload.\<close>

lemma enc_inj: "wf p \<Longrightarrow> wf q \<Longrightarrow> enc p = Inr b \<Longrightarrow> enc q = Inr b \<Longrightarrow> p = q"
  by (metis enc_dec sum.inject(2))

text \<open>What was decoded once decodes to the same after any number of re-encodings.\<close>

lemma reencode: "dec b = Inr p \<Longrightarrow> enc p = Inr b' \<Longrightarrow> dec b' = Inr p"
  using dec_wf enc_dec by blast

end

interpretation frame_codec: payload_codec encodeFrame decodeFrame frame_wf
proof unfold_locales
  show "decodeFrame b = Inr p" if "frame_wf p" "encodeFrame p = Inr b" for p b
    using encode_wf [OF that(1)] that(2) by auto
  show "frame_wf p" if "decodeFrame b = Inr p" for b p
    using that accepted_wf by (auto simp: decodeFrame_Inr)
qed

subsection \<open>Well-formed payloads\<close>

definition hello_wf :: "HelloPayload \<Rightarrow> bool" where
  "hello_wf p \<longleftrightarrow>
     version p = nnum 1 \<and> length (client p) \<le> 128 \<and> codec (audio p) = js ''opus''
     \<and> sampleRate (audio p) = nnum 48000 \<and> (channels (audio p) = nnum 1 \<or> channels (audio p) = nnum 2)
     \<and> frameMs (audio p) = nnum 20"

definition slot_ok :: "jsnum \<Rightarrow> bool" where
  "slot_ok x \<longleftrightarrow> (\<exists>n. 1 \<le> n \<and> n \<le> MAX_TRACK_SLOT \<and> x = nnum n)"

definition track_wf :: "TrackInfo \<Rightarrow> bool" where
  "track_wf t \<longleftrightarrow>
     slot_ok (tid t) \<and> isValidSlug (slug t)
     \<and> (category t = CUSTOM_CATEGORY \<or> isPresetCategory (category t)) \<and> length (label t) \<le> 64"

definition track_list_wf :: "TrackInfo list \<Rightarrow> bool" where
  "track_list_wf ts \<longleftrightarrow> length ts \<le> MAX_TRACK_SLOT \<and> distinct (map tid ts) \<and> list_all track_wf ts"

definition fingerprint_wf :: "FingerprintPayload \<Rightarrow> bool" where
  "fingerprint_wf p \<longleftrightarrow> 0 \<le> hash p \<and> hash p < 2 ^ 64 \<and> (\<exists>w < 2 ^ 16. windowMs p = nnum w)"

definition opt_len :: "nat \<Rightarrow> jsstring option \<Rightarrow> bool" where
  "opt_len n s = (case s of None \<Rightarrow> True | Some t \<Rightarrow> length t \<le> n)"

definition track_meta_wf :: "TrackMetaPayload \<Rightarrow> bool" where
  "track_meta_wf p \<longleftrightarrow>
     opt_len 256 (title p) \<and> opt_len 256 (artist p) \<and> opt_len 1024 (albumArtUrl p)
     \<and> (\<forall>u. albumArtUrl p = Some u \<longrightarrow> startsWith u (js ''https://''))"

definition stat_ok :: "jsnum \<Rightarrow> bool" where
  "stat_ok x \<longleftrightarrow> (\<exists>r. x = Fin r \<and> is_double r \<and> 0 \<le> r)"

definition stats_wf :: "StatsPayload \<Rightarrow> bool" where
  "stats_wf p \<longleftrightarrow> stat_ok (uptimeS p) \<and> stat_ok (packetsSent p) \<and> stat_ok (subscribers p) \<and> stat_ok (tracksActive p)"

definition sub_tracks_wf :: "jsnum list \<Rightarrow> bool" where
  "sub_tracks_wf is \<longleftrightarrow> length is \<le> MAX_TRACK_SLOT \<and> distinct is \<and> list_all slot_ok is"

definition error_wf :: "ErrorPayload \<Rightarrow> bool" where
  "error_wf p \<longleftrightarrow> isErrorCode (ecode p) \<and> length (emessage p) \<le> 512"


subsection \<open>HELLO\<close>

lemma hello_roundtrip:
  assumes "hello_wf p" "encodeHello p = Inr b"
  shows "decodeHello b = Inr p"
proof -
  have "decodeJson b = Inr (JObj
       [(js ''version'', JNum (version p)), (js ''client'', JStr (client p)),
        (js ''audio'', JObj
           [(js ''codec'', JStr (codec (audio p))), (js ''sample_rate'', JNum (sampleRate (audio p))),
            (js ''channels'', JNum (channels (audio p))), (js ''frame_ms'', JNum (frameMs (audio p)))])])"
    using assms(2) unfolding encodeHello_def
    by (rule decode_encodeJson) (use assms(1) in \<open>auto simp: hello_wf_def\<close>)
  with assms(1) show ?thesis
    by (auto simp: decodeHello_def field_simps' hello_wf_def)
qed

lemma strField_Inr:
  "strField obj k n = Inr s \<longleftrightarrow> getprop obj k = Some (JStr s) \<and> length s \<le> n"
  by (auto simp: strField_def split: option.splits json.splits)

lemma numField_Inr:
  "numField obj k = Inr x \<longleftrightarrow> (\<exists>r. x = Fin r \<and> getprop obj k = Some (JNum (Fin r)) \<and> 0 \<le> r)"
  by (cases x) (auto simp: numField_def split: option.splits json.splits if_splits)

lemma decodeHello_wf: "decodeHello b = Inr p \<Longrightarrow> hello_wf p"
  by (auto simp: decodeHello_def hello_wf_def strField_Inr Let_def split: if_splits)

interpretation hello_codec: payload_codec encodeHello decodeHello hello_wf
  by unfold_locales (rule hello_roundtrip decodeHello_wf; assumption)+

subsection \<open>TRACK\_LIST and SUB\_TRACKS\<close>

lemma track_id_Some: "track_id v = Some x \<longleftrightarrow> v = Some (JNum x) \<and> slot_ok x"
proof -
  have "(isInteger x \<and> \<not> num_lt x (nnum 1) \<and> \<not> num_lt (nnum MAX_TRACK_SLOT) x) \<longleftrightarrow> slot_ok x"
  proof
    assume a: "isInteger x \<and> \<not> num_lt x (nnum 1) \<and> \<not> num_lt (nnum MAX_TRACK_SLOT) x"
    then obtain n where n: "x = Fin (of_int n)" by (auto simp: isInteger_iff)
    with a have "(1::rat) \<le> of_int n" "of_int n \<le> (of_int (int MAX_TRACK_SLOT) :: rat)" by auto
    then have "1 \<le> n" "n \<le> int MAX_TRACK_SLOT" by (simp_all del: of_int_of_nat_eq)
    then have "1 \<le> nat n" "nat n \<le> MAX_TRACK_SLOT" "x = nnum (nat n)" using n by simp_all
    then show "slot_ok x" by (auto simp: slot_ok_def)
  next
    assume "slot_ok x"
    then obtain n where "1 \<le> n" "n \<le> MAX_TRACK_SLOT" "x = num (int n)" by (auto simp: slot_ok_def)
    then show "isInteger x \<and> \<not> num_lt x (nnum 1) \<and> \<not> num_lt (nnum MAX_TRACK_SLOT) x"
      by (auto simp: isInteger_iff intro: exI [of _ "int n"])
  qed
  then show ?thesis by (auto simp: track_id_def split: option.splits json.splits if_splits)
qed

lemma slot_ok_json: "slot_ok x \<Longrightarrow> json_ok (JNum x)"
  by (auto simp: slot_ok_def MAX_TRACK_SLOT_def intro!: is_double_nat)

lemma preset_length: "isPresetCategory c \<Longrightarrow> length c \<le> 32"
  by (auto simp: isPresetCategory_def PRESET_CATEGORIES_def)

lemma category_length: "category t = CUSTOM_CATEGORY \<or> isPresetCategory (category t) \<Longrightarrow> length (category t) \<le> 32"
  using preset_length by (auto simp: CUSTOM_CATEGORY_def)

lemma decode_tracks_json:
  assumes "list_all track_wf ts" "distinct (map tid ts)" "set (map tid ts) \<inter> set seen = {}"
  shows "decode_tracks seen (map track_json ts) = Inr ts"
  using assms
proof (induction ts arbitrary: seen)
  case (Cons t ts)
  have "decode_tracks (tid t # seen) (map track_json ts) = Inr ts" using Cons.prems by (intro Cons.IH) auto
  moreover have "track_id (Some (JNum (tid t))) = Some (tid t)"
    using Cons.prems(1) by (simp add: track_id_Some track_wf_def)
  moreover have "length (slug t) \<le> 64" "length (category t) \<le> 32" "length (label t) \<le> 64"
    using Cons.prems(1) category_length [of t] by (auto simp: track_wf_def isValidSlug_def)
  moreover have "isValidSlug (slug t)" "category t = CUSTOM_CATEGORY \<or> isPresetCategory (category t)"
    using Cons.prems(1) by (simp_all add: track_wf_def)
  moreover have "tid t \<notin> set seen" using Cons.prems(3) by auto
  ultimately show ?case
    by (auto simp: track_json_def [of t] field_simps')
qed simp

lemma track_list_roundtrip:
  assumes "track_list_wf ts" "encodeTrackList ts = Inr b"
  shows "decodeTrackList b = Inr ts"
proof -
  have "json_ok (track_json t)" if "t \<in> set ts" for t
    using assms(1) that slot_ok_json [of "tid t"]
    by (auto simp: track_list_wf_def list_all_iff track_wf_def track_json_def simp del: json_ok.simps(1))
  then have "decodeJson b = Inr (JObj [(js ''tracks'', JArr (map track_json ts))])"
    using assms(2) unfolding encodeTrackList_def by (intro decode_encodeJson) (auto simp: list_all_iff)
  with assms(1) show ?thesis
    by (simp add: decodeTrackList_def getprop_Cons track_list_wf_def decode_tracks_json)
qed

lemma decode_tracks_wf:
  "decode_tracks seen raws = Inr ts \<Longrightarrow>
     list_all track_wf ts \<and> distinct (map tid ts) \<and> set (map tid ts) \<inter> set seen = {} \<and> length ts = length raws"
proof (induction seen raws arbitrary: ts rule: decode_tracks.induct)
  case (2 seen raw rest)
  from "2.prems" obtain i sl c l ts' where *: "track_id (getprop raw (js ''id'')) = Some i" "i \<notin> set seen"
      "isValidSlug sl" "c = CUSTOM_CATEGORY \<or> isPresetCategory c" "strField raw (js ''label'') 64 = Inr l"
      "decode_tracks (i # seen) rest = Inr ts'" "is_object (Some raw)" "strField raw (js ''slug'') 64 = Inr sl"
      "strField raw (js ''category'') 32 = Inr c"
      "ts = \<lparr>tid = i, slug = sl, category = c, label = l\<rparr> # ts'"
    by (clarsimp split: option.splits)
  moreover have "list_all track_wf ts' \<and> distinct (map tid ts') \<and> set (map tid ts') \<inter> set (i # seen) = {}
      \<and> length ts' = length rest"
    using * by (intro "2.IH") auto
  ultimately show ?case by (auto simp: track_id_Some strField_Inr track_wf_def [of "\<lparr>tid = _, slug = _, category = _, label = _\<rparr>"])
qed simp

lemma case_arr_Inr:
  "(case v of Some (JArr raws) \<Rightarrow> f raws | _ \<Rightarrow> throw e) = Inr y \<longleftrightarrow> (\<exists>raws. v = Some (JArr raws) \<and> f raws = Inr y)"
  by (auto split: option.splits json.splits)

lemma decodeTrackList_wf: "decodeTrackList b = Inr ts \<Longrightarrow> track_list_wf ts"
  using decode_tracks_wf [of "[]" _ ts] by (auto simp: decodeTrackList_def track_list_wf_def case_arr_Inr)

interpretation track_list_codec: payload_codec encodeTrackList decodeTrackList track_list_wf
  by unfold_locales (rule track_list_roundtrip decodeTrackList_wf; assumption)+

lemma decode_sub_ids_json:
  "list_all slot_ok is \<Longrightarrow> distinct is \<Longrightarrow> set is \<inter> set seen = {} \<Longrightarrow>
     decode_sub_ids seen (map JNum is) = Inr is"
proof (induction "is" arbitrary: seen)
  case (Cons i "is")
  then have "track_id (Some (JNum i)) = Some i" "decode_sub_ids (i # seen) (map JNum is) = Inr is"
    by (auto simp: track_id_Some)
  with Cons.prems show ?case by auto
qed simp

lemma sub_tracks_roundtrip:
  assumes "sub_tracks_wf is" "encodeSubTracks is = Inr b"
  shows "decodeSubTracks b = Inr is"
proof -
  have "decodeJson b = Inr (JObj [(js ''tracks'', JArr (map JNum is))])"
    using assms slot_ok_json unfolding encodeSubTracks_def
    by (intro decode_encodeJson) (auto simp: list_all_iff sub_tracks_wf_def simp del: json_ok.simps(1))
  with assms(1) show ?thesis
    by (simp add: decodeSubTracks_def getprop_Cons sub_tracks_wf_def decode_sub_ids_json)
qed

lemma decode_sub_ids_wf:
  "decode_sub_ids seen raws = Inr is \<Longrightarrow>
     list_all slot_ok is \<and> distinct is \<and> set is \<inter> set seen = {} \<and> length is = length raws"
proof (induction seen raws arbitrary: "is" rule: decode_sub_ids.induct)
  case (2 seen raw rest)
  then show ?case by (auto split: if_splits option.splits simp: track_id_Some)
qed simp

lemma decodeSubTracks_wf: "decodeSubTracks b = Inr is \<Longrightarrow> sub_tracks_wf is"
  using decode_sub_ids_wf [of "[]" _ "is"] by (auto simp: decodeSubTracks_def sub_tracks_wf_def case_arr_Inr)

interpretation sub_tracks_codec: payload_codec encodeSubTracks decodeSubTracks sub_tracks_wf
  by unfold_locales (rule sub_tracks_roundtrip decodeSubTracks_wf; assumption)+

subsection \<open>ERROR and STATS\<close>

lemma error_code_length: "isErrorCode c \<Longrightarrow> length c \<le> 32"
  by (auto simp: isErrorCode_def ERROR_CODES_def)

lemma error_roundtrip:
  assumes "error_wf p" "encodeError p = Inr b"
  shows "decodeError b = Inr p"
proof -
  have "decodeJson b = Inr (JObj [(js ''code'', JStr (ecode p)), (js ''message'', JStr (emessage p))])"
    using assms(2) unfolding encodeError_def by (rule decode_encodeJson) auto
  with assms(1) error_code_length [of "ecode p"] show ?thesis
    by (auto simp: decodeError_def strField_def getprop_Cons error_wf_def)
qed

lemma decodeError_wf: "decodeError b = Inr p \<Longrightarrow> error_wf p"
  by (auto simp: decodeError_def error_wf_def strField_Inr split: if_splits)

interpretation error_codec: payload_codec encodeError decodeError error_wf
  by unfold_locales (rule error_roundtrip decodeError_wf; assumption)+

lemma stats_roundtrip:
  assumes "stats_wf p" "encodeStats p = Inr b"
  shows "decodeStats b = Inr p"
proof -
  have "decodeJson b = Inr (JObj [(js ''uptime_s'', JNum (uptimeS p)), (js ''packets_sent'', JNum (packetsSent p)),
      (js ''subscribers'', JNum (subscribers p)), (js ''tracks_active'', JNum (tracksActive p))])"
    using assms(2) unfolding encodeStats_def
    by (rule decode_encodeJson) (use assms(1) in \<open>auto simp: stats_wf_def stat_ok_def\<close>)
  with assms(1) show ?thesis
    by (auto simp: decodeStats_def numField_def getprop_Cons stats_wf_def stat_ok_def)
qed

lemma numField_stat: "json_parsed obj \<Longrightarrow> numField obj k = Inr x \<Longrightarrow> stat_ok x"
  using getprop_parsed [of obj k "JNum x"] by (auto simp: numField_Inr stat_ok_def)

lemma decodeStats_wf: "decodeStats b = Inr p \<Longrightarrow> stats_wf p"
  by (auto simp: decodeStats_def stats_wf_def intro: numField_stat dest!: decodeJson_parsed)

interpretation stats_codec: payload_codec encodeStats decodeStats stats_wf
  by unfold_locales (rule stats_roundtrip decodeStats_wf; assumption)+

subsection \<open>TRACK\_META\<close>

lemma opt_strField_Inr:
  "opt_strField obj k n = Inr s \<longleftrightarrow>
     getprop obj k = map_option JStr s \<and> opt_len n s"
  by (cases s) (auto simp: opt_strField_def strField_Inr opt_len_def)

lemma track_meta_roundtrip:
  assumes "track_meta_wf p" "encodeTrackMeta p = Inr b"
  shows "decodeTrackMeta b = Inr p"
proof -
  let ?o = "opt_member (js ''title'') (title p) @ opt_member (js ''artist'') (artist p)
            @ opt_member (js ''album_art_url'') (albumArtUrl p)"
  have "decodeJson b = Inr (JObj ?o)"
    using assms(2) unfolding encodeTrackMeta_def
    by (rule decode_encodeJson) (auto simp: opt_member_def split: option.splits)
  moreover have "getprop (JObj ?o) (js ''title'') = map_option JStr (title p)"
      "getprop (JObj ?o) (js ''artist'') = map_option JStr (artist p)"
      "getprop (JObj ?o) (js ''album_art_url'') = map_option JStr (albumArtUrl p)"
    by (auto simp: getprop_append getprop_Cons opt_member_def split: option.split)
  then have "opt_strField (JObj ?o) (js ''title'') 256 = Inr (title p)"
      "opt_strField (JObj ?o) (js ''artist'') 256 = Inr (artist p)"
      "opt_strField (JObj ?o) (js ''album_art_url'') 1024 = Inr (albumArtUrl p)"
    using assms(1) by (simp_all only: opt_strField_Inr track_meta_wf_def)
  ultimately show ?thesis
    using assms(1) by (auto simp: decodeTrackMeta_def track_meta_wf_def split: option.splits)
qed

lemma decodeTrackMeta_wf: "decodeTrackMeta b = Inr p \<Longrightarrow> track_meta_wf p"
  by (auto simp: decodeTrackMeta_def track_meta_wf_def opt_strField_Inr)

interpretation track_meta_codec: payload_codec encodeTrackMeta decodeTrackMeta track_meta_wf
  by unfold_locales (rule track_meta_roundtrip decodeTrackMeta_wf; assumption)+

subsection \<open>FINGERPRINT\<close>

lemma encodeFingerprint_layout:
  "encodeFingerprint p = be_bytes 8 (nat (hash p mod 2 ^ 64)) @ be_bytes 2 (to_uint 16 (windowMs p))"
  by (simp add: encodeFingerprint_def Let_def buf_set_def)

lemma fingerprint_roundtrip:
  assumes "fingerprint_wf p"
  shows "decodeFingerprint (encodeFingerprint p) = Inr p"
proof -
  obtain w where w: "w < 2 ^ 16" "windowMs p = nnum w" and h: "0 \<le> hash p" "hash p < 2 ^ 64"
    using assms by (auto simp: fingerprint_wf_def)
  have "be_val (be_bytes 8 (nat (hash p mod 2 ^ 64))) = nat (hash p)"
    using h by (subst be_val_be_bytes) (auto simp: nat_less_iff)
  moreover have "be_val (be_bytes 2 (to_uint 16 (windowMs p))) = w"
    using w by (subst be_val_be_bytes) auto
  ultimately show ?thesis
    using w h by (simp add: decodeFingerprint_def encodeFingerprint_layout)
qed

lemma decodeFingerprint_wf: "decodeFingerprint b = Inr p \<Longrightarrow> fingerprint_wf p"
  using be_val_bound [of "take 8 b"] be_val_bound [of "take 2 (drop 8 b)"]
  by (auto simp: decodeFingerprint_def fingerprint_wf_def nat_less_iff split: if_splits)

interpretation fingerprint_codec: payload_codec "\<lambda>p. Inr (encodeFingerprint p)" decodeFingerprint fingerprint_wf
  by unfold_locales (auto simp: fingerprint_roundtrip intro: decodeFingerprint_wf)

subsection \<open>Sizes: which payloads always fit\<close>

text \<open>The bytes of a printed value: one per ASCII code unit, at most three for any other.\<close>

definition cost :: "jsstring \<Rightarrow> nat" where
  "cost s = sum_list (map (\<lambda>u. if unat u < 0x80 then 1 else 3) s)"

lemma cost_append [simp]: "cost (a @ b) = cost a + cost b"
  by (simp add: cost_def)

lemma cost_Nil [simp]: "cost [] = 0"
  by (simp add: cost_def)

lemma cost_Cons: "cost (u # s) = (if unat u < 0x80 then 1 else 3) + cost s"
  by (simp add: cost_def)

lemma length_utf8_enc:
  "length (utf8_enc c) \<le> 4" "c < 0x10000 \<Longrightarrow> length (utf8_enc c) \<le> 3" "c < 0x80 \<Longrightarrow> length (utf8_enc c) = 1"
  by (simp_all add: utf8_enc_def)

lemma length_utf8_unit: "length (utf8_enc (unit_cp u)) \<le> (if unat u < 0x80 then 1 else 3)"
  using length_utf8_enc(2,3) [of "unit_cp u"] unat_16_less [of u]
  by (auto simp: unit_cp_def is_high_def is_low_def)

lemma length_TextEncoder: "length (TextEncoder_encode s) \<le> cost s"
proof (induction s rule: utf16_cps.induct)
  case (3 u v s)
  show ?case
  proof (cases "is_high u \<and> is_low v")
    case True
    then have "\<not> unat u < 0x80" "\<not> unat v < 0x80" by (auto simp: is_high_def is_low_def)
    with True 3(1) show ?thesis
      using length_utf8_enc(1) [of "pair_cp u v"] by (simp add: TextEncoder_encode_def cost_Cons)
  next
    case False
    then have "length (TextEncoder_encode (u # v # s))
        = length (utf8_enc (unit_cp u)) + length (TextEncoder_encode (v # s))"
      by (auto simp: TextEncoder_encode_def)
    with 3(2) [OF False] length_utf8_unit [of u] show ?thesis unfolding cost_Cons [of u] by linarith
  qed
qed (use length_utf8_unit in \<open>auto simp: TextEncoder_encode_def cost_Cons\<close>)

lemma cost_hex4: "cost (hex4 u) = 4"
  using ascii_hex_unit by (simp add: hex4_def cost_Cons ascii_def)

lemma cost_quote_unit: "cost (quote_unit u) \<le> 6"
  by (auto simp: quote_unit_def cost_Cons cost_hex4)

lemma cost_quote_body: "cost (quote_body s) \<le> 6 * length s"
proof (induction s rule: quote_body.induct)
  case (3 u v s)
  then show ?case using cost_quote_unit [of u] by (auto simp: cost_Cons)
qed (use cost_quote_unit in auto)

lemma cost_quote: "cost (quote s) \<le> 6 * length s + 2"
  using cost_quote_body [of s] by (simp add: quote_def cost_Cons)

lemma cost_joinc: "cost (joinc xs) \<le> sum_list (map (\<lambda>x. cost x + 1) xs)"
  by (induction xs rule: joinc.induct) (auto simp: cost_Cons)

lemma cost_JObj:
  "cost (stringify (JObj kvs)) \<le> 2 + sum_list (map (\<lambda>(k, v). 6 * length k + 4 + cost (stringify v)) kvs)"
proof -
  have "cost (print_member kv) + 1 \<le> (case kv of (k, v) \<Rightarrow> 6 * length k + 4 + cost (stringify v))" for kv
    using cost_quote [of "fst kv"] by (cases kv) (simp add: print_member_def cost_Cons)
  then have "sum_list (map (\<lambda>x. cost x + 1) (map print_member kvs))
      \<le> sum_list (map (\<lambda>(k, v). 6 * length k + 4 + cost (stringify v)) kvs)"
    by (simp add: comp_def) (intro sum_list_mono, blast)
  with cost_joinc [of "map print_member kvs"] show ?thesis
    unfolding stringify_JObj by (simp add: cost_Cons)
qed

lemma cost_JStr: "cost (stringify (JStr s)) \<le> 6 * length s + 2"
  using cost_quote by simp

lemma length_dec_digits: "n < 10 ^ k \<Longrightarrow> 0 < k \<Longrightarrow> length (dec_digits n) \<le> k"
proof (induction k arbitrary: n)
  case (Suc k)
  then show ?case by (cases "n < 10"; cases k) (auto simp: dec_digits.simps [of n] intro!: Suc.IH)
qed simp

lemma cost_ascii: "\<forall>u\<in>set s. ascii u \<Longrightarrow> cost s = length s"
  by (induction s) (auto simp: cost_Cons ascii_def)

lemma cost_small_num: "n < 10 ^ 5 \<Longrightarrow> cost (stringify (JNum (nnum n))) \<le> 5"
  using length_dec_digits [of n 5] cost_ascii [of "nat_str n"] ascii_digit_units
  by (auto simp: nat_str_def)

lemma encodeJson_fits: "cost (stringify v) \<le> MAX_JSON_BYTES \<Longrightarrow> \<exists>b. encodeJson v = Inr b"
  using length_TextEncoder [of "stringify v"] by (simp add: encodeJson_def Let_def del: stringify.simps)

lemma encodeError_total: "error_wf p \<Longrightarrow> \<exists>b. encodeError p = Inr b"
  unfolding encodeError_def
  by (rule encodeJson_fits, rule order_trans [OF cost_JObj])
    (use cost_JStr [of "ecode p"] cost_JStr [of "emessage p"] error_code_length [of "ecode p"]
      in \<open>auto simp: error_wf_def MAX_JSON_BYTES_def simp del: stringify.simps\<close>)

lemma cost_nums:
  "cost (stringify (JNum (Fin 1))) \<le> 5" "cost (stringify (JNum (Fin 2))) \<le> 5"
  "cost (stringify (JNum (Fin 20))) \<le> 5" "cost (stringify (JNum (Fin 48000))) \<le> 5"
  using cost_small_num [of 1] cost_small_num [of 2] cost_small_num [of 20] cost_small_num [of 48000] by simp_all

lemma encodeHello_total:
  assumes "hello_wf p"
  shows "\<exists>b. encodeHello p = Inr b"
proof -
  have "cost (stringify (JObj [(js ''codec'', JStr (codec (audio p))),
            (js ''sample_rate'', JNum (sampleRate (audio p))), (js ''channels'', JNum (channels (audio p))),
            (js ''frame_ms'', JNum (frameMs (audio p)))])) \<le> 400" (is "cost (stringify ?a) \<le> _")
    by (rule order_trans [OF cost_JObj])
      (use assms cost_JStr [of "codec (audio p)"] cost_nums
        in \<open>auto simp: hello_wf_def simp del: stringify.simps\<close>)
  with cost_JStr [of "client p"] cost_nums(1) assms
  have "cost (stringify (JObj [(js ''version'', JNum (version p)), (js ''client'', JStr (client p)),
      (js ''audio'', ?a)])) \<le> MAX_JSON_BYTES"
    by (intro order_trans [OF cost_JObj])
      (auto simp: hello_wf_def MAX_JSON_BYTES_def simp del: stringify.simps)
  then show ?thesis unfolding encodeHello_def by (rule encodeJson_fits)
qed

lemma encodeSubTracks_total:
  assumes "sub_tracks_wf is"
  shows "\<exists>b. encodeSubTracks is = Inr b"
proof -
  have "cost (stringify (JNum i)) + 1 \<le> 6" if "i \<in> set is" for i
    using assms that cost_small_num
    by (auto simp: sub_tracks_wf_def list_all_iff slot_ok_def MAX_TRACK_SLOT_def simp del: stringify.simps)
  then have "sum_list (map (\<lambda>i. cost (stringify (JNum i)) + 1) is) \<le> sum_list (map (\<lambda>i. 6) is)"
    by (rule sum_list_mono)
  also have "\<dots> \<le> 48" using assms by (simp add: sum_list_triv sub_tracks_wf_def MAX_TRACK_SLOT_def)
  finally have "cost (stringify (JArr (map JNum is))) \<le> 50"
    using cost_joinc [of "map (\<lambda>i. stringify (JNum i)) is"] by (simp add: cost_Cons comp_def)
  then have "cost (stringify (JObj [(js ''tracks'', JArr (map JNum is))])) \<le> MAX_JSON_BYTES"
    by (intro order_trans [OF cost_JObj]) (simp add: MAX_JSON_BYTES_def del: stringify.simps)
  then show ?thesis unfolding encodeSubTracks_def by (rule encodeJson_fits)
qed

subsection \<open>Track lists that always fit\<close>

text \<open>Text that needs no \<^verbatim>\<open>\uXXXX\<close> escape: no control characters, every surrogate paired.\<close>

definition plain_text :: "jsstring \<Rightarrow> bool" where
  "plain_text s \<longleftrightarrow> wf16 s \<and> list_all (\<lambda>u. 0x20 \<le> u) s"

lemma cost_quote_unit_plain: "0x20 \<le> u \<Longrightarrow> \<not> is_high u \<Longrightarrow> \<not> is_low u \<Longrightarrow> cost (quote_unit u) \<le> 3"
  by (auto simp: quote_unit_def cost_Cons)

lemma cost_quote_body_plain: "wf16 s \<Longrightarrow> list_all (\<lambda>u. 0x20 \<le> u) s \<Longrightarrow> cost (quote_body s) \<le> 3 * length s"
proof (induction s rule: quote_body.induct)
  case (2 u)
  then show ?case using cost_quote_unit_plain [of u] by simp
next
  case (3 u v s)
  show ?case
  proof (cases "is_high u \<and> is_low v")
    case True
    with 3 show ?thesis by (auto simp: cost_Cons wf16.simps(3))
  next
    case False
    with 3 cost_quote_unit_plain [of u] show ?thesis by (auto simp: wf16.simps(3))
  qed
qed simp

lemma cost_quote_plain: "plain_text s \<Longrightarrow> cost (quote s) \<le> 3 * length s + 2"
  using cost_quote_body_plain [of s] by (simp add: plain_text_def quote_def cost_Cons)

lemma slug_unit: "slug_char u \<Longrightarrow> quote_unit u = [u] \<and> unat u < 0x80 \<and> \<not> is_high u \<and> \<not> is_low u"
  by (auto simp: slug_char_def in_class_def alnum_class_def quote_unit_def word_le_nat_alt is_high_def
      is_low_def word_less_nat_alt)

lemma cost_slug: "list_all slug_char s \<Longrightarrow> cost (quote_body s) = length s"
proof (induction s rule: quote_body.induct)
  case (2 u)
  then show ?case using slug_unit [of u] by (simp add: cost_Cons)
next
  case (3 u v s)
  then show ?case using slug_unit [of u] by (simp add: cost_Cons)
qed simp

lemma cost_quote_slug: "isValidSlug s \<Longrightarrow> cost (quote s) \<le> 66"
  using cost_slug [of s] by (simp add: isValidSlug_rule slug_rule_def quote_def cost_Cons)

lemma js_plain: "list_all (\<lambda>c. 0x20 \<le> (of_char c :: nat) \<and> of_char c < (0x80 :: nat)) s \<Longrightarrow> plain_text (js s)"
proof (induction s)
  case (Cons c s)
  then have p: "plain_text (js s)" by simp
  have "unat (of_char c :: codeunit) = unat (of_nat (of_char c) :: codeunit)" by (simp only: of_nat_of_char)
  also have "\<dots> = of_char c" using Cons.prems by (simp add: unat_of_nat)
  finally have "unat (of_char c :: codeunit) = of_char c" .
  then have "\<not> is_high (of_char c)" "\<not> is_low (of_char c)" "0x20 \<le> (of_char c :: codeunit)"
    using Cons.prems by (simp_all add: is_high_def is_low_def word_le_nat_alt)
  with p show ?case by (simp add: plain_text_def wf16_Cons js_Cons)
qed (simp add: plain_text_def)

lemma category_plain:
  assumes "c = CUSTOM_CATEGORY \<or> isPresetCategory c"
  shows "cost (quote c) \<le> 41"
proof -
  have "plain_text c \<and> length c \<le> 13"
    using assms by (auto simp: CUSTOM_CATEGORY_def isPresetCategory_def PRESET_CATEGORIES_def intro!: js_plain)
  then show ?thesis using cost_quote_plain [of c] by simp
qed

lemma cost_JObj_exact:
  "cost (stringify (JObj kvs)) \<le> 2 + sum_list (map (\<lambda>(k, v). cost (quote k) + 2 + cost (stringify v)) kvs)"
proof -
  have "(\<lambda>x. cost x + 1) \<circ> print_member = (\<lambda>(k, v). cost (quote k) + 2 + cost (stringify v))"
    by (auto simp: fun_eq_iff print_member_def cost_Cons)
  with cost_joinc [of "map print_member kvs"] show ?thesis
    unfolding stringify_JObj by (simp add: cost_Cons comp_def)
qed

lemma cost_track:
  assumes "track_wf t" "plain_text (label t)"
  shows "cost (stringify (track_json t)) + 1 \<le> 400"
proof -
  have k: "cost (quote (js ''id'')) \<le> 8" "cost (quote (js ''slug'')) \<le> 14" "cost (quote (js ''category'')) \<le> 26"
    "cost (quote (js ''label'')) \<le> 17"
    using cost_quote_plain [OF js_plain, of "''id''"] cost_quote_plain [OF js_plain, of "''slug''"]
      cost_quote_plain [OF js_plain, of "''category''"] cost_quote_plain [OF js_plain, of "''label''"] by simp_all
  obtain n where n: "tid t = nnum n" "n \<le> MAX_TRACK_SLOT" using assms(1) by (auto simp: track_wf_def slot_ok_def)
  then have "cost (stringify (JNum (tid t))) \<le> 5" using cost_small_num [of n] by (simp add: MAX_TRACK_SLOT_def del: stringify.simps)
  moreover have "cost (stringify (JStr (slug t))) \<le> 66" "cost (stringify (JStr (category t))) \<le> 41"
    using assms(1) cost_quote_slug category_plain by (simp_all add: track_wf_def)
  moreover have "cost (stringify (JStr (label t))) \<le> 194"
    using cost_quote_plain [OF assms(2)] assms(1) by (simp add: track_wf_def)
  ultimately show ?thesis
    using k cost_JObj_exact [of "[(js ''id'', JNum (tid t)), (js ''slug'', JStr (slug t)),
           (js ''category'', JStr (category t)), (js ''label'', JStr (label t))]"]
    unfolding track_json_def by (simp del: stringify.simps)
qed

lemma encodeTrackList_total:
  assumes "track_list_wf ts" "list_all (\<lambda>t. plain_text (label t)) ts"
  shows "\<exists>b. encodeTrackList ts = Inr b"
proof -
  have "cost (stringify (track_json t)) + 1 \<le> 400" if "t \<in> set ts" for t
    using cost_track assms that by (auto simp: track_list_wf_def list_all_iff)
  then have "sum_list (map (\<lambda>t. cost (stringify (track_json t)) + 1) ts) \<le> sum_list (map (\<lambda>t. 400) ts)"
    by (rule sum_list_mono)
  also have "\<dots> \<le> 3200" using assms(1) by (simp add: sum_list_triv track_list_wf_def MAX_TRACK_SLOT_def)
  finally have "cost (stringify (JArr (map track_json ts))) \<le> 3202"
    using cost_joinc [of "map (\<lambda>t. stringify (track_json t)) ts"] by (simp add: cost_Cons comp_def)
  then have "cost (stringify (JObj [(js ''tracks'', JArr (map track_json ts))])) \<le> MAX_JSON_BYTES"
    by (intro order_trans [OF cost_JObj]) (simp add: MAX_JSON_BYTES_def del: stringify.simps)
  then show ?thesis unfolding encodeTrackList_def by (rule encodeJson_fits)
qed

subsection \<open>Properties\<close>

text \<open>
  C17: a TRACK\_LIST that decodes has at most eight tracks with pairwise different ids from 1 to 8,
  valid slugs, a preset or custom category and labels of at most 64 code units.
\<close>

theorem decoded_track_list: "decodeTrackList b = Inr ts \<Longrightarrow> track_list_wf ts"
  by (rule decodeTrackList_wf)

definition sample_tracks :: "TrackInfo list" where
  "sample_tracks =
     [\<lparr>tid = nnum 1, slug = js ''mic'', category = js ''mic'', label = js ''Microphone''\<rparr>,
      \<lparr>tid = nnum 2, slug = js ''night-radio'', category = js ''custom'', label = js ''Night Radio''\<rparr>]"

lemma sample_slugs: "isValidSlug (js ''mic'')" "isValidSlug (js ''night-radio'')"
  by (simp_all add: isValidSlug_rule slug_rule_def slug_char_def js_Cons in_class_def alnum_class_def word_le_nat_alt)

lemma sample_tracks_wf: "track_list_wf sample_tracks"
proof -
  have "slot_ok (nnum 1)" "slot_ok (nnum 2)" unfolding slot_ok_def MAX_TRACK_SLOT_def
    by (rule exI [of _ 1], simp) (rule exI [of _ 2], simp)
  moreover have "isPresetCategory (js ''mic'')" "js ''custom'' = CUSTOM_CATEGORY"
    by (simp_all add: isPresetCategory_def PRESET_CATEGORIES_def CUSTOM_CATEGORY_def)
  ultimately show ?thesis
    using sample_slugs by (simp add: sample_tracks_def track_list_wf_def track_wf_def MAX_TRACK_SLOT_def)
qed

lemma sample_tracks_plain: "list_all (\<lambda>t. plain_text (label t)) sample_tracks"
  unfolding sample_tracks_def by (simp add: js_plain)

text \<open>
  C21: a well-formed track list whose labels have no control characters and no lone surrogates
  always fits the 4096-byte limit, and decodes to itself.
\<close>

theorem track_list_survives:
  assumes "track_list_wf ts" "list_all (\<lambda>t. plain_text (label t)) ts"
  shows "\<exists>b. encodeTrackList ts = Inr b \<and> decodeTrackList b = Inr ts"
  using encodeTrackList_total [OF assms] track_list_codec.enc_dec [OF assms(1)] by blast

theorem track_list_survives_witness:
  "\<exists>b. encodeTrackList sample_tracks = Inr b \<and> decodeTrackList b = Inr sample_tracks"
  by (rule track_list_survives [OF sample_tracks_wf sample_tracks_plain])

theorem decoded_track_list_witness: "\<exists>b. decodeTrackList b = Inr sample_tracks \<and> track_list_wf sample_tracks"
proof -
  obtain b where "decodeTrackList b = Inr sample_tracks"
    using encodeTrackList_total [OF sample_tracks_wf sample_tracks_plain]
      track_list_codec.enc_dec [OF sample_tracks_wf] by blast
  then show ?thesis using decoded_track_list by blast
qed

text \<open>
  C22: HELLO, SUB\_TRACKS and ERROR payloads that satisfy their declared types always fit and survive
  encoding and decoding, whatever characters their strings hold.
\<close>

theorem control_payloads_survive:
  "(hello_wf h \<longrightarrow> (\<exists>b. encodeHello h = Inr b \<and> decodeHello b = Inr h))
   \<and> (sub_tracks_wf s \<longrightarrow> (\<exists>b. encodeSubTracks s = Inr b \<and> decodeSubTracks b = Inr s))
   \<and> (error_wf e \<longrightarrow> (\<exists>b. encodeError e = Inr b \<and> decodeError b = Inr e))"
  using encodeHello_total hello_codec.enc_dec encodeSubTracks_total sub_tracks_codec.enc_dec
    encodeError_total error_codec.enc_dec by blast

theorem control_payloads_survive_witness:
  "\<exists>b. encodeError \<lparr>ecode = js ''MALFORMED'', emessage = [0xD800, 10]\<rparr> = Inr b
     \<and> decodeError b = Inr \<lparr>ecode = js ''MALFORMED'', emessage = [0xD800, 10]\<rparr>"
proof -
  have "error_wf \<lparr>ecode = js ''MALFORMED'', emessage = [0xD800, 10]\<rparr>"
    by (simp add: error_wf_def isErrorCode_def ERROR_CODES_def)
  then show ?thesis using control_payloads_survive by blast
qed

text \<open>
  STATS and TRACK\_META payloads that fit the size limit survive encoding and decoding; every
  non-negative double is printed and read back exactly.
\<close>

lemma metadata_payloads_survive:
  "(stats_wf s \<and> encodeStats s = Inr b \<longrightarrow> decodeStats b = Inr s)
   \<and> (track_meta_wf m \<and> encodeTrackMeta m = Inr b' \<longrightarrow> decodeTrackMeta b' = Inr m)"
  using stats_codec.enc_dec track_meta_codec.enc_dec by blast

lemma metadata_payloads_survive_example:
  "\<exists>b. encodeTrackMeta \<lparr>title = Some (js ''Nightcall''), artist = None, albumArtUrl = None\<rparr> = Inr b
     \<and> decodeTrackMeta b = Inr \<lparr>title = Some (js ''Nightcall''), artist = None, albumArtUrl = None\<rparr>"
proof -
  let ?m = "\<lparr>title = Some (js ''Nightcall''), artist = None, albumArtUrl = None\<rparr>"
  have "track_meta_wf ?m" by (simp add: track_meta_wf_def opt_len_def)
  moreover have "\<exists>b. encodeTrackMeta ?m = Inr b"
    unfolding encodeTrackMeta_def opt_member_def
    using cost_JStr [of "js ''Nightcall''"]
    by (intro encodeJson_fits order_trans [OF cost_JObj])
      (simp add: MAX_JSON_BYTES_def del: stringify.simps)
  ultimately show ?thesis using metadata_payloads_survive by blast
qed

text \<open>
  A FINGERPRINT is ten bytes and a 64-bit hash with a 16-bit window survives; the decoder
  rejects every other length.
\<close>

lemma fingerprint_survives:
  "length (encodeFingerprint p) = 10
   \<and> (fingerprint_wf p \<longrightarrow> decodeFingerprint (encodeFingerprint p) = Inr p)
   \<and> (length b \<noteq> 10 \<longrightarrow> decodeFingerprint b = Inl (bad (js ''fingerprint length'')))"
  by (intro conjI impI)
    (simp add: encodeFingerprint_layout, erule fingerprint_roundtrip, simp add: decodeFingerprint_def throw_def)

lemma fingerprint_survives_example:
  "decodeFingerprint (encodeFingerprint \<lparr>hash = 2 ^ 63 + 5, windowMs = nnum 1000\<rparr>)
     = Inr \<lparr>hash = 2 ^ 63 + 5, windowMs = nnum 1000\<rparr>
   \<and> decodeFingerprint [1, 2] = Inl (bad (js ''fingerprint length''))"
proof -
  have "fingerprint_wf \<lparr>hash = 2 ^ 63 + 5, windowMs = nnum 1000\<rparr>"
    unfolding fingerprint_wf_def by (auto intro!: exI [of _ 1000])
  then show ?thesis
    using fingerprint_survives [of "\<lparr>hash = 2 ^ 63 + 5, windowMs = nnum 1000\<rparr>" "[1, 2]"] by simp
qed

lemma strField_code: "strField obj k n = Inl e \<Longrightarrow> code e = BAD_PAYLOAD"
  by (auto simp: strField_def bad_def throw_def split: option.splits json.splits if_splits)

lemma decode_tracks_code: "decode_tracks seen raws = Inl e \<Longrightarrow> code e = BAD_PAYLOAD"
proof (induction seen raws arbitrary: e rule: decode_tracks.induct)
  case (2 seen raw rest)
  then show ?case
    by (auto simp: bindR_eq_Inl bad_def throw_def dest: strField_code split: if_splits option.splits)
qed simp

lemma decodeJson_code: "decodeJson b = Inl e \<Longrightarrow> code e = (if length b > MAX_JSON_BYTES then TOO_LARGE else BAD_PAYLOAD)"
  by (auto simp: decodeJson_def throw_def split: if_splits option.splits json.splits)

lemma decodeJson_large: "length b > MAX_JSON_BYTES \<Longrightarrow> \<exists>e. decodeJson b = Inl e"
  by (simp add: decodeJson_def throw_def)

lemma case_arr_Inl:
  "(case v of Some (JArr raws) \<Rightarrow> f raws | _ \<Rightarrow> throw e) = Inl e' \<Longrightarrow> e' = e \<or> (\<exists>raws. v = Some (JArr raws) \<and> f raws = Inl e')"
  by (auto simp: throw_def split: option.splits json.splits)

text \<open>
  C23: every error of the JSON payload decoders is a ProtocolError with code TOO\_LARGE when the
  payload exceeds 4096 bytes and BAD\_PAYLOAD otherwise: a track list decoder never fails in any
  other way.
\<close>

theorem decodeTrackList_errors:
  assumes "decodeTrackList b = Inl e"
  shows "code e = (if length b > MAX_JSON_BYTES then TOO_LARGE else BAD_PAYLOAD)"
proof (cases "decodeJson b")
  case (Inl e')
  with assms show ?thesis using decodeJson_code by (simp add: decodeTrackList_def)
next
  case (Inr obj)
  then have "\<not> length b > MAX_JSON_BYTES" using decodeJson_large by fastforce
  moreover have "code e = BAD_PAYLOAD"
    using assms Inr decode_tracks_code
    by (auto simp: decodeTrackList_def bad_def dest!: case_arr_Inl split: if_splits)
  ultimately show ?thesis by simp
qed

theorem decodeTrackList_errors_witness:
  "\<exists>e. decodeTrackList (replicate 4097 0) = Inl e \<and> code e = TOO_LARGE"
proof -
  obtain e where "decodeTrackList (replicate 4097 0) = Inl e"
    using decodeJson_large [of "replicate 4097 0"] by (auto simp: decodeTrackList_def MAX_JSON_BYTES_def)
  then show ?thesis using decodeTrackList_errors [of "replicate 4097 0" e] by (auto simp: MAX_JSON_BYTES_def)
qed

end
