(* ===== verification/JsUri.thy ===== *)
theory JsUri
  imports JsText
begin

text \<open>
  \<^verbatim>\<open>encodeURIComponent\<close>, used where the relay URLs are built: the unreserved characters stay,
  every other code point becomes the percent-escapes of its UTF-8 bytes, a lone surrogate is a
  \<^verbatim>\<open>URIError\<close> (\<open>None\<close>).
\<close>

definition unreserved :: "nat \<Rightarrow> bool" where
  "unreserved c \<longleftrightarrow>
     65 \<le> c \<and> c \<le> 90 \<or> 97 \<le> c \<and> c \<le> 122 \<or> 48 \<le> c \<and> c \<le> 57
     \<or> List.member [45, 95, 46, 33, 126, 42, 39, 40, 41] c"

definition hex_upper :: "nat \<Rightarrow> codeunit" where
  "hex_upper d = (if d < 10 then word_of_nat (48 + d) else word_of_nat (55 + d))"

definition pct :: "byte \<Rightarrow> jsstring" where
  "pct b = [37, hex_upper (unat b div 16), hex_upper (unat b mod 16)]"

definition uri_cp :: "nat \<Rightarrow> jsstring" where
  "uri_cp c = (if unreserved c then [word_of_nat c] else concat (map pct (utf8_enc c)))"

definition encodeURIComponent :: "jsstring \<Rightarrow> jsstring option" where
  "encodeURIComponent s = (if wf16 s then Some (concat (map uri_cp (utf16_cps s))) else None)"

subsection \<open>ASCII text\<close>

lemma uri_ascii:
  assumes "list_all (\<lambda>u. unat u < 0x80) s"
  shows "wf16 s \<and> utf16_cps s = map unat s"
  using assms
proof (induction s rule: utf16_cps.induct)
  case (3 u v s)
  then show ?case by (auto simp: is_high_def is_low_def unit_cp_def)
qed (auto simp: is_high_def is_low_def unit_cp_def)

lemma encodeURIComponent_ascii:
  "list_all (\<lambda>u. unat u < 0x80) s \<Longrightarrow> encodeURIComponent s = Some (concat (map (uri_cp \<circ> unat) s))"
  using uri_ascii [of s] by (simp add: encodeURIComponent_def)

lemma uri_unreserved:
  "list_all (\<lambda>u. unreserved (unat u)) s \<Longrightarrow> concat (map (uri_cp \<circ> unat) s) = s"
  by (induction s) (auto simp: uri_cp_def)

end
