(* ===== verification/RelayClient.thy ===== *)
theory RelayClient
  imports Messages JsUri
begin

text \<open>
  \<^verbatim>\<open>extension/src/relay/client.ts\<close>: the subscriber's WebSocket client.

  The client's variables (\<open>closed\<close>, \<open>attempt\<close>, \<open>ws\<close>) live beside what it started in the browser:
  its sockets, by the order of their creation, with their states, and the pending timers with
  their waits. Each handler is a function on this state; \<open>relay_step\<close> says when the browser may
  run it. The calls to the \<^verbatim>\<open>events\<close> callbacks are recorded in \<open>emitted\<close>.
\<close>

datatype relay_event =
    OnTrackList "TrackInfo list"
  | OnAudio jsnum Frame
  | OnFingerprint jsnum int jsnum
  | OnTrackMeta jsnum TrackMetaPayload
  | OnError jsstring jsstring
  | OnConnect
  | OnDisconnect bool

definition RECONNECT_BACKOFF_MS :: "nat list" where
  "RECONNECT_BACKOFF_MS = [500, 1000, 2000, 5000, 15000]"

subsection \<open>Dispatch\<close>

text \<open>\<^verbatim>\<open>try { ... decode ...; events.on...() } catch {}\<close>: the event of a payload that decodes.\<close>

definition on_decoded :: "'p result \<Rightarrow> ('p \<Rightarrow> relay_event) \<Rightarrow> relay_event list" where
  "on_decoded r ev = (case catchR r of None \<Rightarrow> [] | Some p \<Rightarrow> [ev p])"

definition handleMessage :: "bytes \<Rightarrow> relay_event list" where
  "handleMessage data =
     (case catchR (decodeFrame data) of
        None \<Rightarrow> []
      | Some frame \<Rightarrow>
          if ftype frame = mt MessageType.TrackList then
            on_decoded (decodeTrackList (payload frame)) OnTrackList
          else if ftype frame = mt AudioOpus then [OnAudio (track frame) frame]
          else if ftype frame = mt Fingerprint then
            on_decoded (decodeFingerprint (payload frame))
              (\<lambda>fp. OnFingerprint (track frame) (hash fp) (windowMs fp))
          else if ftype frame = mt TrackMeta then
            on_decoded (decodeTrackMeta (payload frame)) (OnTrackMeta (track frame))
          else if ftype frame = mt Error then
            on_decoded (decodeError (payload frame)) (\<lambda>e. OnError (ecode e) (emessage e))
          else [])"

subsection \<open>The connection\<close>

datatype sock_state = Connecting | Open | Closing | Gone

record RelayClient =
  closed :: bool
  attempt :: nat
  ws :: "nat option"
  sockets :: "sock_state list"
  timers :: "nat list"
  emitted :: "relay_event list"

text \<open>The URL of the subscription; \<open>None\<close> when \<^verbatim>\<open>encodeURIComponent\<close> throws.\<close>

definition subscribe_url :: "jsstring \<Rightarrow> jsstring \<Rightarrow> jsstring option" where
  "subscribe_url relayURL channelID =
     map_option (\<lambda>c. relayURL @ js ''/subscribe?channel='' @ c) (encodeURIComponent channelID)"

definition open_ws :: "RelayClient \<Rightarrow> RelayClient" where
  "open_ws st =
     (if closed st then st
      else st\<lparr>ws := Some (length (sockets st)), sockets := sockets st @ [Connecting]\<rparr>)"

definition scheduleReconnect :: "RelayClient \<Rightarrow> RelayClient" where
  "scheduleReconnect st =
     (if closed st then st
      else
        let wait = RECONNECT_BACKOFF_MS ! min (attempt st) (length RECONNECT_BACKOFF_MS - 1)
        in st\<lparr>attempt := attempt st + 1, timers := timers st @ [wait]\<rparr>)"

definition ws_onopen :: "nat \<Rightarrow> RelayClient \<Rightarrow> RelayClient" where
  "ws_onopen i st =
     st\<lparr>sockets := (sockets st)[i := Open], attempt := 0, emitted := emitted st @ [OnConnect]\<rparr>"

text \<open>\<open>None\<close> is a text message, which is not an \<^verbatim>\<open>ArrayBuffer\<close>.\<close>

definition ws_onmessage :: "bytes option \<Rightarrow> RelayClient \<Rightarrow> RelayClient" where
  "ws_onmessage data st =
     (case data of
        None \<Rightarrow> st
      | Some bytes \<Rightarrow> st\<lparr>emitted := emitted st @ handleMessage bytes\<rparr>)"

definition ws_onclose :: "nat \<Rightarrow> bool \<Rightarrow> RelayClient \<Rightarrow> RelayClient" where
  "ws_onclose i wasClean st =
     (let st = st\<lparr>sockets := (sockets st)[i := Gone], emitted := emitted st @ [OnDisconnect wasClean], ws := None\<rparr>
      in if \<not> closed st then scheduleReconnect st else st)"

definition timer_fired :: "nat \<Rightarrow> RelayClient \<Rightarrow> RelayClient" where
  "timer_fired k st = open_ws (st\<lparr>timers := take k (timers st) @ drop (Suc k) (timers st)\<rparr>)"

definition connect :: RelayClient where
  "connect = open_ws \<lparr>closed = False, attempt = 0, ws = None, sockets = [], timers = [], emitted = []\<rparr>"

definition close_client :: "RelayClient \<Rightarrow> RelayClient" where
  "close_client st =
     (let st = st\<lparr>closed := True\<rparr>
      in case ws st of
           None \<Rightarrow> st
         | Some i \<Rightarrow> if sockets st ! i = Gone then st else st\<lparr>sockets := (sockets st)[i := Closing]\<rparr>)"

definition isOpen :: "RelayClient \<Rightarrow> bool" where
  "isOpen st = (case ws st of None \<Rightarrow> False | Some i \<Rightarrow> sockets st ! i = Open)"

subsection \<open>What the browser may do\<close>

datatype relay_input =
    SockOpen nat
  | SockMessage nat "bytes option"
  | SockClose nat bool
  | TimerFires nat
  | CloseCall

inductive relay_step :: "RelayClient \<Rightarrow> relay_input \<Rightarrow> RelayClient \<Rightarrow> bool" where
  opened: "i < length (sockets st) \<Longrightarrow> sockets st ! i = Connecting \<Longrightarrow> relay_step st (SockOpen i) (ws_onopen i st)"
| message: "i < length (sockets st) \<Longrightarrow> sockets st ! i = Open \<Longrightarrow> relay_step st (SockMessage i d) (ws_onmessage d st)"
| closed: "i < length (sockets st) \<Longrightarrow> sockets st ! i \<noteq> Gone \<Longrightarrow> relay_step st (SockClose i c) (ws_onclose i c st)"
| timer: "k < length (timers st) \<Longrightarrow> relay_step st (TimerFires k) (timer_fired k st)"
| close_call: "relay_step st CloseCall (close_client st)"

abbreviation relay_run :: "RelayClient \<Rightarrow> RelayClient \<Rightarrow> bool" where
  "relay_run \<equiv> run relay_step"

inductive_cases relay_stepE: "relay_step st ev st'"

lemmas client_defs = open_ws_def scheduleReconnect_def ws_onopen_def ws_onmessage_def ws_onclose_def
  timer_fired_def close_client_def Let_def

text \<open>
  At most one of a socket and a timer is pending, exactly one while the client is not closed,
  and \<open>ws\<close> is the socket that is not gone.
\<close>

definition relay_inv :: "RelayClient \<Rightarrow> bool" where
  "relay_inv st \<longleftrightarrow>
     (\<forall>i < length (sockets st). sockets st ! i \<noteq> Gone \<longleftrightarrow> ws st = Some i)
     \<and> (\<forall>i. ws st = Some i \<longrightarrow> i < length (sockets st))
     \<and> (ws st = None \<and> length (timers st) \<le> 1 \<or> ws st \<noteq> None \<and> timers st = [])
     \<and> (\<not> closed st \<longrightarrow> ws st \<noteq> None \<or> timers st \<noteq> [])
     \<and> (\<forall>w\<in>set (timers st). 0 < attempt st \<and> w = RECONNECT_BACKOFF_MS ! min (attempt st - 1) 4)"

lemma length_backoff [simp]: "length RECONNECT_BACKOFF_MS = 5"
  by (simp add: RECONNECT_BACKOFF_MS_def)

lemma relay_inv_connect: "relay_inv connect"
  by (simp add: relay_inv_def connect_def open_ws_def)

lemma relay_inv_step:
  assumes "relay_inv st" "relay_step st ev st'"
  shows "relay_inv st'"
  using assms(2)
proof cases
  case (opened i)
  with assms(1) show ?thesis by (auto simp: relay_inv_def ws_onopen_def nth_list_update)
next
  case (message i d)
  with assms(1) show ?thesis by (cases d) (auto simp: relay_inv_def ws_onmessage_def)
next
  case (closed i c)
  then have "ws st = Some i" "timers st = []" using assms(1) by (auto simp: relay_inv_def)
  with assms(1) closed show ?thesis
    by (auto simp: relay_inv_def ws_onclose_def scheduleReconnect_def Let_def nth_list_update)
next
  case (timer k)
  then have "ws st = None" "length (timers st) = 1" "k = 0" using assms(1) by (auto simp: relay_inv_def)
  with assms(1) timer show ?thesis
    by (auto simp: relay_inv_def timer_fired_def open_ws_def nth_append)
next
  case close_call
  with assms(1) show ?thesis
    by (auto simp: relay_inv_def close_client_def Let_def nth_list_update split: option.split)
qed

interpretation client: kept relay_step relay_inv
  by unfold_locales (rule relay_inv_step)

subsection \<open>After close\<close>

lemma closed_step:
  assumes "closed st" "relay_step st ev st'"
  shows "closed st' \<and> length (sockets st') = length (sockets st) \<and> length (timers st') \<le> length (timers st)"
  using assms(2,1) by cases (auto simp: client_defs split: option.split)

interpretation closed_client: kept relay_step
  "\<lambda>st. closed st \<and> length (sockets st) = n \<and> length (timers st) \<le> m" for n m
  by unfold_locales (use closed_step in fastforce)

subsection \<open>Backoff\<close>

text \<open>One failed attempt: the socket closes before it opens, then the timer fires.\<close>

definition failed_attempt :: "RelayClient \<Rightarrow> RelayClient" where
  "failed_attempt st = timer_fired 0 (ws_onclose (length (sockets st) - 1) False st)"

text \<open>A client that is waiting for its newest socket.\<close>

definition dialling :: "nat \<Rightarrow> RelayClient \<Rightarrow> bool" where
  "dialling n st \<longleftrightarrow>
     \<not> closed st \<and> attempt st = n \<and> timers st = [] \<and> sockets st \<noteq> [] \<and> ws st = Some (length (sockets st) - 1)
     \<and> last (sockets st) = Connecting"

lemma failed_attempt_dialling: "dialling n st \<Longrightarrow> dialling (Suc n) (failed_attempt st)"
  by (auto simp: dialling_def failed_attempt_def client_defs)

lemma failed_attempts: "dialling m st \<Longrightarrow> dialling (m + n) ((failed_attempt ^^ n) st)"
  by (induction n) (auto simp: failed_attempt_dialling)

lemma failed_attempt_steps:
  assumes "dialling n st"
  shows "relay_run st (failed_attempt st)"
proof -
  let ?i = "length (sockets st) - 1"
  have "sockets st ! ?i = Connecting" "?i < length (sockets st)"
    using assms by (auto simp: dialling_def last_conv_nth)
  then have 1: "relay_step st (SockClose ?i False) (ws_onclose ?i False st)" by (auto intro: relay_step.closed)
  moreover have "0 < length (timers (ws_onclose ?i False st))"
    using assms by (simp add: dialling_def client_defs)
  then have "relay_step (ws_onclose ?i False st) (TimerFires 0) (failed_attempt st)"
    unfolding failed_attempt_def by (rule relay_step.timer)
  ultimately show ?thesis by (meson run_refl run_step)
qed

lemma connect_dialling: "dialling 0 connect"
  by (simp add: dialling_def connect_def open_ws_def)

lemma failed_dialling: "dialling n ((failed_attempt ^^ n) connect)"
  using failed_attempts [OF connect_dialling, of n] by simp

lemma failed_run: "relay_run connect ((failed_attempt ^^ n) connect)"
proof (induction n)
  case (Suc n)
  then show ?case using run_trans [OF failed_attempt_steps [OF failed_dialling] Suc] by simp
qed (simp add: run_refl)

lemma next_wait:
  "dialling n st \<Longrightarrow> timers (ws_onclose i c st) = [RECONNECT_BACKOFF_MS ! min n 4]"
  by (simp add: dialling_def client_defs)

subsection \<open>What is delivered\<close>

lemma on_decoded_Inr [simp]: "on_decoded (Inr p) ev = [ev p]"
  by (simp add: on_decoded_def)

lemma on_decoded_mem: "e \<in> set (on_decoded r ev) \<longleftrightarrow> (\<exists>p. r = Inr p \<and> e = ev p)"
  by (cases r) (auto simp: on_decoded_def throw_def split: option.splits)

text \<open>A message in a frame arrives as its event.\<close>

lemma handle_encoded:
  assumes "frame_wf f" "encodeFrame f = Inr b"
  shows "handleMessage b =
    (if ftype f = mt MessageType.TrackList then on_decoded (decodeTrackList (payload f)) OnTrackList
     else if ftype f = mt AudioOpus then [OnAudio (track f) f]
     else if ftype f = mt Fingerprint then
       on_decoded (decodeFingerprint (payload f)) (\<lambda>fp. OnFingerprint (track f) (hash fp) (windowMs fp))
     else if ftype f = mt TrackMeta then on_decoded (decodeTrackMeta (payload f)) (OnTrackMeta (track f))
     else if ftype f = mt Error then on_decoded (decodeError (payload f)) (\<lambda>e. OnError (ecode e) (emessage e))
     else [])"
  using frame_codec.enc_dec [OF assms] by (simp add: handleMessage_def)

text \<open>Only what the decoders accept is delivered.\<close>

fun event_ok :: "relay_event \<Rightarrow> bool" where
  "event_ok (OnTrackList ts) = track_list_wf ts"
| "event_ok (OnAudio i f) = (frame_wf f \<and> i = track f \<and> ftype f = mt AudioOpus)"
| "event_ok (OnFingerprint i h w) = (fingerprint_wf \<lparr>hash = h, windowMs = w\<rparr>)"
| "event_ok (OnTrackMeta i m) = track_meta_wf m"
| "event_ok (OnError c m) = error_wf \<lparr>ecode = c, emessage = m\<rparr>"
| "event_ok OnConnect = True"
| "event_ok (OnDisconnect c) = True"

lemma payload_eta: "\<lparr>hash = hash p, windowMs = windowMs p\<rparr> = p" "\<lparr>ecode = ecode e, emessage = emessage e\<rparr> = e"
  by simp_all

lemma handleMessage_ok: "e \<in> set (handleMessage b) \<Longrightarrow> event_ok e"
proof (cases "decodeFrame b")
  case (Inr f)
  assume "e \<in> set (handleMessage b)"
  with Inr frame_codec.dec_wf [OF Inr] show ?thesis
    by (auto simp: handleMessage_def on_decoded_mem payload_eta split: if_splits
        dest: decodeTrackList_wf decodeFingerprint_wf decodeTrackMeta_wf decodeError_wf)
qed (simp add: handleMessage_def)

lemma handleMessage_length: "length (handleMessage b) \<le> 1"
  by (auto simp: handleMessage_def on_decoded_def split: option.splits)

lemma emitted_ok_step:
  assumes "list_all event_ok (emitted st)" "relay_step st ev st'"
  shows "list_all event_ok (emitted st')"
  using assms(2,1) handleMessage_ok
  by cases (auto simp: client_defs list_all_iff split: option.splits)

interpretation deliveries: kept relay_step "\<lambda>st. list_all event_ok (emitted st)"
  by unfold_locales (rule emitted_ok_step)

text \<open>A closed client delivers nothing but the end of its connection.\<close>

definition silent :: "relay_event list \<Rightarrow> RelayClient \<Rightarrow> bool" where
  "silent es r \<longleftrightarrow>
     (\<forall>i < length (sockets r). sockets r ! i = Closing \<or> sockets r ! i = Gone) \<and> closed r
     \<and> (\<exists>ds. emitted r = es @ map OnDisconnect ds)"

lemma nth_upd: "i < length xs \<Longrightarrow> xs[j := v] ! i = (if i = j then v else xs ! i)"
  by simp

lemma silent_step:
  assumes "silent es r" "relay_step r ev r'"
  shows "silent es r'"
  using assms(2)
proof cases
  case (closed i c)
  obtain ds where "emitted r = es @ map OnDisconnect ds" using assms(1) by (auto simp: silent_def)
  then have "emitted r' = es @ map OnDisconnect (ds @ [c])" using closed assms(1) by (simp add: silent_def ws_onclose_def)
  with closed assms(1) show ?thesis unfolding silent_def
    by (auto simp: ws_onclose_def nth_list_update simp del: map_append intro!: exI [of _ "ds @ [c]"])
next
  case (timer k)
  with assms(1) show ?thesis by (simp add: silent_def timer_fired_def open_ws_def)
next
  case close_call
  with assms(1) show ?thesis
    by (auto simp: silent_def close_client_def Let_def nth_upd split: option.split)
next
  case (opened i)
  with assms(1) show ?thesis by (fastforce simp: silent_def)
next
  case (message i d)
  with assms(1) show ?thesis by (fastforce simp: silent_def)
qed

interpretation silence: kept relay_step "silent es" for es
  by unfold_locales (rule silent_step)

lemma close_silent: "relay_inv r \<Longrightarrow> silent (emitted r) (close_client r)"
  by (auto simp: relay_inv_def silent_def close_client_def Let_def nth_list_update split: option.split
      intro: exI [of _ "[]"])

subsection \<open>Winding down\<close>

text \<open>
  What the browser still owes the client: the close event of every socket that is not gone and
  every timer. With the invariant this is at most one event.
\<close>

definition owed :: "RelayClient \<Rightarrow> nat" where
  "owed st = card {i. i < length (sockets st) \<and> sockets st ! i \<noteq> Gone} + length (timers st)"

lemma owed_inv:
  assumes "relay_inv st"
  shows "owed st = (if ws st = None then 0 else 1) + length (timers st)"
proof -
  have "{i. i < length (sockets st) \<and> sockets st ! i \<noteq> Gone} = set_option (ws st)"
    using assms by (cases "ws st") (auto simp: relay_inv_def)
  then show ?thesis by (cases "ws st") (simp_all add: owed_def)
qed

definition shut :: "RelayClient \<Rightarrow> bool" where
  "shut st \<longleftrightarrow> relay_inv st \<and> (\<exists>es. silent es st)"

lemma shut_step: "shut st \<Longrightarrow> relay_step st ev st' \<Longrightarrow> shut st'"
  unfolding shut_def using relay_inv_step silent_step by blast

lemma shut_owes:
  assumes "shut st" "ev \<noteq> CloseCall" "relay_step st ev st'"
  shows "owed st' < owed st"
proof -
  have i: "relay_inv st" "relay_inv st'" "closed st"
    and s: "\<forall>i < length (sockets st). sockets st ! i = Closing \<or> sockets st ! i = Gone"
    using assms relay_inv_step by (auto simp: shut_def silent_def)
  from assms(3) show ?thesis
  proof cases
    case (closed j c)
    then have "ws st = Some j" "timers st = []" using i(1) by (auto simp: relay_inv_def)
    with closed i show ?thesis by (simp add: owed_inv ws_onclose_def)
  next
    case (timer k)
    with i show ?thesis by (simp add: owed_inv timer_fired_def open_ws_def)
  qed (use assms(2) s in force)+
qed

interpretation shutting: measured relay_step shut "\<lambda>ev. ev \<noteq> CloseCall" owed
  by unfold_locales (rule shut_step shut_owes; assumption)+

lemma close_shut: "relay_inv st \<Longrightarrow> shut (close_client st)"
  unfolding shut_def using close_silent relay_inv_step [OF _ relay_step.close_call] by blast

lemma owed_comes:
  assumes "relay_inv st" "0 < owed st"
  shows "\<exists>ev st'. ev \<noteq> CloseCall \<and> relay_step st ev st'"
proof (cases "ws st")
  case None
  then have "0 < length (timers st)" using assms by (simp add: owed_inv)
  from relay_step.timer [OF this] show ?thesis by blast
next
  case (Some i)
  then have "i < length (sockets st)" "sockets st ! i \<noteq> Gone" using assms(1) by (auto simp: relay_inv_def)
  from relay_step.closed [OF this] show ?thesis by blast
qed

subsection \<open>Reconnecting\<close>

lemma dial_opens:
  assumes "i < length (sockets st)" "sockets st ! i = Connecting" "ws st = Some i"
  shows "relay_run st (ws_onopen i st) \<and> isOpen (ws_onopen i st)"
  using assms relay_step.opened [OF assms(1,2)] by (auto intro: run_single simp: isOpen_def ws_onopen_def)

lemma wait_opens:
  assumes "\<not> closed st" "timers st \<noteq> []"
  shows "\<exists>st'. relay_run st st' \<and> isOpen st'"
proof -
  have "relay_step st (TimerFires 0) (timer_fired 0 st)" using assms(2) by (intro relay_step.timer) simp
  then have "relay_run st (timer_fired 0 st)" by (rule run_single)
  moreover have "relay_run (timer_fired 0 st) (ws_onopen (length (sockets st)) (timer_fired 0 st))
      \<and> isOpen (ws_onopen (length (sockets st)) (timer_fired 0 st))"
    using assms(1) by (intro dial_opens) (simp_all add: timer_fired_def open_ws_def)
  then have "\<exists>st'. relay_run (timer_fired 0 st) st' \<and> isOpen st'" by (rule exI)
  ultimately show ?thesis by (rule run_then)
qed

subsection \<open>Properties\<close>

text \<open>
  C9: in every state the client can reach, at most one of a live socket and a pending reconnection
  exists, \<open>ws\<close> is exactly the live socket, and while the client is not closed there is always one
  of the two, so it never stops trying; a pending wait is the entry of the backoff table for the
  number of failures.
\<close>

theorem client_invariant: "relay_run connect st \<Longrightarrow> relay_inv st"
  by (rule client.run_inv [OF _ relay_inv_connect])

theorem client_invariant_witness: "relay_inv (failed_attempt connect)"
  by (rule client_invariant) (rule failed_attempt_steps [OF connect_dialling])

text \<open>
  After \<^verbatim>\<open>close()\<close> no socket is ever opened again and no reconnection is scheduled, whatever
  the browser does.
\<close>

lemma closed_for_good:
  assumes "relay_run (close_client st) st'"
  shows "closed st' \<and> length (sockets st') = length (sockets st) \<and> length (timers st') \<le> length (timers st)"
proof -
  have "closed (close_client st)" "length (sockets (close_client st)) = length (sockets st)"
    "timers (close_client st) = timers st"
    by (auto simp: close_client_def Let_def split: option.split)
  with closed_client.run_inv [OF assms, of "length (sockets st)" "length (timers st)"] show ?thesis by simp
qed

lemma closed_for_good_example:
  "length (sockets (ws_onclose 0 True (close_client connect))) = 1"
proof -
  have "relay_step (close_client connect) (SockClose 0 True) (ws_onclose 0 True (close_client connect))"
    by (rule relay_step.closed) (simp_all add: close_client_def connect_def open_ws_def)
  then have "relay_run (close_client connect) (ws_onclose 0 True (close_client connect))"
    by (rule run_single)
  from closed_for_good [OF this] show ?thesis by (simp add: connect_def open_ws_def)
qed

text \<open>
  C26: the backoff schedule. After \<open>n\<close> failed attempts in a row (all of them reachable behaviour) the
  next failure waits 500, 1000, 2000, 5000 and from then on 15000 milliseconds, and a successful
  connection starts over.
\<close>

theorem backoff_schedule:
  "relay_run connect ((failed_attempt ^^ n) connect)
   \<and> timers (ws_onclose i c ((failed_attempt ^^ n) connect))
       = [if n = 0 then 500 else if n = 1 then 1000 else if n = 2 then 2000 else if n = 3 then 5000 else 15000]
   \<and> attempt (ws_onopen j ((failed_attempt ^^ n) connect)) = 0"
proof -
  note d = failed_dialling [of n]
  note failed_run [of n]
  moreover have "RECONNECT_BACKOFF_MS ! min n 4
      = (if n = 0 then 500 else if n = 1 then 1000 else if n = 2 then 2000 else if n = 3 then 5000 else 15000)"
  proof -
    consider "n = 0" | "n = 1" | "n = 2" | "n = 3" | "4 \<le> n" by linarith
    then show ?thesis by cases (simp_all add: RECONNECT_BACKOFF_MS_def)
  qed
  ultimately show ?thesis using next_wait [OF d] by (simp add: ws_onopen_def)
qed

text \<open>
  C27: whatever bytes arrive, a message causes at most one callback, and every callback of any run
  carries validated data: only well-formed track lists, audio frames, fingerprints, metadata and
  error codes reach the application.
\<close>

theorem delivered_is_valid:
  "length (handleMessage b) \<le> 1 \<and> (relay_run connect st \<longrightarrow> list_all event_ok (emitted st))"
  using handleMessage_length deliveries.run_inv [of connect st] by (simp add: connect_def open_ws_def)

theorem delivered_is_valid_witness: "list_all event_ok (emitted (failed_attempt connect))"
  using delivered_is_valid [of "[]" "failed_attempt connect"] failed_attempt_steps [OF connect_dialling] by blast

text \<open>
  C24: a closed client comes to rest. After \<^verbatim>\<open>close()\<close> in any reachable state the browser has at most
  one event left for the client, every event settles it, so there is no endless sequence of them;
  as long as the event is due it can come, and afterwards there is neither a socket nor a timer.
\<close>

theorem close_winds_down:
  assumes "relay_run connect st"
  shows "Wellfounded.accp (\<lambda>y x. \<exists>ev. ev \<noteq> CloseCall \<and> relay_step x ev y) (close_client st)
    \<and> (\<forall>st'. relay_run (close_client st) st' \<longrightarrow>
         owed st' \<le> 1 \<and> (owed st' = 0 \<longleftrightarrow> \<not> (\<exists>ev y. ev \<noteq> CloseCall \<and> relay_step st' ev y))
         \<and> (owed st' = 0 \<longrightarrow> ws st' = None \<and> timers st' = []))"
proof -
  have s: "shut (close_client st)" by (rule close_shut) (rule client.run_inv [OF assms relay_inv_connect])
  have "owed st' \<le> 1 \<and> (owed st' = 0 \<longleftrightarrow> \<not> (\<exists>ev y. ev \<noteq> CloseCall \<and> relay_step st' ev y))
      \<and> (owed st' = 0 \<longrightarrow> ws st' = None \<and> timers st' = [])" if r: "relay_run (close_client st) st'" for st'
  proof -
    have s': "shut st'" by (rule shutting.run_inv [OF r s])
    then have i: "relay_inv st'" by (simp add: shut_def)
    then have "owed st' \<le> 1" "owed st' = 0 \<longrightarrow> ws st' = None \<and> timers st' = []"
      by (auto simp: owed_inv relay_inv_def)
    moreover have "owed st' = 0 \<longleftrightarrow> \<not> (\<exists>ev y. ev \<noteq> CloseCall \<and> relay_step st' ev y)"
      using owed_comes [OF i] shut_owes [OF s'] by fastforce
    ultimately show ?thesis by blast
  qed
  with shutting.no_endless_run [OF s] show ?thesis by blast
qed

theorem close_winds_down_witness:
  "Wellfounded.accp (\<lambda>y x. \<exists>ev. ev \<noteq> CloseCall \<and> relay_step x ev y) (close_client connect)
   \<and> owed (close_client connect) = 1"
proof -
  have "{i. i < length (sockets (close_client connect)) \<and> sockets (close_client connect) ! i \<noteq> Gone} = {0}"
    by (auto simp: close_client_def connect_def open_ws_def)
  then have "owed (close_client connect) = 1" by (simp add: owed_def close_client_def connect_def open_ws_def)
  with close_winds_down [OF run_refl] show ?thesis by blast
qed

text \<open>
  C25: the client never gives up. From every reachable state in which it was not closed, whatever
  failures came before, there is a continuation in which it has an open socket; the page's only
  part in it is to wait.
\<close>

theorem client_reconnects:
  assumes "relay_run connect st" "\<not> closed st"
  shows "\<exists>st'. relay_run st st' \<and> isOpen st'"
proof (cases "ws st")
  case None
  with assms(2) client.run_inv [OF assms(1) relay_inv_connect] have "timers st \<noteq> []" by (simp add: relay_inv_def)
  with assms(2) show ?thesis by (rule wait_opens)
next
  case (Some i)
  then have i: "i < length (sockets st)" "sockets st ! i \<noteq> Gone"
    using client.run_inv [OF assms(1) relay_inv_connect] by (auto simp: relay_inv_def)
  show ?thesis
  proof (cases "sockets st ! i")
    case Connecting
    from dial_opens [OF i(1) this Some] show ?thesis by (rule exI)
  next
    case Open
    then have "isOpen st" by (simp add: isOpen_def Some)
    with run_refl [of relay_step st] show ?thesis by (intro exI [of _ st] conjI)
  next
    case Closing
    have "relay_run st (ws_onclose i False st)" by (rule run_single) (rule relay_step.closed [OF i])
    moreover have "\<exists>st'. relay_run (ws_onclose i False st) st' \<and> isOpen st'"
      using assms(2) by (intro wait_opens) (simp_all add: client_defs)
    ultimately show ?thesis by (rule run_then)
  qed (use i in simp)
qed

theorem client_reconnects_witness:
  "\<exists>st'. relay_run ((failed_attempt ^^ 7) connect) st' \<and> isOpen st'"
proof (rule client_reconnects)
  show "\<not> closed ((failed_attempt ^^ 7) connect)" using failed_dialling unfolding dialling_def by blast
  show "relay_run connect ((failed_attempt ^^ 7) connect)" by (rule failed_run)
qed

end
