(* ===== verification/Prefs.thy ===== *)
theory Prefs
  imports Categories JsNumber
begin

text \<open>
  \<^verbatim>\<open>extension/src/store/prefs.ts\<close>: the two-tier preference store.

  A dictionary object (\<^verbatim>\<open>Record<string, ChannelSetting>\<close>) is the map of its own properties;
  reading a property also finds what every plain object inherits from \<^verbatim>\<open>Object.prototype\<close>,
  which \<open>js_lookup\<close> writes out because a track slug may be one of those names. The extension's
  storage area is a map from keys to stored items, absent when \<^verbatim>\<open>chrome.storage\<close> is.

  Results: the effective setting is the documented precedence for every valid slug but
  \<^verbatim>\<open>constructor\<close>, the streamer and global keys never collide, only preset categories reach the
  global scope, and what is saved is what is loaded.
\<close>

subsection \<open>Dictionary objects\<close>

type_synonym 'v dict = "jsstring \<rightharpoonup> 'v"

datatype 'v js_prop = Own 'v | Inherited | Undefined

definition OBJECT_PROTOTYPE :: "jsstring list" where
  "OBJECT_PROTOTYPE =
     [js ''constructor'', js ''__defineGetter__'', js ''__defineSetter__'', js ''hasOwnProperty'',
      js ''__lookupGetter__'', js ''__lookupSetter__'', js ''isPrototypeOf'', js ''propertyIsEnumerable'',
      js ''toString'', js ''valueOf'', js ''__proto__'', js ''toLocaleString'']"

definition js_lookup :: "'v dict \<Rightarrow> jsstring \<Rightarrow> 'v js_prop" where
  "js_lookup d k =
     (case d k of
        Some v \<Rightarrow> Own v
      | None \<Rightarrow> if List.member OBJECT_PROTOTYPE k then Inherited else Undefined)"

subsection \<open>Settings\<close>

text \<open>
  A field is \<open>None\<close> where the object has no such property: \<^verbatim>\<open>undefined\<close>. The settings the
  extension makes have all three, but a function found on the prototype chain has none.
\<close>

record ChannelSetting =
  gain :: "jsnum option"
  muted :: "bool option"
  permanentlyOff :: "bool option"

type_synonym prefs = "ChannelSetting dict"

definition DEFAULT :: ChannelSetting where
  "DEFAULT = \<lparr>gain = Some (Fin (1 / 2)), muted = Some False, permanentlyOff = Some False\<rparr>"

definition no_fields :: ChannelSetting where
  "no_fields = \<lparr>gain = None, muted = None, permanentlyOff = None\<rparr>"

text \<open>\<^verbatim>\<open>const v = dict[key]; if (v) ...\<close>: the setting found, if it is truthy (objects and functions are).\<close>

definition truthy_setting :: "ChannelSetting js_prop \<Rightarrow> ChannelSetting option" where
  "truthy_setting p = (case p of Own s \<Rightarrow> Some s | Inherited \<Rightarrow> Some no_fields | Undefined \<Rightarrow> None)"

definition effectiveSetting :: "jsstring \<Rightarrow> jsstring \<Rightarrow> prefs \<Rightarrow> prefs \<Rightarrow> ChannelSetting" where
  "effectiveSetting trackSlug category streamer global =
     (case truthy_setting (js_lookup streamer trackSlug) of
        Some fromStreamer \<Rightarrow> fromStreamer
      | None \<Rightarrow>
          if category \<noteq> js ''custom'' then
            (case truthy_setting (js_lookup global category) of
               Some fromGlobal \<Rightarrow> fromGlobal
             | None \<Rightarrow> DEFAULT)
          else DEFAULT)"

subsection \<open>Storage\<close>

datatype stored = PrefsItem prefs | TextItem jsstring

type_synonym storage = "stored dict option"

definition GLOBAL_KEY :: jsstring where
  "GLOBAL_KEY = js ''prefs.global''"

definition STREAMER_KEY_PREFIX :: jsstring where
  "STREAMER_KEY_PREFIX = js ''prefs.streamer.''"

definition get_item :: "storage \<Rightarrow> jsstring \<Rightarrow> stored \<Rightarrow> stored" where
  "get_item st key fallback =
     (case st of
        None \<Rightarrow> fallback
      | Some items \<Rightarrow> (case items key of None \<Rightarrow> fallback | Some v \<Rightarrow> v))"

definition set_item :: "storage \<Rightarrow> jsstring \<Rightarrow> stored \<Rightarrow> storage" where
  "set_item st key value = (case st of None \<Rightarrow> None | Some items \<Rightarrow> Some (items(key \<mapsto> value)))"

text \<open>
  The cast \<^verbatim>\<open>items[key] as T\<close>. Under a preferences key there is never a text
  (\<open>storage_typed\<close> below is kept by every writer).
\<close>

definition as_prefs :: "stored \<Rightarrow> prefs" where
  "as_prefs v = (case v of PrefsItem p \<Rightarrow> p | TextItem _ \<Rightarrow> Map.empty)"

definition loadGlobal :: "storage \<Rightarrow> prefs" where
  "loadGlobal st = as_prefs (get_item st GLOBAL_KEY (PrefsItem Map.empty))"

definition loadStreamer :: "storage \<Rightarrow> jsstring \<Rightarrow> prefs" where
  "loadStreamer st channelID = as_prefs (get_item st (STREAMER_KEY_PREFIX @ channelID) (PrefsItem Map.empty))"

definition saveStreamer :: "storage \<Rightarrow> jsstring \<Rightarrow> prefs \<Rightarrow> storage" where
  "saveStreamer st channelID p = set_item st (STREAMER_KEY_PREFIX @ channelID) (PrefsItem p)"

definition saveGlobalCategory :: "storage \<Rightarrow> jsstring \<Rightarrow> ChannelSetting \<Rightarrow> storage" where
  "saveGlobalCategory st category setting =
     (if \<not> isPresetCategory category then st
      else
        let all = loadGlobal st;
            all = all(category \<mapsto> setting)
        in set_item st GLOBAL_KEY (PrefsItem all))"

declare js_Cons [simp del]

subsection \<open>The contract of a key-value area\<close>

locale kv_area =
  fixes read :: "'s \<Rightarrow> 'k \<Rightarrow> 'v option"
    and put :: "'s \<Rightarrow> 'k \<Rightarrow> 'v \<Rightarrow> 's"
    and ready :: "'s \<Rightarrow> bool"
  assumes read_write: "ready s \<Longrightarrow> read (put s k v) k' = (if k' = k then Some v else read s k')"
    and ready_write: "ready (put s k v) = ready s"
    and write_unready: "\<not> ready s \<Longrightarrow> put s k v = s"
begin

lemma read_write_other: "k' \<noteq> k \<Longrightarrow> read (put s k v) k' = read s k'"
  by (cases "ready s") (simp_all add: read_write write_unready)

lemma last_write_wins: "ready s \<Longrightarrow> read (put (put s k v) k w) k' = read (put s k w) k'"
  by (simp add: read_write ready_write)

lemma writes_commute:
  "k \<noteq> l \<Longrightarrow> ready s \<Longrightarrow> read (put (put s k v) l w) k' = read (put (put s l w) k v) k'"
  by (simp add: read_write ready_write)

end

definition item_of :: "storage \<Rightarrow> jsstring \<Rightarrow> stored option" where
  "item_of st key = Option.bind st (\<lambda>items. items key)"

interpretation storage_area: kv_area item_of set_item "\<lambda>st. st \<noteq> None"
  by unfold_locales (auto simp: item_of_def set_item_def split: option.splits)

lemma get_item_of: "get_item st key d = (case item_of st key of None \<Rightarrow> d | Some v \<Rightarrow> v)"
  by (simp add: get_item_def item_of_def split: option.split)

subsection \<open>Keys\<close>

lemma streamer_key_inj [simp]: "STREAMER_KEY_PREFIX @ a = STREAMER_KEY_PREFIX @ b \<longleftrightarrow> a = b"
  by simp

lemma take_js [simp]: "take n (js s) = js (take n s)"
  by (simp add: js_def take_map)

lemma keys_differ [simp]: "STREAMER_KEY_PREFIX @ a \<noteq> GLOBAL_KEY" "GLOBAL_KEY \<noteq> STREAMER_KEY_PREFIX @ a"
proof -
  have "take 12 (STREAMER_KEY_PREFIX @ a) \<noteq> take 12 GLOBAL_KEY"
    by (simp add: STREAMER_KEY_PREFIX_def GLOBAL_KEY_def)
  then show "STREAMER_KEY_PREFIX @ a \<noteq> GLOBAL_KEY" "GLOBAL_KEY \<noteq> STREAMER_KEY_PREFIX @ a" by metis+
qed

text \<open>Preferences keys hold preferences.\<close>

definition prefs_key :: "jsstring \<Rightarrow> bool" where
  "prefs_key k \<longleftrightarrow> k = GLOBAL_KEY \<or> (\<exists>c. k = STREAMER_KEY_PREFIX @ c)"

definition storage_typed :: "storage \<Rightarrow> bool" where
  "storage_typed st \<longleftrightarrow> (\<forall>k t. prefs_key k \<longrightarrow> item_of st k \<noteq> Some (TextItem t))"

lemma storage_typed_set:
  "storage_typed st \<Longrightarrow> (\<exists>p. v = PrefsItem p) \<or> \<not> prefs_key k \<Longrightarrow> storage_typed (set_item st k v)"
  by (cases st) (auto simp: storage_typed_def set_item_def item_of_def split: if_splits)

lemma saves_typed:
  "storage_typed st \<Longrightarrow> storage_typed (saveStreamer st c p)"
  "storage_typed st \<Longrightarrow> storage_typed (saveGlobalCategory st cat s)"
  by (auto simp: saveStreamer_def saveGlobalCategory_def Let_def intro: storage_typed_set)

lemma load_saveStreamer:
  "st \<noteq> None \<Longrightarrow> loadStreamer (saveStreamer st c p) c' = (if c' = c then p else loadStreamer st c')"
  "loadGlobal (saveStreamer st c p) = loadGlobal st"
  by (auto simp: loadStreamer_def loadGlobal_def saveStreamer_def get_item_of as_prefs_def
      storage_area.read_write storage_area.read_write_other)

lemma load_saveGlobal:
  "st \<noteq> None \<Longrightarrow> loadGlobal (saveGlobalCategory st cat s)
     = (if isPresetCategory cat then (loadGlobal st)(cat \<mapsto> s) else loadGlobal st)"
  "loadStreamer (saveGlobalCategory st cat s) c = loadStreamer st c"
  by (auto simp: loadStreamer_def loadGlobal_def saveGlobalCategory_def get_item_of as_prefs_def Let_def
      storage_area.read_write storage_area.read_write_other)

subsection \<open>Slugs and the prototype chain\<close>

lemma inherited_slug: "isValidSlug k \<Longrightarrow> List.member OBJECT_PROTOTYPE k \<longleftrightarrow> k = js ''constructor''"
proof -
  assume "isValidSlug k"
  then have "list_all slug_char k" by (simp add: isValidSlug_rule slug_rule_def)
  then show ?thesis
    by (auto simp: OBJECT_PROTOTYPE_def js_Cons slug_char_def in_class_def alnum_class_def word_le_nat_alt)
qed

lemma inherited_preset: "isPresetCategory c \<Longrightarrow> \<not> List.member OBJECT_PROTOTYPE c"
  by (auto simp: isPresetCategory_def PRESET_CATEGORIES_def OBJECT_PROTOTYPE_def)

text \<open>The documented precedence: per-streamer override, then the global preset default, then DEFAULT.\<close>

definition precedence :: "jsstring \<Rightarrow> jsstring \<Rightarrow> prefs \<Rightarrow> prefs \<Rightarrow> ChannelSetting" where
  "precedence s c streamer global =
     (case streamer s of
        Some x \<Rightarrow> x
      | None \<Rightarrow> (case (if isPresetCategory c then global c else None) of Some x \<Rightarrow> x | None \<Rightarrow> DEFAULT))"

lemma js_lookup_plain:
  "\<not> List.member OBJECT_PROTOTYPE k \<Longrightarrow> truthy_setting (js_lookup d k) = d k"
  by (simp add: js_lookup_def truthy_setting_def split: option.split)

lemma custom_not_preset [simp]: "\<not> isPresetCategory (js ''custom'')"
  by (simp add: isPresetCategory_def PRESET_CATEGORIES_def)

lemma effectiveSetting_precedence:
  assumes "\<not> List.member OBJECT_PROTOTYPE s" "c = CUSTOM_CATEGORY \<or> isPresetCategory c"
  shows "effectiveSetting s c streamer global = precedence s c streamer global"
  using assms inherited_preset [of c]
  by (auto simp: effectiveSetting_def precedence_def js_lookup_plain CUSTOM_CATEGORY_def split: option.split)

subsection \<open>Properties\<close>

text \<open>
  C31: for every valid slug but \<^verbatim>\<open>constructor\<close> and every category, the effective setting is the
  documented precedence: the per-streamer override if there is one, else the global setting of a
  preset category, else the default.
\<close>

theorem effective_precedence:
  assumes "isValidSlug s" "s \<noteq> js ''constructor''" "c = CUSTOM_CATEGORY \<or> isPresetCategory c"
  shows "effectiveSetting s c streamer global = precedence s c streamer global"
  using assms inherited_slug [of s] by (intro effectiveSetting_precedence) simp_all

theorem effective_precedence_witness:
  "effectiveSetting (js ''mic'') (js ''mic'') Map.empty [js ''mic'' \<mapsto> no_fields]
     = precedence (js ''mic'') (js ''mic'') Map.empty [js ''mic'' \<mapsto> no_fields]
   \<and> precedence (js ''mic'') (js ''mic'') Map.empty [js ''mic'' \<mapsto> no_fields] = no_fields"
proof -
  have "isPresetCategory (js ''mic'')" by (simp add: isPresetCategory_def PRESET_CATEGORIES_def)
  moreover have "isValidSlug (js ''mic'')"
    by (simp add: isValidSlug_rule slug_rule_def slug_char_def js_Cons in_class_def alnum_class_def word_le_nat_alt)
  ultimately show ?thesis
    using effective_precedence [of "js ''mic''" "js ''mic''" Map.empty "[js ''mic'' \<mapsto> no_fields]"]
    by (simp add: precedence_def)
qed

text \<open>
  With storage available, what is saved for a streamer is what is loaded for that streamer and
  no one else's preferences change; a global setting is stored for a preset category and dropped
  for any other; the two scopes never overwrite each other.
\<close>

lemma saved_is_loaded:
  assumes "area \<noteq> None"
  shows "loadStreamer (saveStreamer area c p) c' = (if c' = c then p else loadStreamer area c')
    \<and> loadGlobal (saveStreamer area c p) = loadGlobal area
    \<and> loadGlobal (saveGlobalCategory area cat s)
        = (if isPresetCategory cat then (loadGlobal area)(cat \<mapsto> s) else loadGlobal area)
    \<and> loadStreamer (saveGlobalCategory area cat s) c' = loadStreamer area c'"
  using load_saveStreamer(1) [OF assms] load_saveStreamer(2) load_saveGlobal(1) [OF assms] load_saveGlobal(2) by simp

lemma saved_is_loaded_example:
  "loadStreamer (saveStreamer (Some Map.empty) (js ''twitch:a'') [js ''mic'' \<mapsto> DEFAULT]) (js ''twitch:a'')
     = [js ''mic'' \<mapsto> DEFAULT]"
  using saved_is_loaded [of "Some Map.empty" "js ''twitch:a''" "[js ''mic'' \<mapsto> DEFAULT]" "js ''twitch:a''"] by simp

text \<open>
  A valid slug that names a property every object inherits: with no preferences at all its
  effective setting is not the default but an object without gain.
\<close>

lemma constructor_slug:
  "isValidSlug (js ''constructor'') \<and> effectiveSetting (js ''constructor'') c Map.empty global = no_fields"
  by (simp add: isValidSlug_rule slug_rule_def slug_char_def js_Cons in_class_def alnum_class_def word_le_nat_alt
      effectiveSetting_def js_lookup_def truthy_setting_def OBJECT_PROTOTYPE_def)

end
