(* ===== verification/WebAudio.thy ===== *)
theory WebAudio
  imports JsNumber Prelude
begin

text \<open>
  The Web Audio objects the extension drives, as the state its calls leave behind: an
  \<open>AudioContext\<close> is a store of nodes, the connections between them and a clock. A node is its
  address in the store. An \<^verbatim>\<open>AudioParam\<close> holds a single-precision number.

  How a browser turns this state into sound is not code of this repository. The predicate
  \<open>renders\<close> states what the Web Audio specification documents of it: a gain node multiplies the
  sum of its inputs, a delay node shifts it in time, sources produce their own signal. A signal
  is a function of time in seconds, with exact arithmetic on samples.
\<close>

type_synonym sample = rat
type_synonym AudioBuffer = "sample list list"

datatype node =
    GainNode rat
  | DelayNode rat rat
  | MediaElementSource
  | BufferSource (bs_buffer: AudioBuffer) (bs_start: rat) (bs_stopped: bool)
  | Destination

datatype ctx_state = Suspended | Running | Closed

record AudioContext =
  nodes :: "nat \<rightharpoonup> node"
  edges :: "(nat \<times> nat) list"
  fresh :: nat
  currentTime :: rat
  cstate :: ctx_state

definition create_node :: "AudioContext \<Rightarrow> node \<Rightarrow> nat \<times> AudioContext" where
  "create_node c n = (fresh c, c\<lparr>nodes := (nodes c)(fresh c \<mapsto> n), fresh := Suc (fresh c)\<rparr>)"

text \<open>Connecting twice is connecting once; \<^verbatim>\<open>disconnect()\<close> drops every outgoing connection.\<close>

definition connect_node :: "AudioContext \<Rightarrow> nat \<Rightarrow> nat \<Rightarrow> AudioContext" where
  "connect_node c a b = c\<lparr>edges := List.insert (a, b) (edges c)\<rparr>"

definition disconnect_node :: "AudioContext \<Rightarrow> nat \<Rightarrow> AudioContext" where
  "disconnect_node c a = c\<lparr>edges := filter (\<lambda>e. fst e \<noteq> a) (edges c)\<rparr>"

definition set_node :: "AudioContext \<Rightarrow> nat \<Rightarrow> node \<Rightarrow> AudioContext" where
  "set_node c a n = c\<lparr>nodes := (nodes c)(a \<mapsto> n)\<rparr>"

definition preds :: "AudioContext \<Rightarrow> nat \<Rightarrow> nat set" where
  "preds c n = {m. (m, n) \<in> set (edges c)}"

lemma preds_simps [simp]:
  "preds (c\<lparr>nodes := N\<rparr>) n = preds c n"
  "preds (c\<lparr>fresh := k\<rparr>) n = preds c n"
  "preds (c\<lparr>cstate := s\<rparr>) n = preds c n"
  "preds (set_node c a x) n = preds c n"
  "preds (snd (create_node c x)) n = preds c n"
  "preds (connect_node c a b) n = (if n = b then insert a (preds c n) else preds c n)"
  "preds (disconnect_node c a) n = preds c n - {a}"
  by (auto simp: preds_def set_node_def create_node_def connect_node_def disconnect_node_def)

lemma nodes_simps [simp]:
  "nodes (connect_node c a b) = nodes c" "nodes (disconnect_node c a) = nodes c"
  "nodes (set_node c a x) = (nodes c)(a \<mapsto> x)"
  "nodes (snd (create_node c x)) = (nodes c)(fresh c \<mapsto> x)"
  by (simp_all add: connect_node_def disconnect_node_def set_node_def create_node_def)

lemma fresh_simps [simp]:
  "fresh (connect_node c a b) = fresh c" "fresh (disconnect_node c a) = fresh c"
  "fresh (set_node c a x) = fresh c" "fresh (snd (create_node c x)) = Suc (fresh c)"
  "fst (create_node c x) = fresh c"
  by (simp_all add: connect_node_def disconnect_node_def set_node_def create_node_def)

lemma clock_simps [simp]:
  "currentTime (connect_node c a b) = currentTime c" "currentTime (disconnect_node c a) = currentTime c"
  "currentTime (set_node c a x) = currentTime c" "currentTime (snd (create_node c x)) = currentTime c"
  by (simp_all add: connect_node_def disconnect_node_def set_node_def create_node_def)

lemma edges_simps [simp]:
  "edges (set_node c a x) = edges c" "edges (snd (create_node c x)) = edges c"
  by (simp_all add: set_node_def create_node_def)

text \<open>Connections only run between nodes that exist.\<close>

definition ctx_wf :: "AudioContext \<Rightarrow> bool" where
  "ctx_wf c \<longleftrightarrow>
     (\<forall>n. n \<in> dom (nodes c) \<longrightarrow> n < fresh c)
     \<and> (\<forall>a b. (a, b) \<in> set (edges c) \<longrightarrow> a \<in> dom (nodes c) \<and> b \<in> dom (nodes c))"

lemma ctx_wf_fresh: "ctx_wf c \<Longrightarrow> nodes c (fresh c) = None"
  by (auto simp: ctx_wf_def dom_def)

lemma ctx_wf_preds_fresh: "ctx_wf c \<Longrightarrow> fresh c \<le> n \<Longrightarrow> preds c n = {} \<and> n \<notin> preds c m"
  by (auto simp: ctx_wf_def preds_def) (metis domI leD)+

lemma ctx_wf_create: "ctx_wf c \<Longrightarrow> ctx_wf (snd (create_node c x))"
  by (auto simp: ctx_wf_def create_node_def)

lemma ctx_wf_connect:
  "ctx_wf c \<Longrightarrow> a \<in> dom (nodes c) \<Longrightarrow> b \<in> dom (nodes c) \<Longrightarrow> ctx_wf (connect_node c a b)"
  by (auto simp: ctx_wf_def connect_node_def)

lemma ctx_wf_disconnect: "ctx_wf c \<Longrightarrow> ctx_wf (disconnect_node c a)"
  by (auto simp: ctx_wf_def disconnect_node_def)

lemma ctx_wf_set: "ctx_wf c \<Longrightarrow> a \<in> dom (nodes c) \<Longrightarrow> ctx_wf (set_node c a x)"
  by (auto simp: ctx_wf_def set_node_def)

lemma finite_preds [simp]: "finite (preds c n)"
proof -
  have "preds c n \<subseteq> fst ` set (edges c)" by (force simp: preds_def)
  then show ?thesis by (rule finite_subset) simp
qed

subsection \<open>What the specification documents of rendering\<close>

definition renders :: "AudioContext \<Rightarrow> (nat \<Rightarrow> rat \<Rightarrow> sample) \<Rightarrow> bool" where
  "renders c out \<longleftrightarrow>
     (\<forall>n t. case nodes c n of
        Some (GainNode g) \<Rightarrow> out n t = g * (\<Sum>m\<in>preds c n. out m t)
      | Some (DelayNode mx d) \<Rightarrow> out n t = (\<Sum>m\<in>preds c n. out m (t - d))
      | Some Destination \<Rightarrow> out n t = (\<Sum>m\<in>preds c n. out m t)
      | _ \<Rightarrow> True)"

lemma renders_gain: "renders c out \<Longrightarrow> nodes c n = Some (GainNode g) \<Longrightarrow> out n t = g * (\<Sum>m\<in>preds c n. out m t)"
  unfolding renders_def by (drule spec [of _ n], drule spec [of _ t]) simp

lemma renders_delay:
  "renders c out \<Longrightarrow> nodes c n = Some (DelayNode mx d) \<Longrightarrow> out n t = (\<Sum>m\<in>preds c n. out m (t - d))"
  unfolding renders_def by (drule spec [of _ n], drule spec [of _ t]) simp

lemma renders_destination:
  "renders c out \<Longrightarrow> nodes c n = Some Destination \<Longrightarrow> out n t = (\<Sum>m\<in>preds c n. out m t)"
  unfolding renders_def by (drule spec [of _ n], drule spec [of _ t]) simp

end
