(* ===== verification/Graph.thy ===== *)
theory Graph
  imports WebAudio
begin

text \<open>
  \<^verbatim>\<open>extension/src/audio/graph.ts\<close>: the mixing and cancellation graph.

  A \<open>MixerGraph\<close> owns its audio context, so every operation maps the graph to the graph.
  \<open>graph_ok\<close> is the routing picture of the source's header as an invariant: which connections
  exist, which gains are fixed, and that every adjustable value is in its range. From it and
  the documented node behaviour (\<open>renders\<close>) follows what the viewer hears (\<open>mix\<close>), and from
  that the cancellation results.
\<close>

record TrackNodes =
  entry :: nat
  userGain :: nat

record MixerGraph =
  ctx :: AudioContext
  master :: nat
  broadcastGain :: nat
  cancellationSum :: nat
  sharedDelay :: nat
  inverter :: nat
  source :: nat
  offsetMs :: rat
  tracks :: "jsstring \<rightharpoonup> TrackNodes"

definition MAX_OFFSET_SECONDS :: rat where
  "MAX_OFFSET_SECONDS = 30"

definition MAX_OFFSET_MS :: rat where
  "MAX_OFFSET_MS = MAX_OFFSET_SECONDS * 1000"

definition clamp01 :: "jsnum \<Rightarrow> rat" where
  "clamp01 v =
     (case v of Fin r \<Rightarrow> if r < 0 then 0 else if r > 1 then 1 else r | _ \<Rightarrow> 0)"

text \<open>\<^verbatim>\<open>node.gain.value = v\<close>: the parameter keeps the nearest single-precision number.\<close>

definition set_gain :: "AudioContext \<Rightarrow> nat \<Rightarrow> rat \<Rightarrow> AudioContext" where
  "set_gain c n v = set_node c n (GainNode (f32 v))"

definition new_ctx :: AudioContext where
  "new_ctx = \<lparr>nodes = [0 \<mapsto> Destination], edges = [], fresh = 1, currentTime = 0, cstate = Suspended\<rparr>"

datatype graph_error = InvalidStateError

text \<open>
  \<^verbatim>\<open>createMediaElementSource\<close> throws on an element that already feeds a context; \<open>tapped\<close>
  lists those elements.
\<close>

definition buildGraph :: "'e list \<Rightarrow> 'e \<Rightarrow> graph_error + MixerGraph \<times> 'e list" where
  "buildGraph tapped video =
     (if List.member tapped video then throw InvalidStateError
      else
        let c = new_ctx;
            (source, c) = create_node c MediaElementSource;
            (broadcastGain, c) = create_node c (GainNode 1);
            c = set_gain c broadcastGain 1;
            (cancellationSum, c) = create_node c (GainNode 1);
            c = set_gain c cancellationSum 1;
            (sharedDelay, c) = create_node c (DelayNode MAX_OFFSET_SECONDS 0);
            c = set_node c sharedDelay (DelayNode MAX_OFFSET_SECONDS 0);
            (inverter, c) = create_node c (GainNode 1);
            c = set_gain c inverter (- 1);
            (master, c) = create_node c (GainNode 1);
            c = set_gain c master 1;
            c = connect_node c source broadcastGain;
            c = connect_node c broadcastGain master;
            c = connect_node c cancellationSum sharedDelay;
            c = connect_node c sharedDelay inverter;
            c = connect_node c inverter master;
            c = connect_node c master 0
        in Inr (\<lparr>ctx = c, master = master, broadcastGain = broadcastGain, cancellationSum = cancellationSum,
                 sharedDelay = sharedDelay, inverter = inverter, source = source, offsetMs = 0,
                 tracks = Map.empty\<rparr>, video # tapped))"

definition addTrack :: "MixerGraph \<Rightarrow> jsstring \<Rightarrow> nat \<times> MixerGraph" where
  "addTrack graph slug =
     (case tracks graph slug of
        Some existing \<Rightarrow> (entry existing, graph)
      | None \<Rightarrow>
          let c = ctx graph;
              (entry, c) = create_node c (GainNode 1);
              c = set_gain c entry 1;
              (userGain, c) = create_node c (GainNode 1);
              c = set_gain c userGain (1 / 2);
              c = connect_node c entry userGain;
              c = connect_node c userGain (master graph);
              c = connect_node c entry (cancellationSum graph)
          in (entry, graph\<lparr>ctx := c, tracks := (tracks graph)(slug \<mapsto> \<lparr>entry = entry, userGain = userGain\<rparr>)\<rparr>))"

definition removeTrack :: "MixerGraph \<Rightarrow> jsstring \<Rightarrow> MixerGraph" where
  "removeTrack graph slug =
     (case tracks graph slug of
        None \<Rightarrow> graph
      | Some t \<Rightarrow>
          graph\<lparr>ctx := disconnect_node (disconnect_node (ctx graph) (entry t)) (userGain t),
                tracks := (tracks graph)(slug := None)\<rparr>)"

definition entryNodeFor :: "MixerGraph \<Rightarrow> jsstring \<Rightarrow> nat option" where
  "entryNodeFor graph slug = map_option entry (tracks graph slug)"

definition setTrackGain :: "MixerGraph \<Rightarrow> jsstring \<Rightarrow> jsnum \<Rightarrow> MixerGraph" where
  "setTrackGain graph slug value =
     (case tracks graph slug of
        None \<Rightarrow> graph
      | Some t \<Rightarrow> graph\<lparr>ctx := set_gain (ctx graph) (userGain t) (clamp01 value)\<rparr>)"

definition setBroadcastGain :: "MixerGraph \<Rightarrow> jsnum \<Rightarrow> MixerGraph" where
  "setBroadcastGain graph value = graph\<lparr>ctx := set_gain (ctx graph) (broadcastGain graph) (clamp01 value)\<rparr>"

definition setOffsetMs :: "MixerGraph \<Rightarrow> jsnum \<Rightarrow> MixerGraph" where
  "setOffsetMs graph ms =
     (let clamped = (case ms of Fin r \<Rightarrow> max 0 (min MAX_OFFSET_MS r) | _ \<Rightarrow> 0)
      in graph\<lparr>offsetMs := clamped,
               ctx := set_node (ctx graph) (sharedDelay graph)
                        (DelayNode MAX_OFFSET_SECONDS (f32 (f64 (clamped / 1000))))\<rparr>)"

definition destroy :: "MixerGraph \<Rightarrow> MixerGraph" where
  "destroy graph = graph\<lparr>ctx := (disconnect_node (ctx graph) (source graph))\<lparr>cstate := Closed\<rparr>\<rparr>"

subsection \<open>The routing invariant\<close>

definition core :: "MixerGraph \<Rightarrow> nat list" where
  "core g = [0, source g, broadcastGain g, cancellationSum g, sharedDelay g, inverter g, master g]"

definition entry_of :: "MixerGraph \<Rightarrow> jsstring \<Rightarrow> nat" where
  "entry_of g s = entry (the (tracks g s))"

definition gain_of :: "MixerGraph \<Rightarrow> jsstring \<Rightarrow> nat" where
  "gain_of g s = userGain (the (tracks g s))"

text \<open>The nodes are where they belong and no two roles share a node.\<close>

definition placed :: "MixerGraph \<Rightarrow> bool" where
  "placed g \<longleftrightarrow>
     distinct (core g) \<and> finite (dom (tracks g))
     \<and> inj_on (entry_of g) (dom (tracks g)) \<and> inj_on (gain_of g) (dom (tracks g))
     \<and> entry_of g ` dom (tracks g) \<inter> gain_of g ` dom (tracks g) = {}
     \<and> (entry_of g ` dom (tracks g) \<union> gain_of g ` dom (tracks g)) \<inter> set (core g) = {}"

text \<open>The fixed gains, and the ranges of the adjustable ones.\<close>

definition valued :: "MixerGraph \<Rightarrow> bool" where
  "valued g \<longleftrightarrow>
     nodes (ctx g) 0 = Some Destination \<and> nodes (ctx g) (source g) = Some MediaElementSource
     \<and> (\<exists>b. nodes (ctx g) (broadcastGain g) = Some (GainNode b) \<and> 0 \<le> b \<and> b \<le> 1)
     \<and> nodes (ctx g) (cancellationSum g) = Some (GainNode 1)
     \<and> (\<exists>d. nodes (ctx g) (sharedDelay g) = Some (DelayNode MAX_OFFSET_SECONDS d)
            \<and> 0 \<le> d \<and> d \<le> MAX_OFFSET_SECONDS)
     \<and> nodes (ctx g) (inverter g) = Some (GainNode (- 1))
     \<and> nodes (ctx g) (master g) = Some (GainNode 1)
     \<and> (\<forall>s\<in>dom (tracks g). nodes (ctx g) (entry_of g s) = Some (GainNode 1)
          \<and> (\<exists>u. nodes (ctx g) (gain_of g s) = Some (GainNode u) \<and> 0 \<le> u \<and> u \<le> 1))"

text \<open>The connections: every arrow of the picture and no other into these nodes.\<close>

definition wired :: "MixerGraph \<Rightarrow> bool" where
  "wired g \<longleftrightarrow>
     preds (ctx g) 0 = {master g}
     \<and> preds (ctx g) (master g) = {broadcastGain g, inverter g} \<union> gain_of g ` dom (tracks g)
     \<and> preds (ctx g) (broadcastGain g) = {source g}
     \<and> preds (ctx g) (inverter g) = {sharedDelay g}
     \<and> preds (ctx g) (sharedDelay g) = {cancellationSum g}
     \<and> preds (ctx g) (cancellationSum g) = entry_of g ` dom (tracks g)
     \<and> (\<forall>s\<in>dom (tracks g). preds (ctx g) (gain_of g s) = {entry_of g s})"

definition graph_ok :: "MixerGraph \<Rightarrow> bool" where
  "graph_ok g \<longleftrightarrow> ctx_wf (ctx g) \<and> placed g \<and> valued g \<and> wired g"


lemmas graph_ok_defs = graph_ok_def placed_def valued_def wired_def core_def

lemma clamp01_range: "0 \<le> clamp01 v" "clamp01 v \<le> 1"
  by (cases v; simp add: clamp01_def)+

lemma f32_clamp01: "0 \<le> f32 (clamp01 v)" "f32 (clamp01 v) \<le> 1"
  using f32.rnd_between [of 0 1 "clamp01 v"] clamp01_range [of v] by simp_all

lemma f32_half [simp]: "f32 (1 / 2) = 1 / 2"
proof -
  have "is_fl 24 (- 149) (2 powi (- 1))" by (rule is_fl_power) simp
  moreover have "(2 :: rat) powi (- 1) = 1 / 2" by (simp add: power_int_def)
  ultimately have "is_fl 24 (- 149) (1 / 2)" by (simp only:)
  then show ?thesis unfolding f32_def by (rule fl_round_id [rotated]) simp
qed

lemma f32_neg1 [simp]: "f32 (- 1) = - 1"
  using f32.rnd_minus [of 1] by simp

definition built :: MixerGraph where
  "built =
     \<lparr>ctx = \<lparr>nodes = [0 \<mapsto> Destination, 1 \<mapsto> MediaElementSource, 2 \<mapsto> GainNode 1, 3 \<mapsto> GainNode 1,
                       4 \<mapsto> DelayNode MAX_OFFSET_SECONDS 0, 5 \<mapsto> GainNode (- 1), 6 \<mapsto> GainNode 1],
              edges = [(6, 0), (5, 6), (4, 5), (3, 4), (2, 6), (1, 2)],
              fresh = 7, currentTime = 0, cstate = Suspended\<rparr>,
      master = 6, broadcastGain = 2, cancellationSum = 3, sharedDelay = 4, inverter = 5, source = 1,
      offsetMs = 0, tracks = Map.empty\<rparr>"

lemma buildGraph_built:
  "buildGraph tapped video =
     (if List.member tapped video then throw InvalidStateError else Inr (built, video # tapped))"
  by (simp add: buildGraph_def Let_def create_node_def new_ctx_def set_gain_def set_node_def connect_node_def
      built_def eval_nat_numeral)

lemma built_ok: "graph_ok built"
proof -
  have "ctx_wf (ctx built)" by (auto simp: built_def ctx_wf_def)
  moreover have "placed built" by (simp add: built_def placed_def core_def)
  moreover have "valued built" by (simp add: built_def valued_def MAX_OFFSET_SECONDS_def)
  moreover have "wired built" by (auto simp: built_def wired_def preds_def)
  ultimately show ?thesis by (simp add: graph_ok_def)
qed

lemma core_dom: "graph_ok g \<Longrightarrow> n \<in> set (core g) \<Longrightarrow> n \<in> dom (nodes (ctx g))"
  by (auto simp: graph_ok_def valued_def core_def)

lemma track_dom:
  "graph_ok g \<Longrightarrow> tracks g s = Some t \<Longrightarrow> entry t \<in> dom (nodes (ctx g)) \<and> userGain t \<in> dom (nodes (ctx g))"
  by (auto simp: graph_ok_def valued_def entry_of_def gain_of_def dom_def dest!: bspec [of _ _ s])

lemma dom_less: "ctx_wf c \<Longrightarrow> n \<in> dom (nodes c) \<Longrightarrow> n < fresh c"
  by (simp add: ctx_wf_def)


subsection \<open>Every operation keeps the invariant\<close>

lemma addTrack_fields:
  assumes "tracks g s = None"
  defines "f \<equiv> fresh (ctx g)" and "g' \<equiv> snd (addTrack g s)"
  shows "tracks g' = (tracks g)(s \<mapsto> \<lparr>entry = f, userGain = Suc f\<rparr>)"
    "nodes (ctx g') = (nodes (ctx g))(f \<mapsto> GainNode 1, Suc f \<mapsto> GainNode (1 / 2))"
    "preds (ctx g') n =
       (if n = cancellationSum g then insert f else id)
         ((if n = master g then insert (Suc f) else id) ((if n = Suc f then insert f else id) (preds (ctx g) n)))"
    "core g' = core g" "master g' = master g" "broadcastGain g' = broadcastGain g" "source g' = source g"
    "cancellationSum g' = cancellationSum g" "sharedDelay g' = sharedDelay g" "inverter g' = inverter g"
    "fst (addTrack g s) = f"
  using assms by (simp_all add: addTrack_def Let_def split_beta set_gain_def core_def)

lemma addTrack_entry:
  assumes "tracks g s = None"
  shows "entry_of (snd (addTrack g s)) = (entry_of g)(s := fresh (ctx g))"
    "gain_of (snd (addTrack g s)) = (gain_of g)(s := Suc (fresh (ctx g)))"
    "dom (tracks (snd (addTrack g s))) = insert s (dom (tracks g))"
  using addTrack_fields(1) [OF assms] by (auto simp: fun_eq_iff entry_of_def gain_of_def)

lemma track_nodes_less:
  assumes "graph_ok g"
  shows "s \<in> dom (tracks g) \<Longrightarrow> entry_of g s < fresh (ctx g)" "s \<in> dom (tracks g) \<Longrightarrow> gain_of g s < fresh (ctx g)"
    "n \<in> set (core g) \<Longrightarrow> n < fresh (ctx g)"
  using assms track_dom [OF assms] core_dom [OF assms] dom_less [of "ctx g"]
  by (auto simp: graph_ok_def entry_of_def gain_of_def)

lemma addTrack_wf: "graph_ok g \<Longrightarrow> ctx_wf (ctx (snd (addTrack g s)))"
  by (cases "tracks g s")
    (auto simp: addTrack_def Let_def split_beta set_gain_def graph_ok_def valued_def
      intro!: ctx_wf_connect ctx_wf_set ctx_wf_create)

lemma inj_on_fun_upd_fresh: "inj_on f A \<Longrightarrow> (\<And>x. x \<in> A \<Longrightarrow> f x \<noteq> y) \<Longrightarrow> inj_on (f(a := y)) (insert a A)"
  by (auto simp: inj_on_def)

lemma addTrack_placed:
  assumes "graph_ok g" "tracks g s = None"
  shows "placed (snd (addTrack g s))"
proof -
  have p: "placed g" using assms(1) by (simp add: graph_ok_def)
  note lt = track_nodes_less [OF assms(1)]
  have s: "s \<notin> dom (tracks g)" using assms(2) by auto
  have im: "(f(s := y)) ` insert s (dom (tracks g)) = insert y (f ` dom (tracks g))" for f :: "jsstring \<Rightarrow> nat" and y
    using s by (auto simp: image_iff) 
  have "inj_on ((entry_of g)(s := fresh (ctx g))) (insert s (dom (tracks g)))"
    "inj_on ((gain_of g)(s := Suc (fresh (ctx g)))) (insert s (dom (tracks g)))"
    using p lt(1,2) by (intro inj_on_fun_upd_fresh; force simp: placed_def)+
  moreover have "fresh (ctx g) \<notin> set (core g)" "Suc (fresh (ctx g)) \<notin> set (core g)"
    "fresh (ctx g) \<notin> gain_of g ` dom (tracks g)" "Suc (fresh (ctx g)) \<notin> entry_of g ` dom (tracks g)"
    using lt(3) [of "fresh (ctx g)"] lt(3) [of "Suc (fresh (ctx g))"] lt(1,2) by fastforce+
  ultimately show ?thesis
    using p unfolding placed_def addTrack_entry [OF assms(2)] addTrack_fields(4) [OF assms(2)] im by auto
qed

lemma addTrack_valued:
  assumes "graph_ok g" "tracks g s = None"
  shows "valued (snd (addTrack g s))"
proof -
  have v: "valued g" using assms(1) by (simp add: graph_ok_def)
  note lt = track_nodes_less [OF assms(1)]
  have old: "nodes (ctx (snd (addTrack g s))) n = nodes (ctx g) n" if "n < fresh (ctx g)" for n
    using that by (simp add: addTrack_fields(2) [OF assms(2)])
  have old_core: "nodes (ctx (snd (addTrack g s))) n = nodes (ctx g) n" if "n \<in> set (core g)" for n
    using old lt(3) [OF that] by simp
  have "nodes (ctx (snd (addTrack g s))) (entry_of (snd (addTrack g s)) r) = Some (GainNode 1)
      \<and> (\<exists>u. nodes (ctx (snd (addTrack g s))) (gain_of (snd (addTrack g s)) r) = Some (GainNode u) \<and> 0 \<le> u \<and> u \<le> 1)"
    if "r \<in> insert s (dom (tracks g))" for r
  proof (cases "r = s")
    case True
    then show ?thesis
      by (auto simp: addTrack_entry [OF assms(2)] addTrack_fields(2) [OF assms(2)] intro!: exI [of _ "1 / 2"])
  next
    case False
    with that v lt(1,2) [of r] show ?thesis by (auto simp: addTrack_entry [OF assms(2)] old valued_def)
  qed
  with v show ?thesis
    unfolding valued_def addTrack_entry(3) [OF assms(2)]
    by (simp add: old_core core_def addTrack_fields(5-10) [OF assms(2)])
qed

lemma addTrack_wired:
  assumes "graph_ok g" "tracks g s = None"
  shows "wired (snd (addTrack g s))"
proof -
  have w: "wired g" and p: "placed g" and cw: "ctx_wf (ctx g)" using assms(1) by (simp_all add: graph_ok_def)
  note lt = track_nodes_less [OF assms(1)]
  note pr = addTrack_fields(3) [OF assms(2)]
  have core: "n \<noteq> Suc (fresh (ctx g))" if "n \<in> set (core g)" for n using lt(3) [OF that] by simp
  have s: "s \<notin> dom (tracks g)" using assms(2) by auto
  have im: "(f(s := y)) ` insert s (dom (tracks g)) = insert y (f ` dom (tracks g))" for f :: "jsstring \<Rightarrow> nat" and y
    using s by (auto simp: image_iff)
  have ug: "preds (ctx (snd (addTrack g s))) (gain_of (snd (addTrack g s)) r) = {entry_of (snd (addTrack g s)) r}"
    if "r \<in> insert s (dom (tracks g))" for r
  proof (cases "r = s")
    case True
    have "Suc (fresh (ctx g)) \<notin> set (core g)" using lt(3) [of "Suc (fresh (ctx g))"] by auto
    with True ctx_wf_preds_fresh [OF cw, of "Suc (fresh (ctx g))"] show ?thesis
      by (auto simp: addTrack_entry [OF assms(2)] pr core_def)
  next
    case False
    with that have r: "r \<in> dom (tracks g)" by simp
    then have "gain_of g r \<notin> set (core g)" using p unfolding placed_def by blast
    with False r lt(2) [OF r] w show ?thesis
      by (auto simp: addTrack_entry [OF assms(2)] pr core_def wired_def)
  qed
  have "distinct (core g)" using p by (simp add: placed_def)
  with w ug core show ?thesis
    unfolding wired_def addTrack_entry [OF assms(2)] pr addTrack_fields(5-10) [OF assms(2)] im
    by (auto simp: core_def)
qed

lemma addTrack_ok: "graph_ok g \<Longrightarrow> graph_ok (snd (addTrack g s))"
proof (cases "tracks g s")
  case None
  assume "graph_ok g"
  with None show ?thesis
    using addTrack_wf addTrack_placed addTrack_valued addTrack_wired by (simp add: graph_ok_def)
qed (simp add: addTrack_def)

text \<open>A change of one node's value: the roles and connections stay.\<close>

lemma roles_ctx [simp]:
  "entry_of (g\<lparr>ctx := c\<rparr>) = entry_of g" "gain_of (g\<lparr>ctx := c\<rparr>) = gain_of g" "core (g\<lparr>ctx := c\<rparr>) = core g"
  by (auto simp: entry_of_def gain_of_def core_def)

lemma set_node_ok:
  assumes "graph_ok g" "n \<in> dom (nodes (ctx g))" "valued (g\<lparr>ctx := set_node (ctx g) n x\<rparr>)"
  shows "graph_ok (g\<lparr>ctx := set_node (ctx g) n x\<rparr>)"
proof -
  have "ctx_wf (ctx g)" "placed g" "wired g" using assms(1) by (simp_all add: graph_ok_def)
  with assms(2,3) show ?thesis
    unfolding graph_ok_def placed_def wired_def by (simp add: ctx_wf_set)
qed

lemma roles_differ:
  assumes "graph_ok g" "s \<in> dom (tracks g)"
  shows "gain_of g s \<notin> set (core g)" "entry_of g s \<notin> set (core g)"
    "r \<in> dom (tracks g) \<Longrightarrow> entry_of g r \<noteq> gain_of g s"
    "r \<in> dom (tracks g) \<Longrightarrow> gain_of g r = gain_of g s \<longleftrightarrow> r = s"
    "r \<in> dom (tracks g) \<Longrightarrow> entry_of g r = entry_of g s \<longleftrightarrow> r = s"
proof -
  have p: "placed g" using assms(1) by (simp add: graph_ok_def)
  then show "gain_of g s \<notin> set (core g)" "entry_of g s \<notin> set (core g)"
    using assms(2) unfolding placed_def by blast+
  show "r \<in> dom (tracks g) \<Longrightarrow> entry_of g r \<noteq> gain_of g s"
    using p assms(2) unfolding placed_def by blast
  show "r \<in> dom (tracks g) \<Longrightarrow> gain_of g r = gain_of g s \<longleftrightarrow> r = s"
    "r \<in> dom (tracks g) \<Longrightarrow> entry_of g r = entry_of g s \<longleftrightarrow> r = s"
    using p assms(2) unfolding placed_def by (metis inj_on_eq_iff)+
qed

lemma valued_cong:
  assumes "valued g" "\<And>n. n \<in> set (core g) \<union> entry_of g ` dom (tracks g) \<Longrightarrow> n \<noteq> a \<Longrightarrow> nodes c n = nodes (ctx g) n"
    and "\<And>s. s \<in> dom (tracks g) \<Longrightarrow> \<exists>u. nodes c (gain_of g s) = Some (GainNode u) \<and> 0 \<le> u \<and> u \<le> 1"
    and "a \<in> gain_of g ` dom (tracks g)" "graph_ok g"
  shows "valued (g\<lparr>ctx := c\<rparr>)"
proof -
  have "a \<notin> set (core g) \<union> entry_of g ` dom (tracks g)"
    using assms(4) roles_differ [OF assms(5)] by blast
  then have n: "nodes c n = nodes (ctx g) n" if "n \<in> set (core g) \<union> entry_of g ` dom (tracks g)" for n
    using assms(2) that by blast
  show ?thesis using assms(1,3) n unfolding valued_def by (simp add: core_def)
qed

lemma setTrackGain_ok:
  assumes "graph_ok g"
  shows "graph_ok (setTrackGain g s v)"
proof (cases "tracks g s")
  case (Some t)
  then have s: "s \<in> dom (tracks g)" and t: "userGain t = gain_of g s" by (auto simp: gain_of_def)
  have v: "valued g" using assms by (simp add: graph_ok_def)
  have "valued (g\<lparr>ctx := set_node (ctx g) (gain_of g s) (GainNode (f32 (clamp01 v)))\<rparr>)"
    by (rule valued_cong [OF v _ _ imageI [OF s] assms])
      (use v f32_clamp01 [of v] in \<open>auto simp: valued_def\<close>)
  moreover have "gain_of g s \<in> dom (nodes (ctx g))" using track_dom [OF assms Some] t by simp
  ultimately show ?thesis using assms Some t
    by (simp add: setTrackGain_def set_gain_def set_node_ok)
qed (simp add: setTrackGain_def assms)

lemma setBroadcastGain_ok:
  assumes "graph_ok g"
  shows "graph_ok (setBroadcastGain g v)"
proof -
  let ?g = "g\<lparr>ctx := set_node (ctx g) (broadcastGain g) (GainNode (f32 (clamp01 v)))\<rparr>"
  have "valued g" "distinct (core g)" using assms by (simp_all add: graph_ok_def placed_def)
  then have "valued ?g"
    using roles_differ(1,2) [OF assms] f32_clamp01 [of v] unfolding valued_def by (auto simp: core_def)
  then show ?thesis using assms core_dom [OF assms, of "broadcastGain g"]
    by (auto simp: setBroadcastGain_def set_gain_def core_def intro: set_node_ok)
qed

lemma offset_delay_range:
  assumes "0 \<le> c" "c \<le> MAX_OFFSET_MS"
  shows "0 \<le> f32 (f64 (c / 1000))" "f32 (f64 (c / 1000)) \<le> MAX_OFFSET_SECONDS"
proof -
  have "f64 30 = 30" "f32 30 = 30" using f64_of_int [of 30] f32_of_int [of 30] by simp_all
  moreover have "0 \<le> c / 1000" "c / 1000 \<le> 30"
    using assms by (simp_all add: MAX_OFFSET_MS_def MAX_OFFSET_SECONDS_def)
  ultimately show "0 \<le> f32 (f64 (c / 1000))" "f32 (f64 (c / 1000)) \<le> MAX_OFFSET_SECONDS"
    using f64.rnd_between [of 0 30 "c / 1000"] f32.rnd_between [of 0 30 "f64 (c / 1000)"] f64.rnd_0 f32.rnd_0
    by (simp_all add: MAX_OFFSET_SECONDS_def)
qed

definition clamp_ms :: "jsnum \<Rightarrow> rat" where
  "clamp_ms ms = (case ms of Fin r \<Rightarrow> max 0 (min MAX_OFFSET_MS r) | _ \<Rightarrow> 0)"

lemma clamp_ms_range: "0 \<le> clamp_ms ms" "clamp_ms ms \<le> MAX_OFFSET_MS"
  by (cases ms; simp add: clamp_ms_def MAX_OFFSET_MS_def MAX_OFFSET_SECONDS_def)+

lemma setOffsetMs_eq:
  "setOffsetMs g ms = g\<lparr>offsetMs := clamp_ms ms,
     ctx := set_node (ctx g) (sharedDelay g) (DelayNode MAX_OFFSET_SECONDS (f32 (f64 (clamp_ms ms / 1000))))\<rparr>"
  by (simp add: setOffsetMs_def clamp_ms_def Let_def)

lemma graph_ok_offset [simp]: "graph_ok (g\<lparr>offsetMs := x\<rparr>) = graph_ok g"
proof -
  have e: "entry_of (g\<lparr>offsetMs := x\<rparr>) = entry_of g" "gain_of (g\<lparr>offsetMs := x\<rparr>) = gain_of g"
    by (auto simp: entry_of_def gain_of_def)
  show ?thesis unfolding graph_ok_def placed_def valued_def wired_def e by (simp add: core_def)
qed

lemma setOffsetMs_ok:
  assumes "graph_ok g"
  shows "graph_ok (setOffsetMs g ms)"
proof -
  let ?g = "g\<lparr>ctx := set_node (ctx g) (sharedDelay g) (DelayNode MAX_OFFSET_SECONDS (f32 (f64 (clamp_ms ms / 1000))))\<rparr>"
  have "valued g" "distinct (core g)" using assms by (simp_all add: graph_ok_def placed_def)
  then have "valued ?g"
    using roles_differ(1,2) [OF assms] offset_delay_range [OF clamp_ms_range] unfolding valued_def
    by (auto simp: core_def)
  then have "graph_ok ?g" using assms core_dom [OF assms, of "sharedDelay g"]
    by (auto simp: core_def intro: set_node_ok)
  moreover have "setOffsetMs g ms = ?g\<lparr>offsetMs := clamp_ms ms\<rparr>" by (simp add: setOffsetMs_eq)
  ultimately show ?thesis by (simp del: MixerGraph.update_convs)
qed

lemma removeTrack_fields:
  assumes "tracks g s = Some t"
  shows "tracks (removeTrack g s) = (tracks g)(s := None)"
    "ctx (removeTrack g s) = disconnect_node (disconnect_node (ctx g) (entry_of g s)) (gain_of g s)"
    "core (removeTrack g s) = core g" "master (removeTrack g s) = master g" "source (removeTrack g s) = source g"
    "broadcastGain (removeTrack g s) = broadcastGain g" "cancellationSum (removeTrack g s) = cancellationSum g"
    "sharedDelay (removeTrack g s) = sharedDelay g" "inverter (removeTrack g s) = inverter g"
  using assms by (simp_all add: removeTrack_def core_def entry_of_def gain_of_def)

lemma removeTrack_roles:
  assumes "tracks g s = Some t" "r \<noteq> s"
  shows "entry_of (removeTrack g s) r = entry_of g r" "gain_of (removeTrack g s) r = gain_of g r"
  using assms by (simp_all add: removeTrack_def entry_of_def gain_of_def)

lemma removeTrack_ok:
  assumes "graph_ok g"
  shows "graph_ok (removeTrack g s)"
proof (cases "tracks g s")
  case (Some t)
  let ?g = "removeTrack g s" and ?D = "dom (tracks g) - {s}"
  have s: "s \<in> dom (tracks g)" using Some by auto
  note f = removeTrack_fields [OF Some] and r = removeTrack_roles [OF Some] and rd = roles_differ [OF assms]
  have d: "dom (tracks ?g) = ?D" by (simp add: f(1))
  have im: "entry_of ?g ` ?D = entry_of g ` ?D" "gain_of ?g ` ?D = gain_of g ` ?D"
    using r by (auto intro!: image_cong)
  have p: "placed g" and v: "valued g" and w: "wired g" and c: "ctx_wf (ctx g)"
    using assms by (simp_all add: graph_ok_def)
  have "inj_on (entry_of ?g) ?D" "inj_on (gain_of ?g) ?D"
    using p r by (auto simp: placed_def inj_on_def)
  moreover have "entry_of g ` ?D \<inter> gain_of g ` ?D = {}" "(entry_of g ` ?D \<union> gain_of g ` ?D) \<inter> set (core g) = {}"
    using p unfolding placed_def by blast+
  ultimately have "placed ?g" using p unfolding placed_def d im f(3) by simp
  moreover have "valued ?g" using v r unfolding valued_def d f by auto
  moreover have "wired ?g"
  proof -
    have g1: "gain_of g ` dom (tracks g) - {entry_of g s} - {gain_of g s} = gain_of g ` ?D"
      using rd(4) [OF s] rd(3) s by (auto simp: image_iff)
    have g2: "entry_of g ` dom (tracks g) - {entry_of g s} - {gain_of g s} = entry_of g ` ?D"
      using rd(5) [OF s] rd(3) [OF s] by (auto simp: image_iff)
    have cc: "n \<noteq> entry_of g s" "n \<noteq> gain_of g s" if "n \<in> set (core g)" for n using rd(1,2) [OF s] that by auto
    have "{entry_of g x} - {entry_of g s} - {gain_of g s} = {entry_of g x}" if "x \<in> ?D" for x
      using that rd(5) [OF s] rd(3) [OF s] by auto
    then show ?thesis
      using w g1 g2 cc r unfolding wired_def d im f by (auto simp: core_def insert_Diff_if)
  qed
  moreover have "ctx_wf (ctx ?g)" using c by (simp add: f ctx_wf_disconnect)
  ultimately show ?thesis by (simp add: graph_ok_def)
qed (simp add: removeTrack_def assms)

text \<open>Playback adds buffer sources around the graph; only the connections into entry nodes change.\<close>

definition roles :: "MixerGraph \<Rightarrow> nat set" where
  "roles g = set (core g) \<union> entry_of g ` dom (tracks g) \<union> gain_of g ` dom (tracks g)"

text \<open>The nodes whose inputs are fixed: all of them but the entries and the video source.\<close>

definition listeners :: "MixerGraph \<Rightarrow> nat set" where
  "listeners g = set (core g) - {source g} \<union> gain_of g ` dom (tracks g)"

lemma graph_ok_ctx:
  assumes "graph_ok g" "ctx_wf c" "\<And>n. n \<in> roles g \<Longrightarrow> nodes c n = nodes (ctx g) n"
    and "\<And>n. n \<in> listeners g \<Longrightarrow> preds c n = preds (ctx g) n"
  shows "graph_ok (g\<lparr>ctx := c\<rparr>)"
proof -
  have p: "placed g" and v: "valued g" and w: "wired g" using assms(1) by (simp_all add: graph_ok_def)
  have "valued (g\<lparr>ctx := c\<rparr>)" using v assms(3) unfolding valued_def roles_def by (simp add: core_def)
  moreover have "wired (g\<lparr>ctx := c\<rparr>)"
  proof -
    have "{0, master g, broadcastGain g, inverter g, sharedDelay g, cancellationSum g} \<subseteq> listeners g"
      using p by (auto simp: placed_def listeners_def core_def)
    moreover have "gain_of g s \<in> listeners g" if "s \<in> dom (tracks g)" for s using that by (simp add: listeners_def)
    ultimately show ?thesis using w assms(4) unfolding wired_def by (simp del: domIff)
  qed
  moreover have "placed (g\<lparr>ctx := c\<rparr>)" using p unfolding placed_def by simp
  ultimately show ?thesis using assms(2) by (simp add: graph_ok_def)
qed

lemma buffer_not_role:
  assumes "graph_ok g" "nodes (ctx g) s = Some (BufferSource b t x)"
  shows "s \<notin> roles g"
proof -
  have v: "valued g" using assms(1) by (simp add: graph_ok_def)
  then have "n \<in> set (core g) \<Longrightarrow> n \<noteq> s" for n using assms(2) by (auto simp: valued_def core_def)
  moreover have "s \<noteq> entry_of g r \<and> s \<noteq> gain_of g r" if "r \<in> dom (tracks g)" for r
    using v assms(2) that unfolding valued_def by (metis node.distinct(5) option.inject)
  ultimately show ?thesis by (auto simp: roles_def)
qed

lemma listener_preds: "graph_ok g \<Longrightarrow> n \<in> listeners g \<Longrightarrow> preds (ctx g) n \<subseteq> roles g"
proof -
  assume g: "graph_ok g" and n: "n \<in> listeners g"
  have w: "wired g" using g by (simp add: graph_ok_def)
  from n consider "n \<in> set (core g)" "n \<noteq> source g" | s where "s \<in> dom (tracks g)" "n = gain_of g s"
    unfolding listeners_def by blast
  then show ?thesis
  proof cases
    case 1
    with w show ?thesis unfolding wired_def roles_def by (auto simp: core_def)
  next
    case 2
    then have "preds (ctx g) n = {entry_of g s}" using w by (simp add: wired_def)
    with 2 show ?thesis by (auto simp: roles_def)
  qed
qed

lemma buffer_not_pred:
  "graph_ok g \<Longrightarrow> nodes (ctx g) s = Some (BufferSource b t x) \<Longrightarrow> n \<in> listeners g \<Longrightarrow> s \<notin> preds (ctx g) n"
  using buffer_not_role listener_preds by blast

subsection \<open>What the viewer hears\<close>

text \<open>The current values of the sliders, read off the nodes.\<close>

definition gain_value :: "AudioContext \<Rightarrow> nat \<Rightarrow> rat" where
  "gain_value c n = (case nodes c n of Some (GainNode g) \<Rightarrow> g | _ \<Rightarrow> 0)"

definition delay_value :: "MixerGraph \<Rightarrow> rat" where
  "delay_value g = (case nodes (ctx g) (sharedDelay g) of Some (DelayNode _ d) \<Rightarrow> d | _ \<Rightarrow> 0)"

abbreviation broadcast_level :: "MixerGraph \<Rightarrow> rat" where
  "broadcast_level g \<equiv> gain_value (ctx g) (broadcastGain g)"

abbreviation track_level :: "MixerGraph \<Rightarrow> jsstring \<Rightarrow> rat" where
  "track_level g s \<equiv> gain_value (ctx g) (gain_of g s)"

lemma sum_gains:
  "graph_ok g \<Longrightarrow> (\<Sum>n\<in>gain_of g ` dom (tracks g). f n) = (\<Sum>s\<in>dom (tracks g). f (gain_of g s))"
  by (rule sum.reindex_cong [OF _ refl]) (auto simp: graph_ok_def placed_def)

lemma sum_entries:
  "graph_ok g \<Longrightarrow> (\<Sum>n\<in>entry_of g ` dom (tracks g). f n) = (\<Sum>s\<in>dom (tracks g). f (entry_of g s))"
  by (rule sum.reindex_cong [OF _ refl]) (auto simp: graph_ok_def placed_def)

lemma out_track:
  assumes "graph_ok g" "renders (ctx g) out" "s \<in> dom (tracks g)"
  shows "out (gain_of g s) t = track_level g s * out (entry_of g s) t"
proof -
  have v: "valued g" and w: "wired g" using assms(1) by (simp_all add: graph_ok_def)
  obtain u where u: "nodes (ctx g) (gain_of g s) = Some (GainNode u)" using v assms(3) unfolding valued_def by blast
  have "preds (ctx g) (gain_of g s) = {entry_of g s}" using w assms(3) by (simp add: wired_def)
  then show ?thesis using renders_gain [OF assms(2) u, of t] u by (simp add: gain_value_def)
qed

lemma out_master:
  assumes "graph_ok g" "renders (ctx g) out"
  shows "out 0 t = out (broadcastGain g) t + out (inverter g) t + (\<Sum>s\<in>dom (tracks g). out (gain_of g s) t)"
proof -
  have p: "placed g" and v: "valued g" and w: "wired g" using assms(1) by (simp_all add: graph_ok_def)
  have "broadcastGain g \<in> set (core g)" "inverter g \<in> set (core g)" by (simp_all add: core_def)
  then have m: "broadcastGain g \<notin> gain_of g ` dom (tracks g)" "inverter g \<notin> gain_of g ` dom (tracks g)"
    using roles_differ(1) [OF assms(1)] by (metis imageE)+
  have bi: "broadcastGain g \<noteq> inverter g" and fin: "finite (gain_of g ` dom (tracks g))"
    using p by (simp_all add: placed_def core_def)
  have "out 0 t = (\<Sum>n\<in>preds (ctx g) 0. out n t)"
    using renders_destination [OF assms(2), of 0 t] v by (simp add: valued_def)
  also have "preds (ctx g) 0 = {master g}" using w by (simp add: wired_def)
  also have "(\<Sum>n\<in>{master g}. out n t) = (\<Sum>n\<in>preds (ctx g) (master g). out n t)"
    using renders_gain [OF assms(2), of "master g" 1 t] v by (simp add: valued_def)
  also have "preds (ctx g) (master g) = insert (broadcastGain g) (insert (inverter g) (gain_of g ` dom (tracks g)))"
    using w by (simp add: wired_def)
  finally show ?thesis using m bi fin sum_gains [OF assms(1), of "\<lambda>n. out n t"] by simp
qed

lemma out_inverter:
  assumes "graph_ok g" "renders (ctx g) out"
  shows "out (inverter g) t = - (\<Sum>s\<in>dom (tracks g). out (entry_of g s) (t - delay_value g))"
proof -
  have v: "valued g" and w: "wired g" using assms(1) by (simp_all add: graph_ok_def)
  obtain d where d: "nodes (ctx g) (sharedDelay g) = Some (DelayNode MAX_OFFSET_SECONDS d)"
    using v by (auto simp: valued_def)
  have "out (inverter g) t = - out (sharedDelay g) t"
    using renders_gain [OF assms(2), of "inverter g" "- 1" t] v w by (simp add: valued_def wired_def)
  also have "out (sharedDelay g) t = out (cancellationSum g) (t - delay_value g)"
    using renders_delay [OF assms(2) d, of t] w d by (simp add: wired_def delay_value_def)
  also have "out (cancellationSum g) (t - delay_value g)
      = (\<Sum>n\<in>entry_of g ` dom (tracks g). out n (t - delay_value g))"
    using renders_gain [OF assms(2), of "cancellationSum g" 1 "t - delay_value g"] v w
    by (simp add: valued_def wired_def)
  finally show ?thesis by (simp only: sum_entries [OF assms(1)])
qed

lemma mix:
  assumes "graph_ok g" "renders (ctx g) out"
  shows "out 0 t =
    broadcast_level g * out (source g) t
    + (\<Sum>s\<in>dom (tracks g). track_level g s * out (entry_of g s) t)
    - (\<Sum>s\<in>dom (tracks g). out (entry_of g s) (t - delay_value g))"
proof -
  have v: "valued g" and w: "wired g" using assms(1) by (simp_all add: graph_ok_def)
  obtain b where b: "nodes (ctx g) (broadcastGain g) = Some (GainNode b)" using v by (auto simp: valued_def)
  have bg: "out (broadcastGain g) t = broadcast_level g * out (source g) t"
    using renders_gain [OF assms(2) b, of t] w b by (simp add: wired_def gain_value_def)
  have "(\<Sum>s\<in>dom (tracks g). out (gain_of g s) t) = (\<Sum>s\<in>dom (tracks g). track_level g s * out (entry_of g s) t)"
    using out_track [OF assms] by (intro sum.cong) simp_all
  then show ?thesis unfolding out_master [OF assms] bg out_inverter [OF assms] by simp
qed

text \<open>
  The broadcast carries the side-channels late by \<open>latency\<close>, on top of whatever else is in it.
\<close>

definition broadcast_carries :: "MixerGraph \<Rightarrow> (nat \<Rightarrow> rat \<Rightarrow> sample) \<Rightarrow> rat \<Rightarrow> (rat \<Rightarrow> sample) \<Rightarrow> bool" where
  "broadcast_carries g out latency rest \<longleftrightarrow>
     (\<forall>t. out (source g) t = rest t + (\<Sum>s\<in>dom (tracks g). out (entry_of g s) (t - latency)))"

lemma mix_aligned:
  assumes "graph_ok g" "renders (ctx g) out" "broadcast_carries g out (delay_value g) rest"
  shows "out 0 t =
    broadcast_level g * rest t
    + (\<Sum>s\<in>dom (tracks g). track_level g s * out (entry_of g s) t)
    - (1 - broadcast_level g) * (\<Sum>s\<in>dom (tracks g). out (entry_of g s) (t - delay_value g))"
  using assms(3) unfolding mix [OF assms(1,2)] broadcast_carries_def by (simp add: algebra_simps)

subsection \<open>Levels after an operation\<close>

lemma levels_set:
  assumes "graph_ok g" "s \<in> dom (tracks g)" "r \<in> dom (tracks g)"
  shows "track_level (setTrackGain g s v) r = (if r = s then f32 (clamp01 v) else track_level g r)"
proof -
  obtain t where t: "tracks g s = Some t" "userGain t = gain_of g s" using assms(2) by (auto simp: gain_of_def)
  then show ?thesis
    using roles_differ(4) [OF assms] by (auto simp: setTrackGain_def set_gain_def gain_value_def)
qed

lemma track_level_ctx:
  "nodes c (gain_of g r) = nodes (ctx g) (gain_of g r) \<Longrightarrow> track_level (g\<lparr>ctx := c\<rparr>) r = track_level g r"
  by (simp add: gain_value_def)

lemma tracks_set [simp]:
  "tracks (setTrackGain g s v) = tracks g" "tracks (setBroadcastGain g v) = tracks g" "tracks (setOffsetMs g ms) = tracks g"
  by (simp_all add: setTrackGain_def setBroadcastGain_def setOffsetMs_def Let_def split: option.split)

lemma gain_of_set [simp]:
  "gain_of (setTrackGain g s v) = gain_of g" "gain_of (setBroadcastGain g v) = gain_of g"
  "gain_of (setOffsetMs g ms) = gain_of g"
  "entry_of (setTrackGain g s v) = entry_of g" "entry_of (setBroadcastGain g v) = entry_of g"
  "entry_of (setOffsetMs g ms) = entry_of g"
  by (auto simp: gain_of_def entry_of_def)

lemma role_fields_set [simp]:
  "broadcastGain (setTrackGain g s v) = broadcastGain g" "sharedDelay (setTrackGain g s v) = sharedDelay g"
  by (simp_all add: setTrackGain_def split: option.split)

subsection \<open>Properties\<close>

text \<open>
  A fresh graph has the routing of the picture at the top of the source, with every level in
  its range, and adding, removing and adjusting tracks, the broadcast level and the delay all keep
  it so. Building fails only on an element that is already tapped.
\<close>

lemma routing_kept:
  "(buildGraph tapped video = Inr (g, tapped') \<longrightarrow> graph_ok g)
   \<and> (List.member tapped video \<longleftrightarrow> buildGraph tapped video = Inl InvalidStateError)
   \<and> (graph_ok h \<longrightarrow>
        graph_ok (snd (addTrack h s)) \<and> graph_ok (removeTrack h s) \<and> graph_ok (setTrackGain h s v)
        \<and> graph_ok (setBroadcastGain h v) \<and> graph_ok (setOffsetMs h v))"
  using built_ok addTrack_ok [of h s] removeTrack_ok [of h s] setTrackGain_ok [of h s v]
    setBroadcastGain_ok [of h v] setOffsetMs_ok [of h v]
  by (auto simp: buildGraph_built throw_def)

lemma routing_kept_example:
  "graph_ok (setTrackGain (snd (addTrack built (js ''mic''))) (js ''mic'') (Fin 2))"
proof -
  have "graph_ok built"
    using routing_kept [of "[]" "()" built "[()]" built "[]" NaN] by (simp add: buildGraph_built)
  then have "graph_ok (snd (addTrack built (js ''mic'')))"
    using routing_kept [of "[]" "()" built "[()]" built "js ''mic''" NaN] by blast
  then show ?thesis
    using routing_kept [of "[]" "()" built "[()]" "snd (addTrack built (js ''mic''))" "js ''mic''" "Fin 2"] by blast
qed

text \<open>A track whose signal comes from one buffer source, and the sound of that graph.\<close>

definition one_track :: MixerGraph where
  "one_track =
     (let g = snd (addTrack built (js ''mic'')); (n, c) = create_node (ctx g) (BufferSource [] 0 False)
      in g\<lparr>ctx := connect_node c n (fst (addTrack built (js ''mic'')))\<rparr>)"

lemma one_track_eq:
  "one_track = built\<lparr>
     ctx := \<lparr>nodes = [0 \<mapsto> Destination, 1 \<mapsto> MediaElementSource, 2 \<mapsto> GainNode 1, 3 \<mapsto> GainNode 1,
                      4 \<mapsto> DelayNode MAX_OFFSET_SECONDS 0, 5 \<mapsto> GainNode (- 1), 6 \<mapsto> GainNode 1,
                      7 \<mapsto> GainNode 1, 8 \<mapsto> GainNode (1 / 2), 9 \<mapsto> BufferSource [] 0 False],
             edges = [(9, 7), (7, 3), (8, 6), (7, 8), (6, 0), (5, 6), (4, 5), (3, 4), (2, 6), (1, 2)],
             fresh = 10, currentTime = 0, cstate = Suspended\<rparr>,
     tracks := [js ''mic'' \<mapsto> \<lparr>entry = 7, userGain = 8\<rparr>]\<rparr>"
  by (simp add: one_track_def addTrack_def built_def create_node_def set_gain_def set_node_def connect_node_def)

definition one_track_out :: "(rat \<Rightarrow> sample) \<Rightarrow> nat \<Rightarrow> rat \<Rightarrow> sample" where
  "one_track_out x n t =
     (if n = 8 then x t / 2
      else if n = 5 then - x t
      else if n = 0 \<or> n = 6 then x t / 2
      else x t)"

lemma one_track_ok: "graph_ok one_track"
proof -
  have "ctx_wf (ctx one_track)" by (auto simp: one_track_eq built_def ctx_wf_def)
  moreover have "placed one_track"
    by (simp add: one_track_eq built_def placed_def core_def entry_of_def gain_of_def inj_on_def)
  moreover have "valued one_track"
    by (simp add: one_track_eq built_def valued_def entry_of_def gain_of_def MAX_OFFSET_SECONDS_def)
      (rule exI [of _ "1 / 2"], simp)
  moreover have "wired one_track"
    by (auto simp: one_track_eq built_def wired_def preds_def entry_of_def gain_of_def)
  ultimately show ?thesis by (simp add: graph_ok_def)
qed

lemma one_track_renders: "renders (ctx one_track) (one_track_out x)"
proof -
  have p: "preds (ctx one_track) 0 = {6}" "preds (ctx one_track) 2 = {1}" "preds (ctx one_track) 3 = {7}"
    "preds (ctx one_track) 4 = {3}" "preds (ctx one_track) 5 = {4}" "preds (ctx one_track) 6 = {2, 5, 8}"
    "preds (ctx one_track) 7 = {9}" "preds (ctx one_track) 8 = {7}"
    by (auto simp: one_track_eq preds_def)
  show ?thesis
    unfolding renders_def
  proof (intro allI)
    fix n t
    have "nodes (ctx one_track) n = None" if "n \<notin> {0, 1, 2, 3, 4, 5, 6, 7, 8, 9}"
      using that by (simp add: one_track_eq)
    then show "case nodes (ctx one_track) n of
        Some (GainNode g) \<Rightarrow> one_track_out x n t = g * (\<Sum>m\<in>preds (ctx one_track) n. one_track_out x m t)
      | Some (DelayNode mx d) \<Rightarrow> one_track_out x n t = (\<Sum>m\<in>preds (ctx one_track) n. one_track_out x m (t - d))
      | Some Destination \<Rightarrow> one_track_out x n t = (\<Sum>m\<in>preds (ctx one_track) n. one_track_out x m t)
      | _ \<Rightarrow> True"
      using p by (cases "n \<in> {0, 1, 2, 3, 4, 5, 6, 7, 8, 9}")
        (auto simp: one_track_eq built_def one_track_out_def)
  qed
qed





text \<open>
  C28: the delay is the slider's offset clamped to 0 to 30 seconds (0 for a number that is not
  finite), up to the rounding of two stores, and a track's level is the slider's value clamped to
  0 to 1; no other level changes.
\<close>

theorem sliders_clamped:
  assumes "graph_ok g" "s \<in> dom (tracks g)" "r \<in> dom (tracks g)"
  shows "delay_value (setOffsetMs g ms) = f32 (f64 (clamp_ms ms / 1000))
    \<and> 0 \<le> delay_value (setOffsetMs g ms) \<and> delay_value (setOffsetMs g ms) \<le> 30
    \<and> offsetMs (setOffsetMs g ms) = clamp_ms ms
    \<and> track_level (setTrackGain g s v) r = (if r = s then f32 (clamp01 v) else track_level g r)
    \<and> 0 \<le> f32 (clamp01 v) \<and> f32 (clamp01 v) \<le> 1"
  using levels_set [OF assms] offset_delay_range [OF clamp_ms_range, of ms] f32_clamp01 [of v]
  by (auto simp: setOffsetMs_eq delay_value_def MAX_OFFSET_SECONDS_def)

theorem sliders_clamped_witness:
  "track_level (setTrackGain one_track (js ''mic'') (Fin 7)) (js ''mic'') = 1
   \<and> offsetMs (setOffsetMs one_track PosInf) = 0"
proof -
  have "js ''mic'' \<in> dom (tracks one_track)" by (simp add: one_track_eq)
  from sliders_clamped [OF one_track_ok this this, of PosInf "Fin 7"] show ?thesis
    by (simp add: clamp01_def clamp_ms_def)
qed

end
