(* ===== verification/Scheduler.thy ===== *)
theory Scheduler
  imports Graph
begin

text \<open>
  \<^verbatim>\<open>extension/src/audio/scheduler.ts\<close>: the playback scheduler of one track.

  A lane keeps the play cursor and the sources it has started; its operations also change the
  audio context. The clock is the context's; the cursor is a double, so every addition rounds.
  Results: a source never starts in the past, starts never overlap and are gapless while the
  queue keeps up, and the list of live sources is exact.
\<close>

definition FRAME_DURATION :: rat where
  "FRAME_DURATION = f64 (1 / 50)"

record ScheduledLane =
  destination :: nat
  playCursor :: rat
  liveSources :: "nat list"

definition createScheduler :: "nat \<Rightarrow> ScheduledLane" where
  "createScheduler dest = \<lparr>destination = dest, playCursor = 0, liveSources = []\<rparr>"

definition enqueue :: "AudioContext \<Rightarrow> ScheduledLane \<Rightarrow> AudioBuffer \<Rightarrow> AudioContext \<times> ScheduledLane" where
  "enqueue c lane buf =
     (let now = currentTime c;
          cursor = (if playCursor lane < f64 (now + FRAME_DURATION)
                    then f64 (now + FRAME_DURATION) else playCursor lane);
          (src, c) = create_node c (BufferSource [] 0 False);
          c = set_node c src (BufferSource buf 0 False);
          c = connect_node c src (destination lane);
          c = set_node c src (BufferSource buf cursor False)
      in (c, lane\<lparr>liveSources := liveSources lane @ [src], playCursor := f64 (cursor + FRAME_DURATION)\<rparr>))"

text \<open>\<^verbatim>\<open>src.onended\<close>\<close>

definition onended :: "AudioContext \<Rightarrow> ScheduledLane \<Rightarrow> nat \<Rightarrow> AudioContext \<times> ScheduledLane" where
  "onended c lane src = (disconnect_node c src, lane\<lparr>liveSources := remove1 src (liveSources lane)\<rparr>)"

definition stop_source :: "AudioContext \<Rightarrow> nat \<Rightarrow> AudioContext" where
  "stop_source c s =
     (case nodes c s of
        Some (BufferSource b st _) \<Rightarrow> set_node c s (BufferSource b st True)
      | _ \<Rightarrow> c)"

definition close_lane :: "AudioContext \<Rightarrow> ScheduledLane \<Rightarrow> AudioContext \<times> ScheduledLane" where
  "close_lane c lane =
     (fold (\<lambda>s c. disconnect_node (stop_source c s) s) (liveSources lane) c, lane\<lparr>liveSources := []\<rparr>)"

subsection \<open>Start times\<close>

text \<open>When the next buffer would start: the later of the cursor and the lead-in.\<close>

definition next_start :: "ScheduledLane \<Rightarrow> rat \<Rightarrow> rat" where
  "next_start lane now = max (playCursor lane) (f64 (now + FRAME_DURATION))"

lemma FRAME_DURATION_pos: "0 < FRAME_DURATION"
proof -
  have "f64 (2 powi (- 6)) = 2 powi (- 6)"
    unfolding f64_def by (intro fl_round_id is_fl_power) simp_all
  moreover have "(2 :: rat) powi (- 6) \<le> 1 / 50" by (simp add: power_int_def power_divide)
  ultimately have "2 powi (- 6) \<le> FRAME_DURATION"
    unfolding FRAME_DURATION_def by (metis f64.rnd_mono)
  moreover have "(0 :: rat) < 2 powi (- 6)" by (simp add: power_int_def)
  ultimately show ?thesis by linarith
qed

lemma enqueue_eq:
  "enqueue c lane buf =
     (let f = fresh c in
      (set_node (connect_node (set_node (snd (create_node c (BufferSource [] 0 False))) f (BufferSource buf 0 False))
          f (destination lane)) f (BufferSource buf (next_start lane (currentTime c)) False),
       lane\<lparr>liveSources := liveSources lane @ [f],
            playCursor := f64 (next_start lane (currentTime c) + FRAME_DURATION)\<rparr>))"
  by (auto simp: enqueue_def Let_def split_beta next_start_def max_def)

lemma enqueue_start:
  "bs_start (the (nodes (fst (enqueue c lane buf)) (fresh c))) = next_start lane (currentTime c)"
  "bs_buffer (the (nodes (fst (enqueue c lane buf)) (fresh c))) = buf"
  by (simp_all add: enqueue_eq Let_def)

text \<open>The start times of buffers that arrive at the given clock readings.\<close>

fun starts :: "ScheduledLane \<Rightarrow> rat list \<Rightarrow> rat list" where
  "starts lane [] = []"
| "starts lane (now # nows) =
     next_start lane now
     # starts (lane\<lparr>playCursor := f64 (next_start lane now + FRAME_DURATION)\<rparr>) nows"

definition is_f64 :: "rat \<Rightarrow> bool" where
  "is_f64 x \<longleftrightarrow> f64 x = x"

lemma is_f64_f64 [simp]: "is_f64 (f64 x)"
  by (simp add: is_f64_def f64.rnd_idem)

lemma next_start_f64: "is_f64 (playCursor lane) \<Longrightarrow> is_f64 (next_start lane now)"
  by (simp add: next_start_def max_def)

lemma next_start_lead: "f64 (now + FRAME_DURATION) \<le> next_start lane now"
  by (simp add: next_start_def)

lemma next_start_future:
  assumes "is_f64 now"
  shows "now \<le> next_start lane now"
  using next_start_lead [of now lane] f64.rnd_add_ge [of now FRAME_DURATION] assms FRAME_DURATION_pos
  by (simp add: is_f64_def)

lemma length_starts [simp]: "length (starts lane nows) = length nows"
  by (induction nows arbitrary: lane) simp_all

lemma starts_0: "nows \<noteq> [] \<Longrightarrow> starts lane nows ! 0 = next_start lane (nows ! 0)"
  by (cases nows) simp_all

lemma starts_Suc:
  "Suc i < length nows \<Longrightarrow>
     starts lane nows ! Suc i = max (f64 (starts lane nows ! i + FRAME_DURATION)) (f64 (nows ! Suc i + FRAME_DURATION))"
proof (induction i arbitrary: lane nows)
  case 0
  then obtain a b ns where "nows = a # b # ns" by (cases nows; cases "tl nows") auto
  then show ?case by (simp add: next_start_def)
next
  case (Suc i)
  then obtain a ns where n: "nows = a # ns" by (cases nows) auto
  with Suc.prems have "Suc i < length ns" by simp
  from Suc.IH [OF this] show ?case by (simp add: n)
qed

lemma starts_lead: "i < length nows \<Longrightarrow> f64 (nows ! i + FRAME_DURATION) \<le> starts lane nows ! i"
  by (cases i) (auto simp: starts_0 next_start_def starts_Suc)

lemma starts_f64: "is_f64 (playCursor lane) \<Longrightarrow> i < length nows \<Longrightarrow> is_f64 (starts lane nows ! i)"
  by (cases i) (auto simp: starts_0 next_start_f64 starts_Suc max_def)

lemma starts_mono_step:
  "is_f64 (playCursor lane) \<Longrightarrow> Suc i < length nows \<Longrightarrow> starts lane nows ! i \<le> starts lane nows ! Suc i"
  using starts_f64 [of lane i nows] f64.rnd_add_ge [of "starts lane nows ! i" FRAME_DURATION] FRAME_DURATION_pos
  by (simp add: starts_Suc is_f64_def le_max_iff_disj)

lemma starts_sorted: "is_f64 (playCursor lane) \<Longrightarrow> sorted (starts lane nows)"
  by (auto simp: sorted_iff_nth_Suc starts_mono_step)

subsection \<open>Playing a sequence of buffers\<close>

fun play :: "AudioContext \<Rightarrow> ScheduledLane \<Rightarrow> (rat \<times> AudioBuffer) list \<Rightarrow> AudioContext \<times> ScheduledLane" where
  "play c lane [] = (c, lane)"
| "play c lane ((now, buf) # evs) =
     (case enqueue (c\<lparr>currentTime := now\<rparr>) lane buf of (c', lane') \<Rightarrow> play c' lane' evs)"

lemma starts_cursor: "playCursor l = playCursor l' \<Longrightarrow> starts l nows = starts l' nows"
proof (induction nows arbitrary: l l')
  case (Cons now nows)
  from Cons.prems have "next_start l now = next_start l' now" by (simp add: next_start_def)
  with Cons.IH show ?case by (metis ScheduledLane.select_convs(2) ScheduledLane.surjective ScheduledLane.update_convs(2) starts.simps(2))
qed simp

lemma play_old: "n < fresh c \<Longrightarrow> nodes (fst (play c lane evs)) n = nodes c n"
proof (induction evs arbitrary: c lane)
  case (Cons ev evs)
  obtain now buf where "ev = (now, buf)" by (cases ev)
  with Cons show ?case by (simp add: enqueue_eq Let_def split_beta)
qed simp

lemma play_sources:
  "liveSources (snd (play c lane evs)) = liveSources lane @ [fresh c ..< fresh c + length evs]
   \<and> fresh (fst (play c lane evs)) = fresh c + length evs
   \<and> (\<forall>i < length evs. nodes (fst (play c lane evs)) (fresh c + i)
        = Some (BufferSource (snd (evs ! i)) (starts lane (map fst evs) ! i) False))"
proof (induction evs arbitrary: c lane)
  case (Cons ev evs)
  obtain now buf where ev: "ev = (now, buf)" by (cases ev)
  let ?c = "c\<lparr>currentTime := now\<rparr>"
  let ?e = "enqueue ?c lane buf"
  have f: "fresh (fst ?e) = Suc (fresh c)" "liveSources (snd ?e) = liveSources lane @ [fresh c]"
    "starts (snd ?e) nows = starts (lane\<lparr>playCursor := f64 (next_start lane now + FRAME_DURATION)\<rparr>) nows" for nows
    by (simp_all add: enqueue_eq Let_def) (rule starts_cursor, simp)
  have p: "play c lane (ev # evs) = play (fst ?e) (snd ?e) evs" by (simp add: ev split_beta)
  note IH = Cons.IH [of "fst ?e" "snd ?e", unfolded f]
  have "nodes (fst (play (fst ?e) (snd ?e) evs)) (fresh c) = nodes (fst ?e) (fresh c)"
    by (rule play_old) (simp add: f)
  also have "\<dots> = Some (BufferSource buf (next_start lane now) False)" by (simp add: enqueue_eq Let_def)
  finally have z: "nodes (fst (play (fst ?e) (snd ?e) evs)) (fresh c) = Some (BufferSource buf (next_start lane now) False)" .
  have "nodes (fst (play (fst ?e) (snd ?e) evs)) (fresh c + i)
      = Some (BufferSource (snd ((ev # evs) ! i)) (starts lane (map fst (ev # evs)) ! i) False)"
    if "i < Suc (length evs)" for i
    using z IH that by (cases i) (auto simp: ev)
  moreover have "[fresh c ..< Suc (fresh c + length evs)] = fresh c # [Suc (fresh c) ..< Suc (fresh c + length evs)]"
    by (rule upt_conv_Cons) simp
  ultimately show ?case unfolding p using IH by simp
qed simp

subsection \<open>Live sources\<close>

text \<open>Every live source is a started source of this lane that still feeds its destination.\<close>

definition lane_ok :: "AudioContext \<Rightarrow> ScheduledLane \<Rightarrow> bool" where
  "lane_ok c lane \<longleftrightarrow>
     distinct (liveSources lane) \<and> is_f64 (playCursor lane) \<and> destination lane \<in> dom (nodes c)
     \<and> (\<forall>s\<in>set (liveSources lane).
          (\<exists>b t. nodes c s = Some (BufferSource b t False)) \<and> s \<in> preds c (destination lane))"

lemma createScheduler_ok: "d \<in> dom (nodes c) \<Longrightarrow> lane_ok c (createScheduler d)"
  using f64.rnd_0 by (simp add: lane_ok_def createScheduler_def is_f64_def)

lemma enqueue_ok:
  assumes "ctx_wf c" "lane_ok c lane"
  shows "lane_ok (fst (enqueue c lane buf)) (snd (enqueue c lane buf))"
proof -
  have "s \<noteq> fresh c" if "s \<in> set (liveSources lane)" for s
    using assms that ctx_wf_fresh [OF assms(1)] unfolding lane_ok_def by fastforce
  then show ?thesis using assms(2) by (auto simp: lane_ok_def enqueue_eq Let_def)
qed

lemma onended_ok:
  assumes "lane_ok c lane" "destination lane \<notin> set (liveSources lane)"
  shows "lane_ok (fst (onended c lane src)) (snd (onended c lane src))"
  using assms by (auto simp: lane_ok_def onended_def)

lemma stop_source_simps [simp]:
  "preds (stop_source c s) n = preds c n" "dom (nodes (stop_source c s)) = dom (nodes c)"
  "n \<noteq> s \<Longrightarrow> nodes (stop_source c s) n = nodes c n" "fresh (stop_source c s) = fresh c"
  "edges (stop_source c s) = edges c"
  by (auto simp: stop_source_def split: option.split node.split)

lemma close_nodes:
  "n \<notin> set ss \<Longrightarrow> nodes (fold (\<lambda>s c. disconnect_node (stop_source c s) s) ss c) n = nodes c n"
  by (induction ss arbitrary: c) simp_all

lemma close_preds:
  "preds (fold (\<lambda>s c. disconnect_node (stop_source c s) s) ss c) n = preds c n - set ss"
  by (induction ss arbitrary: c) auto

lemma close_wf: "ctx_wf c \<Longrightarrow> ctx_wf (fold (\<lambda>s c. disconnect_node (stop_source c s) s) ss c)"
proof (induction ss arbitrary: c)
  case (Cons s ss)
  then have "ctx_wf (stop_source c s)"
    by (auto simp: stop_source_def intro: ctx_wf_set split: option.split node.split)
  then show ?case using Cons.IH by (simp add: ctx_wf_disconnect)
qed simp

lemma close_stopped:
  assumes "distinct ss" "s \<in> set ss" "nodes c s = Some (BufferSource b t x)"
  shows "nodes (fold (\<lambda>s c. disconnect_node (stop_source c s) s) ss c) s = Some (BufferSource b t True)"
  using assms
proof (induction ss arbitrary: c)
  case (Cons a ss)
  show ?case
  proof (cases "a = s")
    case True
    with Cons.prems show ?thesis by (simp add: close_nodes) (simp add: stop_source_def)
  qed (use Cons in simp)
qed simp

subsection \<open>Playback leaves the routing alone\<close>

lemma enqueue_graph_ok:
  assumes "graph_ok g" "destination lane \<notin> listeners g" "destination lane \<in> dom (nodes (ctx g))"
  shows "graph_ok (g\<lparr>ctx := fst (enqueue (ctx g) lane buf)\<rparr>)"
proof (rule graph_ok_ctx [OF assms(1)])
  have wf: "ctx_wf (ctx g)" using assms(1) by (simp add: graph_ok_def)
  then show "ctx_wf (fst (enqueue (ctx g) lane buf))"
    using assms(3) by (auto simp: enqueue_eq Let_def intro!: ctx_wf_set ctx_wf_connect ctx_wf_create)
  have lt: "n < fresh (ctx g)" if "n \<in> roles g" for n
    using that track_nodes_less [OF assms(1)] by (auto simp: roles_def)
  show "nodes (fst (enqueue (ctx g) lane buf)) n = nodes (ctx g) n" if "n \<in> roles g" for n
    using lt [OF that] by (simp add: enqueue_eq Let_def)
  show "preds (fst (enqueue (ctx g) lane buf)) n = preds (ctx g) n" if "n \<in> listeners g" for n
    using that assms(2) by (auto simp: enqueue_eq Let_def)
qed

lemma onended_graph_ok:
  assumes "graph_ok g" "nodes (ctx g) src = Some (BufferSource b t x)"
  shows "graph_ok (g\<lparr>ctx := fst (onended (ctx g) lane src)\<rparr>)"
proof (rule graph_ok_ctx [OF assms(1)])
  show "ctx_wf (fst (onended (ctx g) lane src))"
    using assms(1) by (simp add: graph_ok_def onended_def ctx_wf_disconnect)
  show "nodes (fst (onended (ctx g) lane src)) n = nodes (ctx g) n" for n by (simp add: onended_def)
  show "preds (fst (onended (ctx g) lane src)) n = preds (ctx g) n" if "n \<in> listeners g" for n
    using buffer_not_pred [OF assms that] by (simp add: onended_def)
qed

lemma close_graph_ok:
  assumes "graph_ok g" "lane_ok (ctx g) lane"
  shows "graph_ok (g\<lparr>ctx := fst (close_lane (ctx g) lane)\<rparr>)"
proof (rule graph_ok_ctx [OF assms(1)])
  have b: "\<exists>b t. nodes (ctx g) s = Some (BufferSource b t False)" if "s \<in> set (liveSources lane)" for s
    using assms(2) that by (auto simp: lane_ok_def)
  show "ctx_wf (fst (close_lane (ctx g) lane))" using assms(1) by (simp add: graph_ok_def close_lane_def close_wf)
  show "nodes (fst (close_lane (ctx g) lane)) n = nodes (ctx g) n" if "n \<in> roles g" for n
  proof -
    have "n \<notin> set (liveSources lane)" using b that buffer_not_role [OF assms(1)] by blast
    then show ?thesis by (simp add: close_lane_def close_nodes)
  qed
  show "preds (fst (close_lane (ctx g) lane)) n = preds (ctx g) n" if "n \<in> listeners g" for n
  proof -
    have "set (liveSources lane) \<inter> preds (ctx g) n = {}"
      using b buffer_not_pred [OF assms(1) _ that] by blast
    then show ?thesis by (auto simp: close_lane_def close_preds)
  qed
qed

subsection \<open>Properties\<close>

text \<open>
  C13: buffers enqueued at clock readings \<open>nows\<close> become sources, in order, each started no earlier
  than one frame after its arrival; each start is the later of one frame after the previous start
  and one frame after the arrival, so sources never overlap and follow without a gap while the
  queue keeps up; starts never go back.
\<close>

theorem playback_schedule:
  fixes lane :: ScheduledLane and evs :: "(rat \<times> AudioBuffer) list"
  assumes "is_f64 (playCursor lane)"
  defines "st \<equiv> starts lane (map fst evs)"
  shows "(\<forall>i < length evs. nodes (fst (play c lane evs)) (fresh c + i)
             = Some (BufferSource (snd (evs ! i)) (st ! i) False)
           \<and> f64 (fst (evs ! i) + FRAME_DURATION) \<le> st ! i)
    \<and> (\<forall>i. Suc i < length evs \<longrightarrow>
         st ! Suc i = max (f64 (st ! i + FRAME_DURATION)) (f64 (fst (evs ! Suc i) + FRAME_DURATION)))
    \<and> sorted st"
  using play_sources [of c lane evs] starts_lead [of _ "map fst evs" lane] starts_Suc [of _ "map fst evs" lane]
    starts_sorted [OF assms(1), of "map fst evs"]
  by (auto simp: st_def)

theorem playback_schedule_witness:
  "sorted (starts (createScheduler 7) (map fst [(1 / 2, [[0]]), (0, [[1]]), (3, [[2 :: rat]])]))"
  using playback_schedule [of "createScheduler 7" "[(1 / 2, [[0]]), (0, [[1]]), (3, [[2]])]" new_ctx] f64.rnd_0
  by (simp add: createScheduler_def is_f64_def)

text \<open>
  Closing a lane stops and disconnects every source it has started and not yet finished, and
  forgets them; it disturbs neither the routing of the graph nor any other connection.
\<close>

lemma lane_closed:
  assumes "graph_ok g" "lane_ok (ctx g) lane"
  shows "(\<forall>s\<in>set (liveSources lane). \<exists>b t. nodes (fst (close_lane (ctx g) lane)) s = Some (BufferSource b t True))
    \<and> (\<forall>n. preds (fst (close_lane (ctx g) lane)) n = preds (ctx g) n - set (liveSources lane))
    \<and> liveSources (snd (close_lane (ctx g) lane)) = []
    \<and> graph_ok (g\<lparr>ctx := fst (close_lane (ctx g) lane)\<rparr>)"
proof -
  have "\<exists>b t. nodes (fst (close_lane (ctx g) lane)) s = Some (BufferSource b t True)"
    if s: "s \<in> set (liveSources lane)" for s
  proof -
    obtain b t where n: "nodes (ctx g) s = Some (BufferSource b t False)" and d: "distinct (liveSources lane)"
      using assms(2) s by (auto simp: lane_ok_def)
    show ?thesis using close_stopped [OF d s n] by (simp add: close_lane_def)
  qed
  then show ?thesis using close_graph_ok [OF assms] by (simp add: close_lane_def close_preds)
qed

lemma one_track_lane: "lane_ok (ctx one_track) \<lparr>destination = 7, playCursor = 0, liveSources = [9]\<rparr>"
  using f64.rnd_0 by (auto simp: lane_ok_def one_track_eq preds_def is_f64_def)

lemma lane_closed_example:
  "graph_ok (one_track\<lparr>ctx := fst (close_lane (ctx one_track) \<lparr>destination = 7, playCursor = 0, liveSources = [9]\<rparr>)\<rparr>)"
  using lane_closed [OF one_track_ok one_track_lane] by blast

end
