(* ===== verification/OpusDecoder.thy ===== *)
theory OpusDecoder
  imports Constants WebAudio
begin

text \<open>
  \<^verbatim>\<open>extension/src/audio/decoder.ts\<close>: one track's decoder over WebCodecs.

  The codec itself is not code of this repository: a lane records the chunks it submitted and
  whether the codec was closed, and what the codec hands back (\<open>AudioData\<close>) is an argument of
  the output callback. Sequence numbers and timestamps are JavaScript numbers; the results say
  that for the sequence numbers of the wire the timestamps are exact, and which timestamp each
  packet of any sequence gets.
\<close>

definition FRAME_DURATION_US :: jsnum where
  "FRAME_DURATION_US = nnum 20000"

definition SAMPLE_RATE :: nat where
  "SAMPLE_RATE = 48000"

definition CHANNELS :: nat where
  "CHANNELS = 2"

record EncodedAudioChunk =
  timestamp :: jsnum
  data :: bytes

record OpusDecoderLane =
  baseSeq :: "jsnum option"
  lastSeq :: "jsnum option"
  codec_closed :: bool
  submitted :: "EncodedAudioChunk list"

text \<open>\<open>available\<close>: the browser has \<^verbatim>\<open>AudioDecoder\<close>; without it the constructor throws (\<open>None\<close>).\<close>

definition createOpusDecoder :: "bool \<Rightarrow> OpusDecoderLane option" where
  "createOpusDecoder available =
     (if \<not> available then None
      else Some \<lparr>baseSeq = None, lastSeq = None, codec_closed = False, submitted = []\<rparr>)"

text \<open>
  The second component is False when \<^verbatim>\<open>decoder.decode\<close> throws, as it does on a closed codec; the
  sequence state is updated before that.
\<close>

definition decode :: "OpusDecoderLane \<Rightarrow> bytes \<Rightarrow> jsnum \<Rightarrow> OpusDecoderLane \<times> bool" where
  "decode lane packet seq =
     (let base = (case baseSeq lane of None \<Rightarrow> seq | Some b \<Rightarrow> b);
          rel = num_sub seq base;
          ts = num_mul rel FRAME_DURATION_US;
          base = (case lastSeq lane of Some lseq \<Rightarrow> if num_lt seq lseq then seq else base | None \<Rightarrow> base);
          lane = lane\<lparr>baseSeq := Some base, lastSeq := Some seq\<rparr>;
          chunk = \<lparr>timestamp = ts, data = packet\<rparr>
      in if codec_closed lane then (lane, False)
         else (lane\<lparr>submitted := submitted lane @ [chunk]\<rparr>, True))"

definition close_decoder :: "OpusDecoderLane \<Rightarrow> OpusDecoderLane" where
  "close_decoder lane = lane\<lparr>codec_closed := True\<rparr>"

text \<open>
  A decode error: WebCodecs closes the codec and then calls \<^verbatim>\<open>error\<close>, which only logs
  (lines 59 to 62).
\<close>

definition codec_error :: "OpusDecoderLane \<Rightarrow> OpusDecoderLane" where
  "codec_error lane = lane\<lparr>codec_closed := True\<rparr>"

subsection \<open>The output callback\<close>

text \<open>
  What \<^verbatim>\<open>copyTo\<close> writes for a plane of the planar format and for the interleaved one; \<open>None\<close>
  when it throws.
\<close>

record AudioData =
  numberOfFrames :: nat
  copy_planar :: "nat \<Rightarrow> sample list option"
  copy_interleaved :: "sample list option"

text \<open>Copying into a typed array that is not grown.\<close>

definition fill :: "sample list \<Rightarrow> sample list \<Rightarrow> sample list" where
  "fill dst xs = take (length dst) xs @ drop (length xs) dst"

definition copyToChannel :: "AudioBuffer \<Rightarrow> sample list \<Rightarrow> nat \<Rightarrow> AudioBuffer" where
  "copyToChannel buf src ch = buf[ch := fill (buf ! ch) src]"

fun planar_loop :: "AudioData \<Rightarrow> nat list \<Rightarrow> sample list \<Rightarrow> AudioBuffer \<Rightarrow> AudioBuffer \<times> bool" where
  "planar_loop d [] tmp buf = (buf, True)"
| "planar_loop d (ch # chs) tmp buf =
     (case copy_planar d ch of
        None \<Rightarrow> (buf, False)
      | Some xs \<Rightarrow>
          let tmp = fill tmp xs in planar_loop d chs tmp (copyToChannel buf tmp ch))"

definition deinterleave :: "nat \<Rightarrow> nat \<Rightarrow> sample list \<Rightarrow> sample list" where
  "deinterleave frames ch xs = map (\<lambda>i. xs ! (i * CHANNELS + ch)) [0..<frames]"

definition decoder_output :: "AudioData \<Rightarrow> AudioBuffer option" where
  "decoder_output d =
     (let frames = numberOfFrames d;
          buf = replicate CHANNELS (replicate frames 0);
          tmp = replicate frames 0;
          (buf, ok) = planar_loop d [0..<CHANNELS] tmp buf
      in if ok then Some buf
         else
           (case copy_interleaved d of
              None \<Rightarrow> None
            | Some xs \<Rightarrow>
                let interleaved = fill (replicate (frames * CHANNELS) 0) xs
                in Some (fold (\<lambda>ch buf. copyToChannel buf (deinterleave frames ch interleaved) ch)
                           [0..<CHANNELS] buf)))"

subsection \<open>Timestamps\<close>

lemma num_sub_exact: "\<bar>a\<bar> \<le> 2 ^ 52 \<Longrightarrow> \<bar>b\<bar> \<le> 2 ^ 52 \<Longrightarrow> num_sub (num a) (num b) = num (a - b)"
  using to_double_id [OF is_double_of_int, of "a - b"] by (simp add: num_sub_def)

lemma num_mul_exact: "\<bar>a * b\<bar> \<le> 2 ^ 53 \<Longrightarrow> num_mul (num a) (num b) = num (a * b)"
  using to_double_id [OF is_double_of_int, of "a * b"] by (simp add: num_mul_def)

definition wire_seq :: "nat \<Rightarrow> bool" where
  "wire_seq n \<longleftrightarrow> n \<le> 0xffffffff"

lemma timestamp_exact:
  assumes "wire_seq n" "wire_seq b"
  shows "num_mul (num_sub (nnum n) (nnum b)) FRAME_DURATION_US = num ((int n - int b) * 20000)"
proof -
  have "num_sub (nnum n) (nnum b) = num (int n - int b)"
    using num_sub_exact [of "int n" "int b"] assms by (simp add: wire_seq_def)
  moreover have "num_mul (num (int n - int b)) (num 20000) = num ((int n - int b) * 20000)"
    using assms by (intro num_mul_exact) (auto simp: wire_seq_def abs_le_iff)
  ultimately show ?thesis by (simp add: FRAME_DURATION_US_def)
qed

text \<open>
  The timestamps of a whole sequence. \<open>b\<close> is the base in force before a packet and \<open>l\<close> the last
  sequence number; a step backwards moves the base, from the packet after it.
\<close>

fun stamps :: "nat \<Rightarrow> nat \<Rightarrow> nat list \<Rightarrow> int list" where
  "stamps b l [] = []"
| "stamps b l (n # ns) = (int n - int b) * 20000 # stamps (if n < l then n else b) n ns"

definition decode_all :: "OpusDecoderLane \<Rightarrow> (bytes \<times> nat) list \<Rightarrow> OpusDecoderLane" where
  "decode_all lane ps = fold (\<lambda>(p, n) lane. fst (decode lane p (nnum n))) ps lane"

lemma decode_all_step:
  assumes "baseSeq lane = Some (nnum b)" "lastSeq lane = Some (nnum l)" "\<not> codec_closed lane"
    and "wire_seq b" "list_all (\<lambda>(p, n). wire_seq n) ps"
  shows "map timestamp (submitted (decode_all lane ps))
           = map timestamp (submitted lane) @ map num (stamps b l (map snd ps))
       \<and> map data (submitted (decode_all lane ps)) = map data (submitted lane) @ map fst ps"
  using assms
proof (induction ps arbitrary: lane b l)
  case (Cons pn ps)
  obtain p n where pn: "pn = (p, n)" by (cases pn)
  let ?lane = "fst (decode lane p (nnum n))" and ?b = "if n < l then n else b"
  have wn: "wire_seq n" using Cons.prems(5) pn by simp
  have d: "baseSeq ?lane = Some (nnum ?b)" "lastSeq ?lane = Some (nnum n)" "\<not> codec_closed ?lane"
    "submitted ?lane = submitted lane @ [\<lparr>timestamp = num ((int n - int b) * 20000), data = p\<rparr>]"
    using Cons.prems(1-3) timestamp_exact [OF wn Cons.prems(4)] by (simp_all add: decode_def Let_def)
  have "map timestamp (submitted (decode_all ?lane ps))
           = map timestamp (submitted ?lane) @ map num (stamps ?b n (map snd ps))
       \<and> map data (submitted (decode_all ?lane ps)) = map data (submitted ?lane) @ map fst ps"
    using d wn Cons.prems by (intro Cons.IH) auto
  then show ?case by (simp add: pn decode_all_def d)
qed (simp add: decode_all_def)

lemma decode_all_fresh:
  assumes "createOpusDecoder True = Some lane" "list_all (\<lambda>(p, n). wire_seq n) ps" "ps \<noteq> []"
  defines "n0 \<equiv> snd (hd ps)"
  shows "map timestamp (submitted (decode_all lane ps)) = map num (stamps n0 n0 (map snd ps))
       \<and> map data (submitted (decode_all lane ps)) = map fst ps"
proof -
  obtain p rest where ps: "ps = (p, n0) # rest" using assms(3) n0_def by (cases ps) auto
  let ?l = "fst (decode lane p (nnum n0))"
  have wn: "wire_seq n0" using assms(2) ps by simp
  have d: "baseSeq ?l = Some (nnum n0)" "lastSeq ?l = Some (nnum n0)" "\<not> codec_closed ?l"
    "submitted ?l = [\<lparr>timestamp = num 0, data = p\<rparr>]"
    using assms(1) timestamp_exact [OF wn wn] by (auto simp: createOpusDecoder_def decode_def Let_def)
  show ?thesis
    using decode_all_step [OF d(1-3) wn, of rest] assms(2) d(4) by (simp add: ps decode_all_def)
qed

text \<open>While the publisher counts up, timestamps are the distance from the first packet.\<close>

lemma stamps_monotone: "sorted (l # ns) \<Longrightarrow> stamps b l ns = map (\<lambda>n. (int n - int b) * 20000) ns"
  by (induction ns arbitrary: l) (auto simp: not_less)

lemma stamps_bound: "wire_seq b \<Longrightarrow> list_all wire_seq ns \<Longrightarrow> t \<in> set (stamps b l ns) \<Longrightarrow> \<bar>t\<bar> < 2 ^ 53"
  by (induction ns arbitrary: b l) (auto simp: wire_seq_def abs_less_iff split: if_splits)

subsection \<open>Output\<close>

fun interleave :: "sample list \<Rightarrow> sample list \<Rightarrow> sample list" where
  "interleave (a # l) (b # r) = a # b # interleave l r"
| "interleave _ _ = []"

lemma length_interleave [simp]: "length l = length r \<Longrightarrow> length (interleave l r) = 2 * length l"
  by (induction l r rule: list_induct2) simp_all

lemma nth_interleave:
  "length l = length r \<Longrightarrow> i < length l \<Longrightarrow> interleave l r ! (2 * i) = l ! i \<and> interleave l r ! (2 * i + 1) = r ! i"
  by (induction l r arbitrary: i rule: list_induct2) (auto simp: nth_Cons split: nat.splits)

lemma fill_same [simp]: "length xs = length dst \<Longrightarrow> fill dst xs = xs"
  by (simp add: fill_def)

lemma deinterleave_interleave:
  assumes "length l = n" "length r = n"
  shows "deinterleave n 0 (interleave l r) = l" "deinterleave n 1 (interleave l r) = r"
  using assms nth_interleave [of l r]
  by (auto simp: deinterleave_def CHANNELS_def list_eq_iff_nth_eq mult.commute)

text \<open>The data is the stereo signal \<open>l\<close>, \<open>r\<close>, in whichever formats the codec supports.\<close>

definition stereo :: "AudioData \<Rightarrow> sample list \<Rightarrow> sample list \<Rightarrow> bool" where
  "stereo d l r \<longleftrightarrow>
     length l = numberOfFrames d \<and> length r = numberOfFrames d
     \<and> (copy_planar d 0 = Some l \<or> copy_planar d 0 = None) \<and> (copy_planar d 1 = Some r \<or> copy_planar d 1 = None)
     \<and> (copy_interleaved d = Some (interleave l r)
        \<or> copy_planar d 0 \<noteq> None \<and> copy_planar d 1 \<noteq> None)"

lemma decoder_output_stereo: "stereo d l r \<Longrightarrow> decoder_output d = Some [l, r]"
  using deinterleave_interleave [of l "numberOfFrames d" r]
  by (auto simp: stereo_def decoder_output_def CHANNELS_def Let_def upt_rec numeral_2_eq_2 copyToChannel_def)

subsection \<open>Properties\<close>



text \<open>
  A new decoder's packets are stamped by their distance from the first one, as long as the
  publisher's sequence numbers do not go back: from 0 on, 20 000 microseconds per step.
\<close>

lemma fresh_timestamps:
  assumes "createOpusDecoder True = Some lane" "list_all (\<lambda>(p, n). wire_seq n) ps" "sorted (map snd ps)"
  shows "map timestamp (submitted (decode_all lane ps))
    = map (\<lambda>n. num ((int n - int (snd (hd ps))) * 20000)) (map snd ps)"
proof (cases ps)
  case Nil
  with assms(1) show ?thesis by (auto simp: createOpusDecoder_def decode_all_def)
next
  case (Cons p qs)
  have "stamps (snd (hd ps)) (snd (hd ps)) (map snd ps)
      = map (\<lambda>n. (int n - int (snd (hd ps))) * 20000) (map snd ps)"
    by (rule stamps_monotone) (use Cons assms(3) in simp)
  with decode_all_fresh [OF assms(1,2)] Cons show ?thesis by (simp del: stamps.simps)
qed

lemma fresh_timestamps_example:
  "\<exists>lane. createOpusDecoder True = Some lane
     \<and> map timestamp (submitted (decode_all lane [([1], 7), ([2], 8), ([3], 11)])) = [num 0, num 20000, num 80000]"
proof -
  obtain lane where l: "createOpusDecoder True = Some lane" by (simp add: createOpusDecoder_def)
  from fresh_timestamps [OF l, of "[([1], 7), ([2], 8), ([3], 11)]"] show ?thesis
    using l by (auto simp: wire_seq_def)
qed

text \<open>
  C30: decoded stereo audio reaches the scheduler as its two channels, whether the codec hands out
  planes or only interleaved samples, also when planar copying fails half-way.
\<close>

theorem stereo_output: "stereo d l r \<Longrightarrow> decoder_output d = Some [l, r]"
  by (rule decoder_output_stereo)

theorem stereo_output_witness:
  "decoder_output \<lparr>numberOfFrames = 2, copy_planar = (\<lambda>ch. if ch = 0 then Some [1, 2] else None),
     copy_interleaved = Some [1, 3, 2, 4]\<rparr> = Some [[1, 2], [3, 4]]"
  by (rule stereo_output) (simp add: stereo_def)

text \<open>
  After a decode error the lane is dead: every later packet is refused and nothing is submitted.
\<close>

lemma dead_after_error:
  "decode (codec_error lane) p n = (lane', ok) \<Longrightarrow> \<not> ok \<and> submitted lane' = submitted lane \<and> codec_closed lane'"
  by (auto simp: codec_error_def decode_def Let_def)

end
