(* ===== verification/Content.thy ===== *)
theory Content
  imports RelayClient Prefs Scheduler OpusDecoder
begin

text \<open>
  \<^verbatim>\<open>extension/src/content/index.ts\<close>, lines 83 to 276: one mounted mixer.

  \<open>State\<close> holds the variables the closures of \<^verbatim>\<open>mount\<close> share, the objects they drive (the graph,
  the lanes, the panel's properties) and the preferences loaded for the page. Each closure is a
  function on it. A dictionary value may be \<^verbatim>\<open>undefined\<close> (\<open>None\<close>). A lane that is dropped is no longer in
  any map, but its decoder was closed first: \<open>retired\<close> keeps those decoders in view.

  The invariant \<open>content_ok\<close> ties the graph, the lanes and the settings to the track list, and
  \<open>levels_ok\<close> says that the level of every track in the graph is the one the panel shows.
\<close>

record AudioLane =
  decoder :: OpusDecoderLane
  scheduler :: ScheduledLane

record MixerProps =
  p_tracks :: "TrackInfo list"
  p_gains :: "jsnum option dict"
  p_muted :: "bool option dict"
  p_broadcastGain :: jsnum
  p_offsetMs :: jsnum

record State =
  graph :: MixerGraph
  globalPrefs :: prefs
  streamerPrefs :: prefs
  settings :: "jsstring \<rightharpoonup> ChannelSetting"
  audioLanes :: "jsstring \<rightharpoonup> AudioLane"
  trackList :: "TrackInfo list"
  gains :: "jsnum option dict"
  mutes :: "bool option dict"
  broadcast :: jsnum
  offset :: jsnum
  idToSlug :: "jsnum \<rightharpoonup> jsstring"
  mixer :: MixerProps
  webcodecs :: bool
  retired :: "OpusDecoderLane list"

definition DEFAULT_RELAY_URL :: jsstring where
  "DEFAULT_RELAY_URL = js ''wss://relay.streammix.dev''"

subsection \<open>Reading the dictionaries\<close>

text \<open>\<^verbatim>\<open>muted[slug] ? ... : ...\<close>; an inherited function is truthy.\<close>

definition is_muted :: "bool option dict \<Rightarrow> jsstring \<Rightarrow> bool" where
  "is_muted d sl =
     (case js_lookup d sl of Own b \<Rightarrow> b = Some True | Inherited \<Rightarrow> True | Undefined \<Rightarrow> False)"

text \<open>
  A number passed to the graph; \<^verbatim>\<open>undefined\<close> or a function is not a finite number there, as NaN
  is not.
\<close>

definition as_number :: "jsnum option \<Rightarrow> jsnum" where
  "as_number v = (case v of Some x \<Rightarrow> x | None \<Rightarrow> NaN)"

text \<open>\<^verbatim>\<open>gains[slug] ?? 0.5\<close>\<close>

definition gain_or_half :: "jsnum option dict \<Rightarrow> jsstring \<Rightarrow> jsnum" where
  "gain_or_half d sl =
     (case js_lookup d sl of Own (Some v) \<Rightarrow> v | Inherited \<Rightarrow> NaN | _ \<Rightarrow> Fin (1 / 2))"

text \<open>\<^verbatim>\<open>eff.muted ? 0 : eff.gain\<close>\<close>

definition setting_level :: "ChannelSetting \<Rightarrow> jsnum" where
  "setting_level eff = (if muted eff = Some True then nnum 0 else as_number (gain eff))"

subsection \<open>The handlers of the panel\<close>

definition onChange :: "jsstring \<Rightarrow> jsnum \<Rightarrow> State \<Rightarrow> State" where
  "onChange sl v st =
     (let gains' = (gains st)(sl \<mapsto> Some v);
          settings' = (case settings st sl of
                         Some s \<Rightarrow> (settings st)(sl \<mapsto> s\<lparr>gain := Some v\<rparr>)
                       | None \<Rightarrow> settings st);
          graph' = setTrackGain (graph st) sl (if is_muted (mutes st) sl then nnum 0 else v)
      in st\<lparr>gains := gains', settings := settings', graph := graph',
            mixer := (mixer st)\<lparr>p_gains := gains'\<rparr>\<rparr>)"

definition onMuteToggle :: "jsstring \<Rightarrow> State \<Rightarrow> State" where
  "onMuteToggle sl st =
     (let next = (\<not> is_muted (mutes st) sl);
          mutes' = (mutes st)(sl \<mapsto> Some next);
          settings' = (case settings st sl of
                         Some s \<Rightarrow> (settings st)(sl \<mapsto> s\<lparr>muted := Some next\<rparr>)
                       | None \<Rightarrow> settings st);
          graph' = setTrackGain (graph st) sl (if next then nnum 0 else gain_or_half (gains st) sl)
      in st\<lparr>mutes := mutes', settings := settings', graph := graph',
            mixer := (mixer st)\<lparr>p_muted := mutes'\<rparr>\<rparr>)"

fun solo_loop :: "jsstring \<Rightarrow> jsnum option dict \<Rightarrow> TrackInfo list \<Rightarrow> bool option dict \<times> MixerGraph
    \<Rightarrow> bool option dict \<times> MixerGraph" where
  "solo_loop s gs [] acc = acc"
| "solo_loop s gs (t # ts) (nextMuted, g) =
     (let nextMuted = nextMuted(slug t \<mapsto> Some (slug t \<noteq> s));
          g = setTrackGain g (slug t) (if is_muted nextMuted (slug t) then nnum 0 else gain_or_half gs (slug t))
      in solo_loop s gs ts (nextMuted, g))"

definition onSoloToggle :: "jsstring \<Rightarrow> State \<Rightarrow> State" where
  "onSoloToggle s st =
     (case solo_loop s (gains st) (trackList st) (Map.empty, graph st) of
        (nextMuted, g) \<Rightarrow>
          st\<lparr>graph := g, mutes := nextMuted, mixer := (mixer st)\<lparr>p_muted := nextMuted\<rparr>\<rparr>)"

definition onBroadcastChange :: "jsnum \<Rightarrow> State \<Rightarrow> State" where
  "onBroadcastChange v st =
     st\<lparr>broadcast := v, graph := setBroadcastGain (graph st) v,
        mixer := (mixer st)\<lparr>p_broadcastGain := v\<rparr>\<rparr>"

definition onOffsetChange :: "jsnum \<Rightarrow> State \<Rightarrow> State" where
  "onOffsetChange ms st =
     st\<lparr>offset := ms, graph := setOffsetMs (graph st) ms, mixer := (mixer st)\<lparr>p_offsetMs := ms\<rparr>\<rparr>"

text \<open>The loop of \<^verbatim>\<open>onReset\<close> over the gains, mutes, settings and graph.\<close>

fun reset_loop :: "prefs \<Rightarrow> TrackInfo list
    \<Rightarrow> jsnum option dict \<times> bool option dict \<times> (jsstring \<rightharpoonup> ChannelSetting) \<times> MixerGraph
    \<Rightarrow> jsnum option dict \<times> bool option dict \<times> (jsstring \<rightharpoonup> ChannelSetting) \<times> MixerGraph" where
  "reset_loop glob [] acc = acc"
| "reset_loop glob (t # ts) (nextGains, nextMuted, setts, g) =
     (let eff = effectiveSetting (slug t) (category t) Map.empty glob
      in reset_loop glob ts
           (nextGains(slug t \<mapsto> gain eff), nextMuted(slug t \<mapsto> muted eff), setts(slug t \<mapsto> eff),
            setTrackGain g (slug t) (setting_level eff)))"

definition onReset :: "State \<Rightarrow> State" where
  "onReset st =
     (case reset_loop (globalPrefs st) (trackList st) (Map.empty, Map.empty, settings st, graph st) of
        (nextGains, nextMuted, setts, g) \<Rightarrow>
          st\<lparr>gains := nextGains, mutes := nextMuted, settings := setts, graph := g,
             mixer := (mixer st)\<lparr>p_gains := nextGains, p_muted := nextMuted\<rparr>\<rparr>)"

definition onSaveStreamer :: "jsstring \<Rightarrow> State \<Rightarrow> storage \<Rightarrow> storage" where
  "onSaveStreamer channelID st area = saveStreamer area channelID (settings st)"

subsection \<open>Lanes\<close>

definition ensureLane :: "jsstring \<Rightarrow> State \<Rightarrow> AudioLane option \<times> State" where
  "ensureLane sl st =
     (case audioLanes st sl of
        Some existing \<Rightarrow> (Some existing, st)
      | None \<Rightarrow>
          (case entryNodeFor (graph st) sl of
             None \<Rightarrow> (None, st)
           | Some e \<Rightarrow>
               let sch = createScheduler e in
               (case createOpusDecoder (webcodecs st) of
                  None \<Rightarrow> (None, st)
                | Some dec \<Rightarrow>
                    let lane = \<lparr>decoder = dec, scheduler = sch\<rparr>
                    in (Some lane, st\<lparr>audioLanes := (audioLanes st)(sl \<mapsto> lane)\<rparr>))))"

text \<open>\<^verbatim>\<open>lane?.decoder.close(); lane?.scheduler.close(); audioLanes.delete(...)\<close>\<close>

definition drop_lane :: "jsstring \<Rightarrow> State \<Rightarrow> State" where
  "drop_lane sl st =
     (case audioLanes st sl of
        None \<Rightarrow> st
      | Some lane \<Rightarrow>
          st\<lparr>graph := (graph st)\<lparr>ctx := fst (close_lane (ctx (graph st)) (scheduler lane))\<rparr>,
             audioLanes := (audioLanes st)(sl := None), retired := retired st @ [close_decoder (decoder lane)]\<rparr>)"

subsection \<open>The handlers of the relay\<close>

definition indexTracks :: "TrackInfo list \<Rightarrow> State \<Rightarrow> State" where
  "indexTracks incoming st = st\<lparr>idToSlug := fold (\<lambda>t m. m(tid t \<mapsto> slug t)) incoming Map.empty\<rparr>"

text \<open>
  The two loops of \<^verbatim>\<open>applyTrackList\<close>. They work on copies of the gains and mutes, which are the
  fields of the state here: nothing reads the old ones in between.
\<close>

definition remove_gone :: "jsstring set \<Rightarrow> TrackInfo \<Rightarrow> State \<Rightarrow> State" where
  "remove_gone incomingSlugs t st =
     (if slug t \<in> incomingSlugs then st
      else
        let st = drop_lane (slug t) st
        in st\<lparr>graph := removeTrack (graph st) (slug t), gains := (gains st)(slug t := None),
              mutes := (mutes st)(slug t := None), settings := (settings st)(slug t := None)\<rparr>)"

definition add_new :: "TrackInfo \<Rightarrow> State \<Rightarrow> State" where
  "add_new t st =
     (if settings st (slug t) \<noteq> None then st
      else
        let eff = effectiveSetting (slug t) (category t) (streamerPrefs st) (globalPrefs st);
            st = st\<lparr>settings := (settings st)(slug t \<mapsto> eff), gains := (gains st)(slug t \<mapsto> gain eff),
                    mutes := (mutes st)(slug t \<mapsto> muted eff),
                    graph := setTrackGain (snd (addTrack (graph st) (slug t))) (slug t) (setting_level eff)\<rparr>
        in snd (ensureLane (slug t) st))"

definition applyTrackList :: "TrackInfo list \<Rightarrow> State \<Rightarrow> State" where
  "applyTrackList incoming st =
     (let incomingSlugs = slug ` set incoming;
          st = fold (remove_gone incomingSlugs) (trackList st) st;
          st = fold add_new incoming st
      in st\<lparr>trackList := incoming,
            mixer := (mixer st)\<lparr>p_tracks := incoming, p_gains := gains st, p_muted := mutes st\<rparr>\<rparr>)"

definition onTrackList :: "TrackInfo list \<Rightarrow> State \<Rightarrow> State" where
  "onTrackList incoming st = applyTrackList incoming (indexTracks incoming st)"

definition onAudio :: "jsnum \<Rightarrow> Frame \<Rightarrow> State \<Rightarrow> State" where
  "onAudio trackID frame st =
     (case idToSlug st trackID of
        None \<Rightarrow> st
      | Some sl \<Rightarrow>
          if sl = [] then st
          else
            (case ensureLane sl st of
               (None, st) \<Rightarrow> st
             | (Some lane, st) \<Rightarrow>
                 st\<lparr>audioLanes := (audioLanes st)
                      (sl \<mapsto> lane\<lparr>decoder := fst (decode (decoder lane) (payload frame) (seq frame))\<rparr>)\<rparr>))"

text \<open>The codec of a lane hands back decoded audio, and a source of a lane ends.\<close>

definition onDecoded :: "jsstring \<Rightarrow> AudioData \<Rightarrow> State \<Rightarrow> State" where
  "onDecoded sl d st =
     (case audioLanes st sl of
        None \<Rightarrow> st
      | Some lane \<Rightarrow>
          (case decoder_output d of
             None \<Rightarrow> st
           | Some buf \<Rightarrow>
               (case enqueue (ctx (graph st)) (scheduler lane) buf of
                  (c, sch) \<Rightarrow>
                    st\<lparr>graph := (graph st)\<lparr>ctx := c\<rparr>,
                       audioLanes := (audioLanes st)(sl \<mapsto> lane\<lparr>scheduler := sch\<rparr>)\<rparr>)))"

text \<open>The codec of a lane fails; \<^verbatim>\<open>error\<close> only logs.\<close>

definition onCodecError :: "jsstring \<Rightarrow> State \<Rightarrow> State" where
  "onCodecError sl st =
     (case audioLanes st sl of
        None \<Rightarrow> st
      | Some lane \<Rightarrow> st\<lparr>audioLanes := (audioLanes st)(sl \<mapsto> lane\<lparr>decoder := codec_error (decoder lane)\<rparr>)\<rparr>)"

definition onSourceEnded :: "jsstring \<Rightarrow> nat \<Rightarrow> State \<Rightarrow> State" where
  "onSourceEnded sl src st =
     (case audioLanes st sl of
        None \<Rightarrow> st
      | Some lane \<Rightarrow>
          (case onended (ctx (graph st)) (scheduler lane) src of
             (c, sch) \<Rightarrow>
               st\<lparr>graph := (graph st)\<lparr>ctx := c\<rparr>,
                  audioLanes := (audioLanes st)(sl \<mapsto> lane\<lparr>scheduler := sch\<rparr>)\<rparr>))"

subsection \<open>Mounting and destroying\<close>

definition init_state :: "MixerGraph \<Rightarrow> prefs \<Rightarrow> prefs \<Rightarrow> bool \<Rightarrow> State" where
  "init_state g globalP streamerP codecs =
     (let b = Fin (f64 (1 / 5));
          g = setOffsetMs (setBroadcastGain g b) (nnum 0)
      in \<lparr>graph = g, globalPrefs = globalP, streamerPrefs = streamerP, settings = Map.empty,
          audioLanes = Map.empty, trackList = [], gains = Map.empty, mutes = Map.empty,
          broadcast = b, offset = nnum 0, idToSlug = Map.empty,
          mixer = \<lparr>p_tracks = [], p_gains = Map.empty, p_muted = Map.empty, p_broadcastGain = b,
                   p_offsetMs = nnum 0\<rparr>,
          webcodecs = codecs, retired = []\<rparr>)"

text \<open>
  \<^verbatim>\<open>destroy()\<close>, lines 258 to 274, on the parts of the session that outlive the panel: the relay
  client, the lanes and the graph. \<open>slugs\<close> lists the keys of \<^verbatim>\<open>audioLanes\<close> in their order.
\<close>

definition destroy_state :: "jsstring list \<Rightarrow> RelayClient \<times> State \<Rightarrow> RelayClient \<times> State" where
  "destroy_state slugs cs =
     (case cs of (relay, st) \<Rightarrow>
        let relay = close_client relay;
            st = fold drop_lane slugs st
        in (relay, st\<lparr>audioLanes := Map.empty, graph := destroy (graph st)\<rparr>))"

end
