(* ===== verification/ContentInv.thy ===== *)
theory ContentInv
  imports Content
begin

text \<open>
  The invariant of a mounted mixer. \<open>parts_ok S st\<close> says that the graph, the settings, the gains
  and mutes and (with WebCodecs) the lanes are there for exactly the slugs in \<open>S\<close>, and that each
  lane plays into its track's entry node. Every handler keeps it; \<open>applyTrackList\<close> moves \<open>S\<close> from
  the old slugs to the new ones, whatever the two lists are.
\<close>

subsection \<open>Lanes\<close>

definition lane_at :: "MixerGraph \<Rightarrow> jsstring \<Rightarrow> AudioLane \<Rightarrow> bool" where
  "lane_at g s lane \<longleftrightarrow>
     s \<in> dom (tracks g) \<and> lane_ok (ctx g) (scheduler lane) \<and> destination (scheduler lane) = entry_of g s"

abbreviation live :: "AudioLane \<Rightarrow> nat set" where
  "live lane \<equiv> set (liveSources (scheduler lane))"

definition lanes_ok :: "MixerGraph \<Rightarrow> (jsstring \<rightharpoonup> AudioLane) \<Rightarrow> bool" where
  "lanes_ok g lanes \<longleftrightarrow>
     (\<forall>s lane. lanes s = Some lane \<longrightarrow> lane_at g s lane)
     \<and> (\<forall>s r l m. lanes s = Some l \<longrightarrow> lanes r = Some m \<longrightarrow> s \<noteq> r \<longrightarrow> live l \<inter> live m = {})"

text \<open>A lane survives a change of the graph that keeps its sources, its entry and their connection.\<close>

lemma lane_at_cong:
  assumes "lane_at g s lane" "s \<in> dom (tracks h)" "entry_of h s = entry_of g s"
    and "\<And>n. n \<in> live lane \<Longrightarrow> nodes (ctx h) n = nodes (ctx g) n"
    and "entry_of g s \<in> dom (nodes (ctx h))"
    and "live lane \<subseteq> preds (ctx h) (entry_of g s)"
  shows "lane_at h s lane"
  using assms by (auto simp: lane_at_def lane_ok_def)

lemma live_buffer: "lane_at g s lane \<Longrightarrow> n \<in> live lane \<Longrightarrow> \<exists>b t. nodes (ctx g) n = Some (BufferSource b t False)"
  by (auto simp: lane_at_def lane_ok_def)

lemma live_pred: "lane_at g s lane \<Longrightarrow> n \<in> live lane \<Longrightarrow> n \<in> preds (ctx g) (entry_of g s)"
  by (auto simp: lane_at_def lane_ok_def)

lemma live_not_role: "graph_ok g \<Longrightarrow> lane_at g s lane \<Longrightarrow> n \<in> live lane \<Longrightarrow> n \<notin> roles g"
  using live_buffer buffer_not_role by blast

lemma entry_dom: "graph_ok g \<Longrightarrow> s \<in> dom (tracks g) \<Longrightarrow> entry_of g s \<in> dom (nodes (ctx g))"
  using track_dom by (fastforce simp: entry_of_def)

lemma entry_not_listener: "graph_ok g \<Longrightarrow> s \<in> dom (tracks g) \<Longrightarrow> entry_of g s \<notin> listeners g"
  using roles_differ(2,3) [of g] by (fastforce simp: listeners_def)

lemma lanes_ok_set_node:
  assumes "graph_ok g" "lanes_ok g lanes" "n \<in> roles g" "tracks h = tracks g"
    and "nodes (ctx h) = (nodes (ctx g))(n \<mapsto> x)" "\<And>m. preds (ctx h) m = preds (ctx g) m"
  shows "lanes_ok h lanes"
proof -
  have e: "entry_of h = entry_of g" using assms(4) by (auto simp: entry_of_def)
  have "lane_at h s lane" if l: "lanes s = Some lane" for s lane
  proof -
    from l assms(2) have a: "lane_at g s lane" by (simp add: lanes_ok_def)
    then have s: "s \<in> dom (tracks g)" by (simp add: lane_at_def)
    show ?thesis
    proof (rule lane_at_cong [OF a])
      show "nodes (ctx h) m = nodes (ctx g) m" if "m \<in> live lane" for m
        using live_not_role [OF assms(1) a that] assms(3,5) by auto
    qed (use s e entry_dom [OF assms(1) s] live_pred [OF a] assms in auto)
  qed
  with assms(2) show ?thesis by (simp add: lanes_ok_def)
qed

lemma lanes_ok_setTrackGain: "graph_ok g \<Longrightarrow> lanes_ok g lanes \<Longrightarrow> lanes_ok (setTrackGain g s v) lanes"
proof (cases "tracks g s")
  case (Some t)
  assume "graph_ok g" "lanes_ok g lanes"
  moreover have "userGain t \<in> roles g" using Some by (auto simp: roles_def gain_of_def intro!: image_eqI [of _ _ s])
  ultimately show ?thesis
    by (rule lanes_ok_set_node) (use Some in \<open>auto simp: setTrackGain_def set_gain_def\<close>)
qed (simp add: setTrackGain_def)

lemma lanes_ok_setBroadcastGain: "graph_ok g \<Longrightarrow> lanes_ok g lanes \<Longrightarrow> lanes_ok (setBroadcastGain g v) lanes"
  by (rule lanes_ok_set_node [where n = "broadcastGain g"])
    (auto simp: setBroadcastGain_def set_gain_def roles_def core_def)

lemma lanes_ok_setOffsetMs: "graph_ok g \<Longrightarrow> lanes_ok g lanes \<Longrightarrow> lanes_ok (setOffsetMs g v) lanes"
  by (rule lanes_ok_set_node [where n = "sharedDelay g"]) (auto simp: setOffsetMs_eq roles_def core_def)

lemma lanes_ok_addTrack:
  assumes "graph_ok g" "lanes_ok g lanes"
  shows "lanes_ok (snd (addTrack g s)) lanes"
proof (cases "tracks g s")
  case None
  let ?h = "snd (addTrack g s)"
  have "lane_at ?h r lane" if l: "lanes r = Some lane" for r lane
  proof -
    from l assms(2) have a: "lane_at g r lane" by (simp add: lanes_ok_def)
    then have r: "r \<in> dom (tracks g)" "r \<noteq> s" using None by (auto simp: lane_at_def)
    have old: "n < fresh (ctx g)" if "n \<in> live lane" for n
      using live_buffer [OF a that] assms(1) dom_less [of "ctx g" n] by (auto simp: graph_ok_def)
    have er: "entry_of g r < fresh (ctx g)" using track_nodes_less(1) [OF assms(1) r(1)] .
    show ?thesis
    proof (rule lane_at_cong [OF a])
      show "nodes (ctx ?h) n = nodes (ctx g) n" if "n \<in> live lane" for n
        using old [OF that] by (simp add: addTrack_fields(2) [OF None])
      show "entry_of g r \<in> dom (nodes (ctx ?h))"
        using entry_dom [OF assms(1) r(1)] by (simp add: addTrack_fields(2) [OF None])
      show "live lane \<subseteq> preds (ctx ?h) (entry_of g r)"
        using live_pred [OF a] by (auto simp: addTrack_fields(3) [OF None])
    qed (use r in \<open>simp_all add: addTrack_entry [OF None]\<close>)
  qed
  with assms(2) show ?thesis by (simp add: lanes_ok_def)
qed (use assms in \<open>simp add: addTrack_def\<close>)

lemma lanes_ok_removeTrack:
  assumes "graph_ok g" "lanes_ok g lanes" "lanes s = None"
  shows "lanes_ok (removeTrack g s) lanes"
proof (cases "tracks g s")
  case (Some t)
  let ?h = "removeTrack g s"
  have s: "s \<in> dom (tracks g)" using Some by auto
  have "lane_at ?h r lane" if l: "lanes r = Some lane" for r lane
  proof -
    from l assms(2) have a: "lane_at g r lane" by (simp add: lanes_ok_def)
    have r: "r \<in> dom (tracks g)" "r \<noteq> s" using a l assms(3) by (auto simp: lane_at_def)
    have "n \<noteq> entry_of g s \<and> n \<noteq> gain_of g s" if "n \<in> live lane" for n
      using live_not_role [OF assms(1) a that] s by (auto simp: roles_def)
    then show ?thesis
      using r live_pred [OF a] entry_dom [OF assms(1) r(1)]
      by (intro lane_at_cong [OF a]) (auto simp: removeTrack_fields [OF Some] removeTrack_roles [OF Some])
  qed
  with assms(2) show ?thesis by (simp add: lanes_ok_def)
qed (use assms in \<open>simp add: removeTrack_def\<close>)

lemma lanes_ok_close:
  assumes "graph_ok g" "lanes_ok g lanes" "lanes s = Some lane"
  defines "h \<equiv> g\<lparr>ctx := fst (close_lane (ctx g) (scheduler lane))\<rparr>"
  shows "lanes_ok h (lanes(s := None))" "graph_ok h" "tracks h = tracks g" "entry_of h = entry_of g" "gain_of h = gain_of g"
    "\<And>n. n \<notin> live lane \<Longrightarrow> nodes (ctx h) n = nodes (ctx g) n"
proof -
  have a: "lane_at g s lane" using assms(2,3) by (simp add: lanes_ok_def)
  show g: "graph_ok h" unfolding h_def using a by (intro close_graph_ok assms(1)) (simp add: lane_at_def)
  show t: "tracks h = tracks g" "entry_of h = entry_of g" "gain_of h = gain_of g" by (simp_all add: h_def)
  show n: "nodes (ctx h) n = nodes (ctx g) n" if "n \<notin> live lane" for n
    using that by (simp add: h_def close_lane_def close_nodes)
  have "lane_at h r l" if l: "lanes r = Some l" and rs: "r \<noteq> s" for r l
  proof -
    from l assms(2) have b: "lane_at g r l" by (simp add: lanes_ok_def)
    then have r: "r \<in> dom (tracks g)" by (simp add: lane_at_def)
    have d: "live l \<inter> live lane = {}" using assms(2,3) l rs unfolding lanes_ok_def by blast
    have "entry_of g r \<notin> live lane"
      using live_not_role [OF assms(1) a] r by (auto simp: roles_def)
    then show ?thesis
      using r d n live_pred [OF b] entry_dom [OF assms(1) r]
      by (intro lane_at_cong [OF b]) (auto simp: t, auto simp: h_def close_lane_def close_preds)
  qed
  with assms(2) show "lanes_ok h (lanes(s := None))" by (auto simp: lanes_ok_def split: if_splits)
qed

lemma lanes_ok_enqueue:
  fixes buf :: AudioBuffer
  assumes "graph_ok g" "lanes_ok g lanes" "lanes s = Some lane"
  defines "e \<equiv> enqueue (ctx g) (scheduler lane) buf"
  defines "h \<equiv> g\<lparr>ctx := fst e\<rparr>"
  shows "lanes_ok h (lanes(s \<mapsto> lane\<lparr>scheduler := snd e\<rparr>))" "graph_ok h"
    "\<And>n. n < fresh (ctx g) \<Longrightarrow> nodes (ctx h) n = nodes (ctx g) n"
proof -
  have wf: "ctx_wf (ctx g)" using assms(1) by (simp add: graph_ok_def)
  have a: "lane_at g s lane" using assms(2,3) by (simp add: lanes_ok_def)
  then have s: "s \<in> dom (tracks g)" and d: "destination (scheduler lane) = entry_of g s"
    and ok: "lane_ok (ctx g) (scheduler lane)" by (simp_all add: lane_at_def)
  show "graph_ok h" unfolding h_def e_def
    using d entry_dom [OF assms(1) s] entry_not_listener [OF assms(1) s] by (intro enqueue_graph_ok assms(1)) simp_all
  show n: "nodes (ctx h) n = nodes (ctx g) n" if "n < fresh (ctx g)" for n
    using that by (simp add: h_def e_def enqueue_eq Let_def)
  have old: "n < fresh (ctx g)" if "lanes r = Some l" "n \<in> live l" for r l n
  proof -
    have "lane_at g r l" using assms(2) that(1) by (simp add: lanes_ok_def)
    from live_buffer [OF this that(2)] show ?thesis using dom_less [OF wf] by blast
  qed
  have "lane_at h r l" if l: "lanes r = Some l" and rs: "r \<noteq> s" for r l
  proof -
    from l assms(2) have b: "lane_at g r l" by (simp add: lanes_ok_def)
    then have r: "r \<in> dom (tracks g)" by (simp add: lane_at_def)
    show ?thesis
      using r n old [OF l] live_pred [OF b] entry_dom [OF assms(1) r]
      by (intro lane_at_cong [OF b]) (auto simp: h_def, auto simp: e_def enqueue_eq Let_def)
  qed
  moreover have "lane_at h s (lane\<lparr>scheduler := snd e\<rparr>)"
    using enqueue_ok [OF wf ok, of buf] s d
    by (simp add: lane_at_def h_def e_def) (simp add: enqueue_eq Let_def)
  moreover have "set (liveSources (snd e)) = insert (fresh (ctx g)) (live lane)"
    by (simp add: e_def enqueue_eq Let_def)
  ultimately show "lanes_ok h (lanes(s \<mapsto> lane\<lparr>scheduler := snd e\<rparr>))"
    using assms(2,3) old unfolding lanes_ok_def by (auto split: if_splits) blast+
qed

lemma lanes_ok_ended:
  assumes "graph_ok g" "lanes_ok g lanes" "lanes s = Some lane" "src \<in> live lane"
  defines "e \<equiv> onended (ctx g) (scheduler lane) src"
  defines "h \<equiv> g\<lparr>ctx := fst e\<rparr>"
  shows "lanes_ok h (lanes(s \<mapsto> lane\<lparr>scheduler := snd e\<rparr>))" "graph_ok h" "nodes (ctx h) = nodes (ctx g)"
proof -
  have a: "lane_at g s lane" using assms(2,3) by (simp add: lanes_ok_def)
  obtain b t where src: "nodes (ctx g) src = Some (BufferSource b t False)" using live_buffer [OF a assms(4)] by blast
  show "graph_ok h" unfolding h_def e_def by (rule onended_graph_ok [OF assms(1) src])
  show n: "nodes (ctx h) = nodes (ctx g)" by (simp add: h_def e_def onended_def)
  have d: "distinct (liveSources (scheduler lane))" using a by (simp add: lane_at_def lane_ok_def)
  have "lane_at h r l" if l: "lanes r = Some l" and rs: "r \<noteq> s" for r l
  proof -
    from l assms(2) have b: "lane_at g r l" by (simp add: lanes_ok_def)
    then have r: "r \<in> dom (tracks g)" by (simp add: lane_at_def)
    have "src \<notin> live l" using assms(2,3,4) l rs unfolding lanes_ok_def by blast
    then show ?thesis
      using r n live_pred [OF b] entry_dom [OF assms(1) r]
      by (intro lane_at_cong [OF b]) (auto simp: h_def e_def onended_def)
  qed
  moreover have "lane_at h s (lane\<lparr>scheduler := snd e\<rparr>)"
    using a d by (auto simp: lane_at_def lane_ok_def h_def e_def onended_def)
  moreover have "set (liveSources (snd e)) \<subseteq> live lane"
    using set_remove1_subset by (simp add: e_def onended_def)
  ultimately show "lanes_ok h (lanes(s \<mapsto> lane\<lparr>scheduler := snd e\<rparr>))"
    using assms(2,3) unfolding lanes_ok_def by (auto split: if_splits) blast+
qed

end
