(* ===== verification/ContentRun.thy ===== *)
theory ContentRun
  imports ContentInv
begin

text \<open>
  The handlers of a mounted mixer keep its invariant, and the level of every track in the graph is
  the one the panel shows. Both are proved per handler and carried to every sequence of events by
  the locale \<open>event_system\<close>.
\<close>

subsection \<open>The invariant\<close>

definition parts_ok :: "jsstring set \<Rightarrow> State \<Rightarrow> bool" where
  "parts_ok S st \<longleftrightarrow>
     graph_ok (graph st) \<and> lanes_ok (graph st) (audioLanes st)
     \<and> dom (tracks (graph st)) = S \<and> dom (settings st) = S \<and> dom (gains st) = S \<and> dom (mutes st) = S
     \<and> dom (audioLanes st) = (if webcodecs st then S else {})"

text \<open>What the panel was last told.\<close>

definition panel_ok :: "State \<Rightarrow> bool" where
  "panel_ok st \<longleftrightarrow>
     mixer st = \<lparr>p_tracks = trackList st, p_gains = gains st, p_muted = mutes st,
                 p_broadcastGain = broadcast st, p_offsetMs = offset st\<rparr>"

definition slugs :: "State \<Rightarrow> jsstring set" where
  "slugs st = slug ` set (trackList st)"

definition content_ok :: "State \<Rightarrow> bool" where
  "content_ok st \<longleftrightarrow> parts_ok (slugs st) st \<and> panel_ok st \<and> ran (idToSlug st) \<subseteq> slugs st"

lemma parts_graph:
  assumes "parts_ok S st" "graph_ok g" "lanes_ok g (audioLanes st)" "dom (tracks g) = dom (tracks (graph st))"
  shows "parts_ok S (st\<lparr>graph := g\<rparr>)"
  using assms by (simp add: parts_ok_def)

lemma parts_setTrackGain: "parts_ok S st \<Longrightarrow> parts_ok S (st\<lparr>graph := setTrackGain (graph st) s v\<rparr>)"
  by (rule parts_graph) (auto simp: parts_ok_def intro: setTrackGain_ok lanes_ok_setTrackGain)

lemma dom_upd_mem: "s \<in> dom m \<Longrightarrow> dom (m(s \<mapsto> x)) = dom m"
  by auto

lemma case_upd_dom: "dom (case m s of Some x \<Rightarrow> m(s \<mapsto> f x) | None \<Rightarrow> m) = dom m"
  by (auto split: option.split)

lemma onChange_ok:
  assumes "content_ok st" "s \<in> slugs st"
  shows "content_ok (onChange s v st)"
  using assms parts_setTrackGain [of "slugs st" st s "if is_muted (mutes st) s then nnum 0 else v"]
  by (auto simp: content_ok_def parts_ok_def panel_ok_def onChange_def Let_def slugs_def case_upd_dom)

lemma onMuteToggle_ok:
  assumes "content_ok st" "s \<in> slugs st"
  shows "content_ok (onMuteToggle s st)"
  using assms parts_setTrackGain [of "slugs st" st s "if \<not> is_muted (mutes st) s then nnum 0 else gain_or_half (gains st) s"]
  by (auto simp: content_ok_def parts_ok_def panel_ok_def onMuteToggle_def Let_def slugs_def case_upd_dom)

lemma onBroadcastChange_ok: "content_ok st \<Longrightarrow> content_ok (onBroadcastChange v st)"
  by (auto simp: content_ok_def parts_ok_def panel_ok_def onBroadcastChange_def slugs_def
      intro: setBroadcastGain_ok lanes_ok_setBroadcastGain)

lemma onOffsetChange_ok: "content_ok st \<Longrightarrow> content_ok (onOffsetChange v st)"
  by (auto simp: content_ok_def parts_ok_def panel_ok_def onOffsetChange_def slugs_def
      intro: setOffsetMs_ok lanes_ok_setOffsetMs)

text \<open>The loops of solo and reset only set gains of the graph.\<close>

lemma solo_loop_ok:
  "graph_ok g \<Longrightarrow> lanes_ok g lanes \<Longrightarrow> solo_loop s gs ts (nm, g) = (nm', g') \<Longrightarrow>
     graph_ok g' \<and> lanes_ok g' lanes \<and> tracks g' = tracks g \<and> dom nm' = dom nm \<union> slug ` set ts"
proof (induction ts arbitrary: nm g)
  case (Cons t ts)
  from Cons.IH [OF setTrackGain_ok [OF Cons.prems(1)] lanes_ok_setTrackGain [OF Cons.prems(1,2)]
      Cons.prems(3) [unfolded solo_loop.simps Let_def]]
  show ?case by auto
qed simp

lemma onSoloToggle_ok: "content_ok st \<Longrightarrow> content_ok (onSoloToggle s st)"
  using solo_loop_ok [of "graph st" "audioLanes st" s "gains st" "trackList st" Map.empty]
  by (auto simp: content_ok_def parts_ok_def panel_ok_def onSoloToggle_def slugs_def split: prod.split)

lemma reset_loop_ok:
  "graph_ok g \<Longrightarrow> lanes_ok g lanes \<Longrightarrow> reset_loop gl ts (ng, nm, se, g) = (ng', nm', se', g') \<Longrightarrow>
     graph_ok g' \<and> lanes_ok g' lanes \<and> tracks g' = tracks g \<and> dom ng' = dom ng \<union> slug ` set ts
     \<and> dom nm' = dom nm \<union> slug ` set ts \<and> dom se' = dom se \<union> slug ` set ts"
proof (induction ts arbitrary: ng nm se g)
  case (Cons t ts)
  from Cons.IH [OF setTrackGain_ok [OF Cons.prems(1)] lanes_ok_setTrackGain [OF Cons.prems(1,2)]
      Cons.prems(3) [unfolded reset_loop.simps Let_def]]
  show ?case by auto
qed simp

lemma onReset_ok: "content_ok st \<Longrightarrow> content_ok (onReset st)"
  using reset_loop_ok [of "graph st" "audioLanes st" "globalPrefs st" "trackList st" Map.empty Map.empty "settings st"]
  by (auto simp: content_ok_def parts_ok_def panel_ok_def onReset_def slugs_def split: prod.split)

subsection \<open>Lanes come and go with their tracks\<close>

lemma ensureLane_ok:
  assumes "graph_ok (graph st)" "lanes_ok (graph st) (audioLanes st)"
  shows "lanes_ok (graph st) (audioLanes (snd (ensureLane s st)))"
    "dom (audioLanes (snd (ensureLane s st)))
       = dom (audioLanes st) \<union> (if webcodecs st \<and> s \<in> dom (tracks (graph st)) then {s} else {})"
    "\<exists>l. snd (ensureLane s st) = st\<lparr>audioLanes := l\<rparr>"
proof -
  consider (has) "audioLanes st s \<noteq> None" | (none) "tracks (graph st) s = None" "audioLanes st s = None"
    | (new) t where "tracks (graph st) s = Some t" "audioLanes st s = None" by fastforce
  note c = this
  have has_dom: "audioLanes st s \<noteq> None \<Longrightarrow> s \<in> dom (tracks (graph st))"
    using assms(2) by (auto simp: lanes_ok_def lane_at_def)
  show "\<exists>l. snd (ensureLane s st) = st\<lparr>audioLanes := l\<rparr>"
    by (rule exI [of _ "audioLanes (snd (ensureLane s st))"])
      (auto simp: ensureLane_def createOpusDecoder_def Let_def split: option.split)
  show "dom (audioLanes (snd (ensureLane s st)))
       = dom (audioLanes st) \<union> (if webcodecs st \<and> s \<in> dom (tracks (graph st)) then {s} else {})"
    using c has_dom by cases (auto simp: ensureLane_def entryNodeFor_def createOpusDecoder_def Let_def)
  show "lanes_ok (graph st) (audioLanes (snd (ensureLane s st)))"
    using c
  proof cases
    case (new t)
    let ?l = "\<lparr>decoder = \<lparr>baseSeq = None, lastSeq = None, codec_closed = False, submitted = []\<rparr>,
               scheduler = createScheduler (entry t)\<rparr>"
    have s: "s \<in> dom (tracks (graph st))" "entry t = entry_of (graph st) s" using new by (auto simp: entry_of_def)
    have "lane_at (graph st) s ?l"
      using s createScheduler_ok [OF entry_dom [OF assms(1) s(1)]]
      by (simp add: lane_at_def) (simp add: createScheduler_def)
    moreover have "live ?l = {}" by (simp add: createScheduler_def)
    ultimately show ?thesis
      using assms(2) new by (auto simp: lanes_ok_def ensureLane_def entryNodeFor_def createOpusDecoder_def Let_def)
  qed (use assms(2) in \<open>auto simp: ensureLane_def entryNodeFor_def\<close>)
qed

lemma drop_lane_fields:
  assumes "graph_ok (graph st)" "lanes_ok (graph st) (audioLanes st)"
  shows "graph_ok (graph (drop_lane s st))" "lanes_ok (graph (drop_lane s st)) (audioLanes (drop_lane s st))"
    "tracks (graph (drop_lane s st)) = tracks (graph st)" "audioLanes (drop_lane s st) = (audioLanes st)(s := None)"
    "settings (drop_lane s st) = settings st" "gains (drop_lane s st) = gains st" "mutes (drop_lane s st) = mutes st"
    "webcodecs (drop_lane s st) = webcodecs st" "trackList (drop_lane s st) = trackList st"
    "idToSlug (drop_lane s st) = idToSlug st" "mixer (drop_lane s st) = mixer st"
    "broadcast (drop_lane s st) = broadcast st" "offset (drop_lane s st) = offset st"
    "globalPrefs (drop_lane s st) = globalPrefs st" "streamerPrefs (drop_lane s st) = streamerPrefs st"
  using assms lanes_ok_close [OF assms, of s]
  by (auto simp: drop_lane_def fun_upd_idem_iff split: option.split)

subsection \<open>A new track list\<close>

lemma remove_gone_ok:
  assumes "parts_ok S st"
  shows "parts_ok (if slug t \<in> inc then S else S - {slug t}) (remove_gone inc t st)"
proof (cases "slug t \<in> inc")
  case False
  let ?d = "drop_lane (slug t) st" and ?h = "removeTrack (graph (drop_lane (slug t) st)) (slug t)"
  have g: "graph_ok (graph st)" "lanes_ok (graph st) (audioLanes st)" using assms by (simp_all add: parts_ok_def)
  note d = drop_lane_fields [OF g, of "slug t"]
  have "graph_ok ?h" using removeTrack_ok d(1) by blast
  moreover have "lanes_ok ?h (audioLanes ?d)" using lanes_ok_removeTrack [OF d(1,2)] by (simp add: d(4))
  moreover have "dom (tracks ?h) = S - {slug t}"
    using assms d(3) by (auto simp: removeTrack_def parts_ok_def split: option.split)
  ultimately show ?thesis
    using assms False by (auto simp: remove_gone_def Let_def parts_ok_def d)
qed (simp add: remove_gone_def assms)

lemma remove_gone_fields:
  assumes "parts_ok S st"
  shows "webcodecs (remove_gone inc t st) = webcodecs st" "trackList (remove_gone inc t st) = trackList st"
    "idToSlug (remove_gone inc t st) = idToSlug st" "mixer (remove_gone inc t st) = mixer st"
    "broadcast (remove_gone inc t st) = broadcast st" "offset (remove_gone inc t st) = offset st"
    "globalPrefs (remove_gone inc t st) = globalPrefs st" "streamerPrefs (remove_gone inc t st) = streamerPrefs st"
  using assms drop_lane_fields [of st "slug t"] by (auto simp: remove_gone_def Let_def parts_ok_def)

lemma addTrack_dom: "dom (tracks (snd (addTrack g s))) = insert s (dom (tracks g))"
  by (cases "tracks g s") (auto simp: addTrack_entry(3), auto simp: addTrack_def)

lemma add_new_ok:
  assumes "parts_ok S st"
  shows "parts_ok (insert (slug t) S) (add_new t st)"
proof (cases "settings st (slug t)")
  case None
  let ?s = "slug t" and ?eff = "effectiveSetting (slug t) (category t) (streamerPrefs st) (globalPrefs st)"
  let ?g = "setTrackGain (snd (addTrack (graph st) ?s)) ?s (setting_level ?eff)"
  let ?st = "st\<lparr>settings := (settings st)(?s \<mapsto> ?eff), gains := (gains st)(?s \<mapsto> gain ?eff),
                 mutes := (mutes st)(?s \<mapsto> muted ?eff), graph := ?g\<rparr>"
  have g: "graph_ok (graph st)" "lanes_ok (graph st) (audioLanes st)" using assms by (simp_all add: parts_ok_def)
  have a: "graph_ok (snd (addTrack (graph st) ?s))" by (rule addTrack_ok [OF g(1)])
  have g': "graph_ok ?g" by (rule setTrackGain_ok [OF a])
  have l': "lanes_ok ?g (audioLanes st)" by (rule lanes_ok_setTrackGain [OF a lanes_ok_addTrack [OF g]])
  have d: "dom (tracks ?g) = insert ?s S" using assms by (simp add: addTrack_dom parts_ok_def)
  obtain l where l: "snd (ensureLane ?s ?st) = ?st\<lparr>audioLanes := l\<rparr>"
    using ensureLane_ok(3) [of ?st ?s] g' l' by auto
  then have "lanes_ok ?g l" "dom l = dom (audioLanes st) \<union> (if webcodecs st \<and> ?s \<in> dom (tracks ?g) then {?s} else {})"
    using ensureLane_ok(1,2) [of ?st ?s] g' l' by simp_all
  with assms g' d show ?thesis
    unfolding add_new_def using None l by (auto simp: parts_ok_def Let_def)
next
  case (Some x)
  with assms have "insert (slug t) S = S" by (auto simp: parts_ok_def)
  with Some assms show ?thesis by (simp add: add_new_def)
qed

lemma add_new_fields:
  "webcodecs (add_new t st) = webcodecs st" "trackList (add_new t st) = trackList st"
  "idToSlug (add_new t st) = idToSlug st" "mixer (add_new t st) = mixer st"
  "broadcast (add_new t st) = broadcast st" "offset (add_new t st) = offset st"
  "globalPrefs (add_new t st) = globalPrefs st" "streamerPrefs (add_new t st) = streamerPrefs st"
  by (auto simp: add_new_def ensureLane_def Let_def split: option.split)

lemma fold_remove_gone:
  "parts_ok S st \<Longrightarrow>
     parts_ok (S - {s \<in> slug ` set ts. s \<notin> inc}) (fold (remove_gone inc) ts st)
     \<and> mixer (fold (remove_gone inc) ts st) = mixer st \<and> idToSlug (fold (remove_gone inc) ts st) = idToSlug st
     \<and> broadcast (fold (remove_gone inc) ts st) = broadcast st \<and> offset (fold (remove_gone inc) ts st) = offset st
     \<and> globalPrefs (fold (remove_gone inc) ts st) = globalPrefs st
     \<and> streamerPrefs (fold (remove_gone inc) ts st) = streamerPrefs st
     \<and> webcodecs (fold (remove_gone inc) ts st) = webcodecs st"
proof (induction ts arbitrary: S st)
  case (Cons t ts)
  have e: "(if slug t \<in> inc then S else S - {slug t}) - {s \<in> slug ` set ts. s \<notin> inc}
      = S - {s \<in> slug ` set (t # ts). s \<notin> inc}" by auto
  show ?case using Cons.IH [OF remove_gone_ok [OF Cons.prems, of t inc]]
    unfolding e by (simp add: remove_gone_fields [OF Cons.prems])
qed simp

lemma fold_add_new:
  "parts_ok S st \<Longrightarrow>
     parts_ok (S \<union> slug ` set ts) (fold add_new ts st)
     \<and> mixer (fold add_new ts st) = mixer st \<and> idToSlug (fold add_new ts st) = idToSlug st
     \<and> broadcast (fold add_new ts st) = broadcast st \<and> offset (fold add_new ts st) = offset st
     \<and> globalPrefs (fold add_new ts st) = globalPrefs st \<and> streamerPrefs (fold add_new ts st) = streamerPrefs st"
proof (induction ts arbitrary: S st)
  case (Cons t ts)
  show ?case using Cons.IH [OF add_new_ok [OF Cons.prems, of t]] by (simp add: add_new_fields)
qed simp

lemma index_ran: "ran (fold (\<lambda>t m. m(tid t \<mapsto> slug t)) ts m) \<subseteq> ran m \<union> slug ` set ts"
proof (induction ts arbitrary: m)
  case (Cons t ts)
  have "ran (m(tid t \<mapsto> slug t)) \<subseteq> insert (slug t) (ran m)" by (auto simp: ran_def)
  with Cons.IH [of "m(tid t \<mapsto> slug t)"] show ?case by (simp only: fold_simps list.set image_insert) blast
qed simp

lemma onTrackList_ok:
  assumes "content_ok st"
  shows "content_ok (onTrackList ts st)"
proof -
  let ?i = "indexTracks ts st" and ?inc = "slug ` set ts"
  let ?r = "fold (remove_gone ?inc) (trackList st) ?i"
  have p: "parts_ok (slugs st) ?i" using assms by (auto simp: content_ok_def parts_ok_def indexTracks_def)
  note r = fold_remove_gone [OF p, of "trackList st" ?inc]
  have e: "slugs st - {s \<in> slug ` set (trackList st). s \<notin> ?inc} \<union> ?inc = ?inc" by (auto simp: slugs_def)
  note a = fold_add_new [OF conjunct1 [OF r], of ts, unfolded e]
  have m: "mixer ?i = mixer st" "broadcast ?i = broadcast st" "offset ?i = offset st" "trackList ?i = trackList st"
    by (simp_all add: indexTracks_def)
  have "parts_ok ?inc (onTrackList ts st)"
    using a m by (simp add: onTrackList_def applyTrackList_def Let_def parts_ok_def)
  moreover have "panel_ok (onTrackList ts st)"
    using a r m assms by (simp add: onTrackList_def applyTrackList_def Let_def panel_ok_def content_ok_def)
  moreover have "ran (idToSlug (onTrackList ts st)) \<subseteq> ?inc"
    using a r m index_ran [of ts Map.empty] by (simp add: onTrackList_def applyTrackList_def Let_def indexTracks_def)
  moreover have "slugs (onTrackList ts st) = ?inc"
    by (simp add: onTrackList_def applyTrackList_def Let_def slugs_def)
  ultimately show ?thesis by (simp add: content_ok_def)
qed

subsection \<open>Audio\<close>

text \<open>A handler that only changes a lane and the nodes around the routing.\<close>

lemma content_lane_update:
  assumes "content_ok st" "audioLanes st s = Some lane" "graph_ok g" "tracks g = tracks (graph st)"
    and "lanes_ok g ((audioLanes st)(s \<mapsto> lane'))"
  shows "content_ok (st\<lparr>graph := g, audioLanes := (audioLanes st)(s \<mapsto> lane')\<rparr>)"
proof -
  have "dom ((audioLanes st)(s \<mapsto> lane')) = dom (audioLanes st)" using assms(2) by auto
  with assms show ?thesis
    by (simp add: content_ok_def parts_ok_def panel_ok_def slugs_def del: dom_fun_upd)
qed

lemma lanes_ok_decoder:
  "lanes_ok g lanes \<Longrightarrow> lanes s = Some lane \<Longrightarrow> lanes_ok g (lanes(s \<mapsto> lane\<lparr>decoder := d\<rparr>))"
  by (auto simp: lanes_ok_def lane_at_def)

lemma ensureLane_result: "ensureLane s st = (Some lane, st') \<Longrightarrow> audioLanes st' s = Some lane"
  by (auto simp: ensureLane_def Let_def split: option.splits)

lemma onAudio_ok:
  assumes "content_ok st"
  shows "content_ok (onAudio i f st)"
proof (cases "idToSlug st i")
  case (Some s)
  have g: "graph_ok (graph st)" "lanes_ok (graph st) (audioLanes st)" "dom (tracks (graph st)) = slugs st"
    using assms by (simp_all add: content_ok_def parts_ok_def)
  obtain r st' where e: "ensureLane s st = (r, st')" by (cases "ensureLane s st")
  obtain l where st': "st' = st\<lparr>audioLanes := l\<rparr>" using ensureLane_ok(3) [OF g(1,2), of s] e by auto
  have l: "lanes_ok (graph st) l"
    "dom l = dom (audioLanes st) \<union> (if webcodecs st \<and> s \<in> dom (tracks (graph st)) then {s} else {})"
    using ensureLane_ok(1,2) [OF g(1,2), of s] e st' by simp_all
  have s: "s \<in> slugs st" using assms Some by (auto simp: content_ok_def ran_def)
  have "content_ok st'" using assms l s st' by (auto simp: content_ok_def parts_ok_def panel_ok_def slugs_def)
  moreover have "content_ok (st'\<lparr>audioLanes := (audioLanes st')(s \<mapsto> lane\<lparr>decoder := d\<rparr>)\<rparr>)"
    if "r = Some lane" for lane d
    using content_lane_update [OF \<open>content_ok st'\<close>, of s lane "graph st'"] \<open>content_ok st'\<close>
      lanes_ok_decoder [of "graph st'" "audioLanes st'" s lane d] ensureLane_result [of s st lane st'] e that
    by (simp add: content_ok_def parts_ok_def)
  ultimately show ?thesis
    using Some e assms by (auto simp: onAudio_def split: option.split)
qed (simp add: onAudio_def assms)

lemma onDecoded_ok:
  assumes "content_ok st"
  shows "content_ok (onDecoded s d st)"
proof (cases "audioLanes st s")
  case (Some lane)
  have g: "graph_ok (graph st)" "lanes_ok (graph st) (audioLanes st)"
    using assms by (simp_all add: content_ok_def parts_ok_def)
  have "content_ok (st\<lparr>graph := (graph st)\<lparr>ctx := fst (enqueue (ctx (graph st)) (scheduler lane) buf)\<rparr>,
      audioLanes := (audioLanes st)(s \<mapsto> lane\<lparr>scheduler := snd (enqueue (ctx (graph st)) (scheduler lane) buf)\<rparr>)\<rparr>)" for buf
    by (rule content_lane_update [OF assms Some lanes_ok_enqueue(2) [OF g Some] _ lanes_ok_enqueue(1) [OF g Some]]) simp
  with assms show ?thesis
    unfolding onDecoded_def Some by (simp add: split_beta split: option.split)
qed (simp add: onDecoded_def assms)

lemma onCodecError_ok:
  assumes "content_ok st"
  shows "content_ok (onCodecError s st)"
proof (cases "audioLanes st s")
  case (Some lane)
  have "lanes_ok (graph st) ((audioLanes st)(s \<mapsto> lane\<lparr>decoder := codec_error (decoder lane)\<rparr>))"
    using assms Some by (intro lanes_ok_decoder) (simp_all add: content_ok_def parts_ok_def)
  from content_lane_update [OF assms Some, of "graph st", OF _ _ this] assms show ?thesis
    by (simp add: onCodecError_def Some content_ok_def parts_ok_def)
qed (simp add: onCodecError_def assms)

lemma onSourceEnded_ok:
  assumes "content_ok st" "audioLanes st s = Some lane" "src \<in> live lane"
  shows "content_ok (onSourceEnded s src st)"
proof -
  have g: "graph_ok (graph st)" "lanes_ok (graph st) (audioLanes st)"
    using assms(1) by (simp_all add: content_ok_def parts_ok_def)
  show ?thesis
    unfolding onSourceEnded_def assms(2) option.case split_beta
    by (rule content_lane_update [OF assms(1,2) lanes_ok_ended(2) [OF g assms(2,3)] _ lanes_ok_ended(1) [OF g assms(2,3)]])
      simp
qed

lemma init_ok: "graph_ok g \<Longrightarrow> tracks g = Map.empty \<Longrightarrow> content_ok (init_state g gp sp w)"
  by (simp add: init_state_def Let_def content_ok_def parts_ok_def panel_ok_def slugs_def lanes_ok_def
      setOffsetMs_ok setBroadcastGain_ok)

end
