(* ===== verification/ContentLevels.thy ===== *)
theory ContentLevels
  imports ContentRun
begin

text \<open>
  The level of every track in the graph is the one the panel shows: 0 for a muted track, its gain
  otherwise, clamped and rounded as the graph stores it. This holds for the settings the extension
  makes, which have a gain and a mute flag; the one valid slug that breaks it is excluded by
  \<open>plain_track\<close>.
\<close>

definition full :: "ChannelSetting \<Rightarrow> bool" where
  "full x \<longleftrightarrow> gain x \<noteq> None \<and> muted x \<noteq> None"

definition full_prefs :: "(jsstring \<rightharpoonup> ChannelSetting) \<Rightarrow> bool" where
  "full_prefs p \<longleftrightarrow> (\<forall>x\<in>ran p. full x)"

definition plain_track :: "TrackInfo \<Rightarrow> bool" where
  "plain_track t \<longleftrightarrow> track_wf t \<and> slug t \<noteq> js ''constructor''"

definition shown_level :: "jsnum option dict \<Rightarrow> bool option dict \<Rightarrow> jsstring \<Rightarrow> jsnum" where
  "shown_level gs ms s = (if is_muted ms s then nnum 0 else gain_or_half gs s)"

definition levels_of :: "MixerGraph \<Rightarrow> jsnum option dict \<Rightarrow> bool option dict \<Rightarrow> jsstring set \<Rightarrow> bool" where
  "levels_of g gs ms S \<longleftrightarrow>
     (\<forall>s\<in>S. (\<exists>v. gs s = Some (Some v)) \<and> (\<exists>b. ms s = Some (Some b))
        \<and> track_level g s = f32 (clamp01 (shown_level gs ms s)))"

definition levels_ok :: "State \<Rightarrow> bool" where
  "levels_ok st \<longleftrightarrow>
     full_prefs (globalPrefs st) \<and> full_prefs (streamerPrefs st) \<and> full_prefs (settings st)
     \<and> list_all plain_track (trackList st)
     \<and> levels_of (graph st) (gains st) (mutes st) (dom (tracks (graph st)))"

lemma full_DEFAULT: "full DEFAULT"
  by (simp add: full_def DEFAULT_def)

lemma full_prefs_upd: "full_prefs p \<Longrightarrow> full x \<Longrightarrow> full_prefs (p(s \<mapsto> x))"
  by (auto simp: full_prefs_def ran_def)

lemma full_prefs_del: "full_prefs p \<Longrightarrow> full_prefs (p(s := None))"
  by (auto simp: full_prefs_def ran_def)

lemma full_prefs_empty [simp]: "full_prefs Map.empty"
  by (simp add: full_prefs_def)

lemma effective_full:
  assumes "plain_track t" "full_prefs p" "full_prefs q"
  shows "full (effectiveSetting (slug t) (category t) p q)"
proof -
  have "\<not> List.member OBJECT_PROTOTYPE (slug t)"
    using assms(1) inherited_slug [of "slug t"] by (simp add: plain_track_def track_wf_def)
  then have "effectiveSetting (slug t) (category t) p q = precedence (slug t) (category t) p q"
    using assms(1) by (intro effectiveSetting_precedence) (simp_all add: plain_track_def track_wf_def)
  then show ?thesis
    using assms(2,3) full_DEFAULT by (auto simp: precedence_def full_prefs_def ran_def split: option.split)
qed

subsection \<open>Levels under the operations of the graph\<close>

lemma shown_own:
  "gs s = Some (Some v) \<Longrightarrow> ms s = Some (Some b) \<Longrightarrow> shown_level gs ms s = (if b then nnum 0 else v)"
  by (simp add: shown_level_def is_muted_def gain_or_half_def js_lookup_def)

lemma shown_upd_other:
  "r \<noteq> s \<Longrightarrow> shown_level (gs(s := x)) (ms(s := y)) r = shown_level gs ms r"
  "r \<noteq> s \<Longrightarrow> shown_level (gs(s := x)) ms r = shown_level gs ms r"
  "r \<noteq> s \<Longrightarrow> shown_level gs (ms(s := y)) r = shown_level gs ms r"
  by (simp_all add: shown_level_def is_muted_def gain_or_half_def js_lookup_def)

lemma level_nodes:
  "gain_of h r = gain_of g r \<Longrightarrow> nodes (ctx h) (gain_of g r) = nodes (ctx g) (gain_of g r) \<Longrightarrow> track_level h r = track_level g r"
  by (simp add: gain_value_def)

lemma level_addTrack:
  assumes "graph_ok g" "r \<in> dom (tracks g)"
  shows "track_level (snd (addTrack g s)) r = track_level g r"
proof (cases "tracks g s")
  case None
  then have "r \<noteq> s" using assms(2) by auto
  with None track_nodes_less(2) [OF assms] show ?thesis
    by (intro level_nodes) (simp_all add: addTrack_entry(2) addTrack_fields(2))
qed (simp add: addTrack_def)

lemma level_removeTrack: "r \<noteq> s \<Longrightarrow> track_level (removeTrack g s) r = track_level g r"
  by (cases "tracks g s")
    (simp add: removeTrack_def, simp add: removeTrack_roles(2) removeTrack_fields(2) gain_value_def)

lemma level_core:
  assumes "graph_ok g" "r \<in> dom (tracks g)"
  shows "track_level (setBroadcastGain g v) r = track_level g r" "track_level (setOffsetMs g v) r = track_level g r"
proof -
  have "gain_of g r \<noteq> broadcastGain g" "gain_of g r \<noteq> sharedDelay g"
    using roles_differ(1) [OF assms] by (auto simp: core_def)
  moreover have "gain_of (g\<lparr>ctx := c, offsetMs := x\<rparr>) = gain_of g" "gain_of (g\<lparr>offsetMs := x, ctx := c\<rparr>) = gain_of g" for c x
    by (auto simp: gain_of_def)
  ultimately show "track_level (setBroadcastGain g v) r = track_level g r" "track_level (setOffsetMs g v) r = track_level g r"
    by (simp_all add: setBroadcastGain_def set_gain_def setOffsetMs_eq gain_value_def)
qed

lemma levels_of_set:
  assumes "graph_ok g" "levels_of g gs ms S" "S \<subseteq> dom (tracks g)" "s \<in> dom (tracks g)"
    and "gs' s = Some (Some v)" "ms' s = Some (Some b)" "x = (if b then nnum 0 else v)"
    and "\<And>r. r \<in> S \<Longrightarrow> r \<noteq> s \<Longrightarrow> gs' r = gs r \<and> ms' r = ms r"
  shows "levels_of (setTrackGain g s x) gs' ms' (insert s S)"
  unfolding levels_of_def
proof
  fix r assume r: "r \<in> insert s S"
  then have rd: "r \<in> dom (tracks g)" using assms(3,4) by auto
  show "(\<exists>v. gs' r = Some (Some v)) \<and> (\<exists>b. ms' r = Some (Some b))
      \<and> track_level (setTrackGain g s x) r = f32 (clamp01 (shown_level gs' ms' r))"
  proof (cases "r = s")
    case True
    with assms(5-7) show ?thesis using levels_set [OF assms(1,4) rd] by (simp add: shown_own)
  next
    case False
    with r assms(8) have e: "gs' r = gs r" "ms' r = ms r" and "r \<in> S" by auto
    with assms(2) obtain w c where "gs r = Some (Some w)" "ms r = Some (Some c)"
      "track_level g r = f32 (clamp01 (shown_level gs ms r))" by (auto simp: levels_of_def)
    with e False levels_set [OF assms(1,4) rd] show ?thesis by (simp add: shown_own)
  qed
qed

lemma levels_of_cong:
  assumes "levels_of g gs ms S" "T \<subseteq> S" "\<And>r. r \<in> T \<Longrightarrow> track_level h r = track_level g r"
    and "\<And>r. r \<in> T \<Longrightarrow> gs' r = gs r \<and> ms' r = ms r"
  shows "levels_of h gs' ms' T"
  unfolding levels_of_def
proof
  fix r assume r: "r \<in> T"
  with assms(2) have "r \<in> S" by blast
  with assms(1) obtain w c where "gs r = Some (Some w)" "ms r = Some (Some c)"
    "track_level g r = f32 (clamp01 (shown_level gs ms r))" by (auto simp: levels_of_def)
  with r assms(3,4) show "(\<exists>v. gs' r = Some (Some v)) \<and> (\<exists>b. ms' r = Some (Some b))
      \<and> track_level h r = f32 (clamp01 (shown_level gs' ms' r))" by (simp add: shown_own)
qed

lemma levels_ok_cong:
  assumes "levels_ok st" "globalPrefs st' = globalPrefs st" "streamerPrefs st' = streamerPrefs st"
    and "settings st' = settings st" "trackList st' = trackList st" "gains st' = gains st" "mutes st' = mutes st"
    and "tracks (graph st') = tracks (graph st)"
    and "\<And>r. r \<in> dom (tracks (graph st)) \<Longrightarrow> track_level (graph st') r = track_level (graph st) r"
  shows "levels_ok st'"
proof -
  have "levels_of (graph st') (gains st) (mutes st) (dom (tracks (graph st)))"
    using assms(1) by (intro levels_of_cong [OF _ order_refl assms(9)]) (simp_all add: levels_ok_def)
  with assms show ?thesis by (simp add: levels_ok_def)
qed

subsection \<open>The handlers of the panel\<close>

lemma content_facts:
  assumes "content_ok st"
  shows "graph_ok (graph st)" "lanes_ok (graph st) (audioLanes st)" "dom (tracks (graph st)) = slugs st"
    "dom (settings st) = slugs st"
  using assms by (simp_all add: content_ok_def parts_ok_def)

lemma onChange_levels:
  assumes "content_ok st" "levels_ok st" "s \<in> slugs st"
  shows "levels_ok (onChange s v st)"
proof -
  note c = content_facts [OF assms(1)]
  have l: "levels_of (graph st) (gains st) (mutes st) (slugs st)" using assms(2) c by (simp add: levels_ok_def)
  with assms(3) obtain b where b: "mutes st s = Some (Some b)" by (auto simp: levels_of_def)
  have "levels_of (setTrackGain (graph st) s (if b then nnum 0 else v)) ((gains st)(s \<mapsto> Some v)) (mutes st) (insert s (slugs st))"
    using l assms(3) c b by (intro levels_of_set [OF c(1) l]) auto
  moreover have "is_muted (mutes st) s = b" using b by (simp add: is_muted_def js_lookup_def)
  moreover obtain x where x: "settings st s = Some x" using assms(3) c(4) by blast
  moreover have "full_prefs ((settings st)(s \<mapsto> x\<lparr>gain := Some v\<rparr>))"
    using assms(2) x by (intro full_prefs_upd) (auto simp: levels_ok_def full_prefs_def full_def ran_def)
  ultimately show ?thesis
    using assms(2,3) c by (simp add: levels_ok_def onChange_def Let_def insert_absorb)
qed

lemma onMuteToggle_levels:
  assumes "content_ok st" "levels_ok st" "s \<in> slugs st"
  shows "levels_ok (onMuteToggle s st)"
proof -
  note c = content_facts [OF assms(1)]
  have l: "levels_of (graph st) (gains st) (mutes st) (slugs st)" using assms(2) c by (simp add: levels_ok_def)
  with assms(3) obtain b v where b: "mutes st s = Some (Some b)" and v: "gains st s = Some (Some v)"
    by (auto simp: levels_of_def)
  have "levels_of (setTrackGain (graph st) s (if \<not> b then nnum 0 else v)) (gains st) ((mutes st)(s \<mapsto> Some (\<not> b))) (insert s (slugs st))"
    using l assms(3) c b v by (intro levels_of_set [OF c(1) l]) auto
  moreover have "is_muted (mutes st) s = b" "gain_or_half (gains st) s = v"
    using b v by (simp_all add: is_muted_def gain_or_half_def js_lookup_def)
  moreover obtain x where x: "settings st s = Some x" using assms(3) c(4) by blast
  moreover have "full_prefs ((settings st)(s \<mapsto> x\<lparr>muted := Some (\<not> b)\<rparr>))"
    using assms(2) x by (intro full_prefs_upd) (auto simp: levels_ok_def full_prefs_def full_def ran_def)
  ultimately show ?thesis
    using assms(2,3) c by (cases b) (simp_all add: levels_ok_def onMuteToggle_def Let_def insert_absorb)
qed

lemma onBroadcastChange_levels:
  assumes "content_ok st" "levels_ok st"
  shows "levels_ok (onBroadcastChange v st)"
  by (rule levels_ok_cong [OF assms(2)])
    (simp_all add: onBroadcastChange_def level_core(1) [OF content_facts(1) [OF assms(1)]] del: gain_of_set)

lemma onOffsetChange_levels:
  assumes "content_ok st" "levels_ok st"
  shows "levels_ok (onOffsetChange v st)"
  by (rule levels_ok_cong [OF assms(2)])
    (simp_all add: onOffsetChange_def level_core(2) [OF content_facts(1) [OF assms(1)]] del: gain_of_set)

text \<open>
  The loops rebuild the dictionaries from nothing: after a prefix of the tracks the new
  dictionaries hold for its slugs.
\<close>

lemma solo_loop_levels:
  assumes "graph_ok g" "\<And>t. t \<in> set ts \<Longrightarrow> slug t \<in> dom (tracks g) \<and> (\<exists>v. gs (slug t) = Some (Some v))"
    and "levels_of g gs nm S" "S \<subseteq> dom (tracks g)" "solo_loop s gs ts (nm, g) = (nm', g')"
  shows "levels_of g' gs nm' (S \<union> slug ` set ts)"
  using assms
proof (induction ts arbitrary: S nm g)
  case (Cons t ts)
  let ?nm = "nm(slug t \<mapsto> Some (slug t \<noteq> s))"
  obtain v where v: "gs (slug t) = Some (Some v)" using Cons.prems(2) by auto
  let ?x = "if slug t \<noteq> s then nnum 0 else v"
  have m: "is_muted ?nm (slug t) \<longleftrightarrow> slug t \<noteq> s" "gain_or_half gs (slug t) = v"
    using v by (simp_all add: is_muted_def gain_or_half_def js_lookup_def)
  have "levels_of (setTrackGain g (slug t) ?x) gs ?nm (insert (slug t) S)"
    using Cons.prems v by (intro levels_of_set [OF Cons.prems(1,3,4)]) auto
  moreover have "solo_loop s gs ts (?nm, setTrackGain g (slug t) ?x) = (nm', g')"
    using Cons.prems(5) unfolding solo_loop.simps Let_def m .
  ultimately have "levels_of g' gs nm' (insert (slug t) S \<union> slug ` set ts)"
    using Cons.prems(1,2,4) by (intro Cons.IH [of "setTrackGain g (slug t) ?x" ?nm "insert (slug t) S"])
      (simp_all only: tracks_set setTrackGain_ok list.set insert_iff insert_subset simp_thms)
  then show ?case by simp
qed simp

lemma onSoloToggle_levels:
  assumes "content_ok st" "levels_ok st"
  shows "levels_ok (onSoloToggle s st)"
proof -
  note c = content_facts [OF assms(1)]
  obtain nm g where e: "solo_loop s (gains st) (trackList st) (Map.empty, graph st) = (nm, g)" by fastforce
  have "levels_of g (gains st) nm ({} \<union> slug ` set (trackList st))"
    using assms(2) c by (intro solo_loop_levels [OF c(1) _ _ _ e])
      (auto simp: levels_of_def levels_ok_def slugs_def)
  moreover have "dom (tracks g) = slugs st" using solo_loop_ok [OF c(1,2) e] c(3) by simp
  ultimately show ?thesis using assms(2) e by (simp add: levels_ok_def onSoloToggle_def slugs_def)
qed

lemma reset_loop_levels:
  assumes "graph_ok g" "\<And>t. t \<in> set ts \<Longrightarrow> slug t \<in> dom (tracks g) \<and> plain_track t" "full_prefs gl" "full_prefs se"
    and "levels_of g ng nm S" "S \<subseteq> dom (tracks g)" "reset_loop gl ts (ng, nm, se, g) = (ng', nm', se', g')"
  shows "levels_of g' ng' nm' (S \<union> slug ` set ts) \<and> full_prefs se'"
  using assms
proof (induction ts arbitrary: S ng nm se g)
  case (Cons t ts)
  let ?e = "effectiveSetting (slug t) (category t) Map.empty gl"
  have f: "full ?e" using Cons.prems(2,3) by (intro effective_full) auto
  then obtain v b where v: "gain ?e = Some v" and b: "muted ?e = Some b" by (auto simp: full_def)
  let ?g = "setTrackGain g (slug t) (setting_level ?e)"
  have "levels_of ?g (ng(slug t \<mapsto> gain ?e)) (nm(slug t \<mapsto> muted ?e)) (insert (slug t) S)"
    using Cons.prems v b by (intro levels_of_set [OF Cons.prems(1,5,6)]) (auto simp: setting_level_def as_number_def)
  then have "levels_of g' ng' nm' (insert (slug t) S \<union> slug ` set ts) \<and> full_prefs se'"
    using Cons.prems full_prefs_upd [OF Cons.prems(4) f]
    by (intro Cons.IH [of ?g]) (auto simp: Let_def simp del: fun_upd_apply intro: setTrackGain_ok)
  then show ?case by simp
qed simp

lemma onReset_levels:
  assumes "content_ok st" "levels_ok st"
  shows "levels_ok (onReset st)"
proof -
  note c = content_facts [OF assms(1)]
  obtain ng nm se g where
    e: "reset_loop (globalPrefs st) (trackList st) (Map.empty, Map.empty, settings st, graph st) = (ng, nm, se, g)"
    by (metis prod_cases4)
  have "levels_of g ng nm ({} \<union> slug ` set (trackList st)) \<and> full_prefs se"
    using assms(2) c by (intro reset_loop_levels [OF c(1) _ _ _ _ _ e])
      (auto simp: levels_of_def levels_ok_def slugs_def list_all_iff)
  moreover have "dom (tracks g) = slugs st" using reset_loop_ok [OF c(1,2) e] c(3) by simp
  ultimately show ?thesis using assms(2) e by (simp add: levels_ok_def onReset_def slugs_def)
qed

subsection \<open>A new track list\<close>

lemma drop_lane_level:
  assumes "graph_ok (graph st)" "lanes_ok (graph st) (audioLanes st)" "r \<in> dom (tracks (graph st))"
  shows "track_level (graph (drop_lane s st)) r = track_level (graph st) r"
proof (cases "audioLanes st s")
  case (Some lane)
  then have "lane_at (graph st) s lane" using assms(2) by (simp add: lanes_ok_def)
  then have "gain_of (graph st) r \<notin> live lane"
    using live_not_role [OF assms(1), of s lane "gain_of (graph st) r"] assms(3) unfolding roles_def by blast
  then show ?thesis
    using lanes_ok_close(5,6) [OF assms(1,2) Some] by (simp add: drop_lane_def Some gain_value_def)
qed (simp add: drop_lane_def)

text \<open>The part of the invariant the loops of \<open>applyTrackList\<close> carry.\<close>

definition levels_on :: "jsstring set \<Rightarrow> State \<Rightarrow> bool" where
  "levels_on S st \<longleftrightarrow>
     parts_ok S st \<and> full_prefs (globalPrefs st) \<and> full_prefs (streamerPrefs st) \<and> full_prefs (settings st)
     \<and> levels_of (graph st) (gains st) (mutes st) S"

lemma remove_gone_levels:
  assumes "levels_on S st"
  shows "levels_on (if slug t \<in> inc then S else S - {slug t}) (remove_gone inc t st)"
proof (cases "slug t \<in> inc")
  case False
  have p: "parts_ok S st" using assms by (simp add: levels_on_def)
  then have g: "graph_ok (graph st)" "lanes_ok (graph st) (audioLanes st)" "dom (tracks (graph st)) = S"
    by (simp_all add: parts_ok_def)
  let ?h = "removeTrack (graph (drop_lane (slug t) st)) (slug t)"
  have l: "levels_of (graph st) (gains st) (mutes st) S" using assms by (simp add: levels_on_def)
  have t: "track_level ?h r = track_level (graph st) r" if "r \<in> S - {slug t}" for r
    using that g by (simp add: level_removeTrack drop_lane_level)
  have "levels_of ?h ((gains st)(slug t := None)) ((mutes st)(slug t := None)) (S - {slug t})"
    by (rule levels_of_cong [OF l _ t]) simp_all
  moreover have "graph (remove_gone inc t st) = ?h" "gains (remove_gone inc t st) = (gains st)(slug t := None)"
    "mutes (remove_gone inc t st) = (mutes st)(slug t := None)" "settings (remove_gone inc t st) = (settings st)(slug t := None)"
    using False by (simp_all add: remove_gone_def Let_def drop_lane_fields [OF g(1,2)])
  moreover have "full_prefs ((settings st)(slug t := None))" using assms by (intro full_prefs_del) (simp add: levels_on_def)
  ultimately show ?thesis
    using assms remove_gone_ok [OF p, of t inc] False unfolding levels_on_def remove_gone_fields [OF p] by simp
qed (use assms in \<open>simp add: remove_gone_def\<close>)

lemma ensureLane_keeps:
  "graph (snd (ensureLane s st)) = graph st" "settings (snd (ensureLane s st)) = settings st"
  "gains (snd (ensureLane s st)) = gains st" "mutes (snd (ensureLane s st)) = mutes st"
  "globalPrefs (snd (ensureLane s st)) = globalPrefs st" "streamerPrefs (snd (ensureLane s st)) = streamerPrefs st"
  "trackList (snd (ensureLane s st)) = trackList st"
  by (simp_all add: ensureLane_def Let_def split: option.split)

lemma add_new_levels:
  assumes "levels_on S st" "plain_track t"
  shows "levels_on (insert (slug t) S) (add_new t st)"
proof (cases "settings st (slug t)")
  case None
  have p: "parts_ok S st" using assms by (simp add: levels_on_def)
  then have g: "graph_ok (graph st)" "dom (tracks (graph st)) = S" by (simp_all add: parts_ok_def)
  let ?e = "effectiveSetting (slug t) (category t) (streamerPrefs st) (globalPrefs st)"
  have f: "full ?e" using assms by (intro effective_full) (simp_all add: levels_on_def)
  then obtain v b where v: "gain ?e = Some v" "muted ?e = Some b" by (auto simp: full_def)
  let ?a = "snd (addTrack (graph st) (slug t))"
  have l: "levels_of (graph st) (gains st) (mutes st) S" using assms by (simp add: levels_on_def)
  have "levels_of ?a (gains st) (mutes st) S"
    by (rule levels_of_cong [OF l order_refl level_addTrack [OF g(1), unfolded g(2)]]) simp_all
  then have "levels_of (setTrackGain ?a (slug t) (setting_level ?e)) ((gains st)(slug t \<mapsto> gain ?e))
      ((mutes st)(slug t \<mapsto> muted ?e)) (insert (slug t) S)"
    by (rule levels_of_set [OF addTrack_ok [OF g(1)]])
      (auto simp: addTrack_dom g(2) v setting_level_def as_number_def)
  moreover have "full_prefs ((settings st)(slug t \<mapsto> ?e))"
    using full_prefs_upd [OF _ f] assms(1) by (simp add: levels_on_def)
  moreover have "graph (add_new t st) = setTrackGain ?a (slug t) (setting_level ?e)"
    "gains (add_new t st) = (gains st)(slug t \<mapsto> gain ?e)" "mutes (add_new t st) = (mutes st)(slug t \<mapsto> muted ?e)"
    "settings (add_new t st) = (settings st)(slug t \<mapsto> ?e)"
    using None by (simp_all add: add_new_def Let_def ensureLane_keeps)
  ultimately show ?thesis
    using assms(1) add_new_ok [OF p, of t] unfolding levels_on_def add_new_fields by simp
next
  case (Some x)
  with assms have "insert (slug t) S = S" by (auto simp: levels_on_def parts_ok_def)
  with Some assms show ?thesis by (simp add: add_new_def)
qed

lemma fold_remove_gone_levels:
  "levels_on S st \<Longrightarrow> levels_on (S - {s \<in> slug ` set ts. s \<notin> inc}) (fold (remove_gone inc) ts st)"
proof (induction ts arbitrary: S st)
  case (Cons t ts)
  have "(if slug t \<in> inc then S else S - {slug t}) - {s \<in> slug ` set ts. s \<notin> inc}
      = S - {s \<in> slug ` set (t # ts). s \<notin> inc}" by auto
  with Cons.IH [OF remove_gone_levels [OF Cons.prems, of t inc]] show ?case by simp
qed simp

lemma fold_add_new_levels:
  "levels_on S st \<Longrightarrow> list_all plain_track ts \<Longrightarrow> levels_on (S \<union> slug ` set ts) (fold add_new ts st)"
proof (induction ts arbitrary: S st)
  case (Cons t ts)
  then show ?case using Cons.IH [OF add_new_levels, of S st t] by simp
qed simp

lemma onTrackList_levels:
  assumes "content_ok st" "levels_ok st" "list_all plain_track ts"
  shows "levels_ok (onTrackList ts st)"
proof -
  let ?i = "indexTracks ts st" and ?inc = "slug ` set ts"
  note c = content_facts [OF assms(1)]
  have "levels_on (slugs st) ?i"
    using assms(1,2) c by (simp add: levels_on_def levels_ok_def content_ok_def parts_ok_def indexTracks_def)
  from fold_add_new_levels [OF fold_remove_gone_levels [OF this, of "trackList st" ?inc] assms(3)]
  have "levels_on ?inc (fold add_new ts (fold (remove_gone ?inc) (trackList st) ?i))"
    by (rule back_subst [of "\<lambda>S. levels_on S _"]) (auto simp: slugs_def)
  moreover have "trackList ?i = trackList st" by (simp add: indexTracks_def)
  ultimately show ?thesis
    using assms(3) by (simp add: levels_on_def levels_ok_def onTrackList_def applyTrackList_def Let_def parts_ok_def)
qed

subsection \<open>Audio, and a fresh mixer\<close>

lemma lane_ctx_levels:
  assumes "levels_ok st" "\<And>r. r \<in> dom (tracks (graph st)) \<Longrightarrow> nodes c (gain_of (graph st) r) = nodes (ctx (graph st)) (gain_of (graph st) r)"
  shows "levels_ok (st\<lparr>graph := (graph st)\<lparr>ctx := c\<rparr>, audioLanes := l\<rparr>)"
  by (rule levels_ok_cong [OF assms(1)]) (simp_all add: gain_value_def assms(2))

lemma onAudio_levels:
  assumes "levels_ok st"
  shows "levels_ok (onAudio i f st)"
proof -
  have "graph (onAudio i f st) = graph st \<and> settings (onAudio i f st) = settings st \<and> gains (onAudio i f st) = gains st
      \<and> mutes (onAudio i f st) = mutes st \<and> globalPrefs (onAudio i f st) = globalPrefs st
      \<and> streamerPrefs (onAudio i f st) = streamerPrefs st \<and> trackList (onAudio i f st) = trackList st"
    by (auto simp: onAudio_def ensureLane_def Let_def split: option.split)
  then show ?thesis by (intro levels_ok_cong [OF assms]) simp_all
qed

lemma onCodecError_levels: "levels_ok st \<Longrightarrow> levels_ok (onCodecError s st)"
  by (erule levels_ok_cong) (simp_all add: onCodecError_def split: option.split)

lemma onDecoded_levels:
  assumes "content_ok st" "levels_ok st"
  shows "levels_ok (onDecoded s d st)"
proof (cases "audioLanes st s")
  case (Some lane)
  note c = content_facts [OF assms(1)]
  have "nodes (fst (enqueue (ctx (graph st)) (scheduler lane) buf)) (gain_of (graph st) r)
      = nodes (ctx (graph st)) (gain_of (graph st) r)" if "r \<in> dom (tracks (graph st))" for buf r
    using lanes_ok_enqueue(3) [OF c(1,2) Some] track_nodes_less(2) [OF c(1) that] by simp
  from lane_ctx_levels [OF assms(2) this] assms(2) show ?thesis
    by (simp add: onDecoded_def Some split_beta split: option.split)
qed (simp add: onDecoded_def assms)

lemma onSourceEnded_levels:
  assumes "content_ok st" "levels_ok st" "audioLanes st s = Some lane" "src \<in> live lane"
  shows "levels_ok (onSourceEnded s src st)"
  using lane_ctx_levels [OF assms(2), of "fst (onended (ctx (graph st)) (scheduler lane) src)"]
    lanes_ok_ended(3) [OF content_facts(1,2) [OF assms(1)] assms(3,4)]
  by (simp add: onSourceEnded_def assms(3) split_beta)

lemma init_levels:
  "tracks g = Map.empty \<Longrightarrow> full_prefs gp \<Longrightarrow> full_prefs sp \<Longrightarrow> levels_ok (init_state g gp sp w)"
  by (simp add: init_state_def Let_def levels_ok_def levels_of_def)

end
