(* ===== verification/CategoryDisplay.thy ===== *)
theory CategoryDisplay
  imports Prefs JsText
begin

text \<open>
  \<^verbatim>\<open>extension/src/ui/categoryDisplay.ts\<close>: the icon and label of a category. The two tables are
  plain objects, so a lookup may also find an inherited function (\<open>None\<close>: not a string); the
  results say that this never happens for a category and that presets are told apart.
\<close>

definition ICONS :: "jsstring dict" where
  "ICONS = map_of
     [(js ''mic'', cp_utf16 0x1F3A4), (js ''game'', cp_utf16 0x1F3AE), (js ''music'', cp_utf16 0x1F3B5),
      (js ''voicechat'', cp_utf16 0x1F4AC), (js ''notifications'', cp_utf16 0x1F514),
      (js ''browser'', cp_utf16 0x1F310), (js ''alerts'', cp_utf16 0x1F4E3), (js ''tts'', cp_utf16 0x1F5E3)]"

definition LABELS :: "jsstring dict" where
  "LABELS = map_of
     [(js ''mic'', js ''Microphone''), (js ''game'', js ''Game''), (js ''music'', js ''Music''),
      (js ''voicechat'', js ''Voice Chat''), (js ''notifications'', js ''Notifications''),
      (js ''browser'', js ''Browser''), (js ''alerts'', js ''Stream Alerts''),
      (js ''tts'', js ''TTS / Donations'')]"

text \<open>\<^verbatim>\<open>table[c] ?? fallback\<close>\<close>

definition table_or :: "jsstring dict \<Rightarrow> jsstring \<Rightarrow> jsstring \<Rightarrow> jsstring option" where
  "table_or d fallback c =
     (case js_lookup d c of Own s \<Rightarrow> Some s | Inherited \<Rightarrow> None | Undefined \<Rightarrow> Some fallback)"

definition categoryIcon :: "jsstring \<Rightarrow> jsstring option" where
  "categoryIcon c = table_or ICONS (cp_utf16 0x1F50A) c"

definition categoryLabel :: "jsstring \<Rightarrow> jsstring option" where
  "categoryLabel c = table_or LABELS (js ''Channel'') c"

lemma table_or_preset:
  "isPresetCategory c \<Longrightarrow> table_or d fallback c = Some (case d c of Some s \<Rightarrow> s | None \<Rightarrow> fallback)"
  using inherited_preset [of c] by (simp add: table_or_def js_lookup_def split: option.split)

lemma tables_cover:
  "dom ICONS = set PRESET_CATEGORIES" "dom LABELS = set PRESET_CATEGORIES"
  by (auto simp: ICONS_def LABELS_def PRESET_CATEGORIES_def split: if_splits)

lemma tables_inj: "inj_on ICONS (dom ICONS)" "inj_on LABELS (dom LABELS)"
  unfolding tables_cover
  by (auto simp: inj_on_def ICONS_def LABELS_def PRESET_CATEGORIES_def cp_utf16_def)

subsection \<open>Properties\<close>

text \<open>
  Every preset category has its own icon and its own label, different from every other
  preset's, and the custom category gets the generic ones.
\<close>

lemma categories_shown:
  "(isPresetCategory c \<and> isPresetCategory d \<longrightarrow>
      (\<exists>i l. categoryIcon c = Some i \<and> categoryLabel c = Some l
         \<and> (categoryIcon d = Some i \<longrightarrow> d = c) \<and> (categoryLabel d = Some l \<longrightarrow> d = c)))
   \<and> categoryIcon CUSTOM_CATEGORY = Some (cp_utf16 0x1F50A)
   \<and> categoryLabel CUSTOM_CATEGORY = Some (js ''Channel'')"
proof (intro conjI impI)
  assume "isPresetCategory c \<and> isPresetCategory d"
  then have p: "isPresetCategory c" "isPresetCategory d" by simp_all
  then have "c \<in> dom ICONS" "d \<in> dom ICONS" "c \<in> dom LABELS" "d \<in> dom LABELS"
    unfolding tables_cover by (simp_all add: isPresetCategory_def)
  then obtain i i' l l' where t: "ICONS c = Some i" "ICONS d = Some i'" "LABELS c = Some l" "LABELS d = Some l'"
    by (auto simp: dom_def)
  then have "i' = i \<longrightarrow> d = c" "l' = l \<longrightarrow> d = c"
    using tables_inj unfolding inj_on_def by (metis domI)+
  with t show "\<exists>i l. categoryIcon c = Some i \<and> categoryLabel c = Some l
         \<and> (categoryIcon d = Some i \<longrightarrow> d = c) \<and> (categoryLabel d = Some l \<longrightarrow> d = c)"
    by (simp add: categoryIcon_def categoryLabel_def table_or_preset [OF p(1)] table_or_preset [OF p(2)])
qed (simp_all add: categoryIcon_def categoryLabel_def table_or_def js_lookup_def ICONS_def LABELS_def
    CUSTOM_CATEGORY_def OBJECT_PROTOTYPE_def)

lemma categories_shown_example:
  "\<exists>i l. categoryIcon (js ''mic'') = Some i \<and> categoryLabel (js ''mic'') = Some l
      \<and> categoryIcon (js ''tts'') \<noteq> Some i \<and> categoryLabel (js ''tts'') \<noteq> Some l"
  using categories_shown [of "js ''mic''" "js ''tts''"]
  by (auto simp: isPresetCategory_def PRESET_CATEGORIES_def)

end
