(* ===== verification/Mixer.thy ===== *)
theory Mixer
  imports Content CategoryDisplay
begin

text \<open>
  \<^verbatim>\<open>extension/src/ui/Mixer.svelte\<close>: the panel. \<open>render\<close> is the markup as a function of the
  properties, \<open>panel_handler\<close> what its event handlers call.

  The sliders are \<^verbatim>\<open>range\<close> inputs: the browser gives their value as the decimal text of a number
  between \<^verbatim>\<open>min\<close> and \<^verbatim>\<open>max\<close> on a \<^verbatim>\<open>step\<close>. A level goes through three roundings on its way from a
  slider to the text beside it (a division, a multiplication and \<^verbatim>\<open>Math.round\<close>); the lemmas show
  that they cancel on every position of every slider.
\<close>

subsection \<open>Numbers and text\<close>

text \<open>\<^verbatim>\<open>Number(text)\<close> on the decimal literals a range input holds.\<close>

definition Number :: "jsstring \<Rightarrow> jsnum" where
  "Number s = (case scan_number s of Some (x, []) \<Rightarrow> x | _ \<Rightarrow> NaN)"

text \<open>Division by a positive literal.\<close>

definition num_over :: "jsnum \<Rightarrow> rat \<Rightarrow> jsnum" where
  "num_over x k = (case x of Fin r \<Rightarrow> to_double (r / k) | _ \<Rightarrow> x)"

definition Math_round :: "jsnum \<Rightarrow> jsnum" where
  "Math_round x = (case x of Fin r \<Rightarrow> Fin (of_int \<lfloor>r + 1 / 2\<rfloor>) | _ \<Rightarrow> x)"

text \<open>\<^verbatim>\<open>x.toFixed(2)\<close>: the nearest hundredth of the exact value, upwards on a tie.\<close>

definition hundredths :: "nat \<Rightarrow> jsstring" where
  "hundredths n = nat_str (n div 100) @ [46, digit_unit (n div 10 mod 10), digit_unit (n mod 10)]"

definition toFixed2 :: "jsnum \<Rightarrow> jsstring" where
  "toFixed2 x =
     (case x of
        Fin r \<Rightarrow>
          if 10 ^ 21 \<le> \<bar>r\<bar> then num_str x
          else if r < 0 then 45 # hundredths (nat \<lfloor>- r * 100 + 1 / 2\<rfloor>)
          else hundredths (nat \<lfloor>r * 100 + 1 / 2\<rfloor>)
      | _ \<Rightarrow> num_str x)"

subsection \<open>The markup\<close>

record Row =
  row_id :: jsnum
  row_title :: jsstring
  row_icon :: "jsstring option"
  row_label :: "jsstring option"
  row_slider :: jsnum
  row_faded :: bool
  row_text :: jsstring

record Panel =
  rows :: "Row list"
  broadcast_slider :: jsnum
  broadcast_text :: jsstring
  offset_row :: "(jsnum \<times> jsstring) option"

definition percent :: "jsnum \<Rightarrow> jsnum" where
  "percent v = Math_round (num_mul v (nnum 100))"

definition row :: "MixerProps \<Rightarrow> TrackInfo \<Rightarrow> Row" where
  "row p t =
     (let m = is_muted (p_muted p) (slug t); v = percent (gain_or_half (p_gains p) (slug t))
      in \<lparr>row_id = tid t,
          row_title = (if m then js ''Unmute'' else js ''Mute (Shift+click to solo)''),
          row_icon = categoryIcon (category t),
          row_label = (if label t \<noteq> [] then Some (label t) else categoryLabel (category t)),
          row_slider = v, row_faded = m, row_text = num_str v\<rparr>)"

definition render :: "MixerProps \<Rightarrow> bool \<Rightarrow> Panel" where
  "render p showSettings =
     \<lparr>rows = map (row p) (p_tracks p),
      broadcast_slider = percent (p_broadcastGain p),
      broadcast_text = num_str (percent (p_broadcastGain p)),
      offset_row =
        (if showSettings then Some (p_offsetMs p, toFixed2 (num_over (p_offsetMs p) 1000) @ js ''s'') else None)\<rparr>"

subsection \<open>The handlers\<close>

definition handleSliderInput :: "jsstring \<Rightarrow> jsstring \<Rightarrow> State \<Rightarrow> State" where
  "handleSliderInput sl txt st = onChange sl (num_over (Number txt) 100) st"

definition handleBroadcastInput :: "jsstring \<Rightarrow> State \<Rightarrow> State" where
  "handleBroadcastInput txt st = onBroadcastChange (num_over (Number txt) 100) st"

definition handleOffsetInput :: "jsstring \<Rightarrow> State \<Rightarrow> State" where
  "handleOffsetInput txt st = onOffsetChange (Number txt) st"

text \<open>A click on the icon of a row.\<close>

definition icon_click :: "bool \<Rightarrow> jsstring \<Rightarrow> State \<Rightarrow> State" where
  "icon_click shiftKey sl st = (if shiftKey then onSoloToggle sl st else onMuteToggle sl st)"

datatype panel_input =
    Slider jsstring jsstring
  | Icon bool jsstring
  | Broadcast jsstring
  | Offset jsstring
  | Reset

fun panel_handler :: "panel_input \<Rightarrow> State \<Rightarrow> State" where
  "panel_handler (Slider sl txt) st = handleSliderInput sl txt st"
| "panel_handler (Icon shiftKey sl) st = icon_click shiftKey sl st"
| "panel_handler (Broadcast txt) st = handleBroadcastInput txt st"
| "panel_handler (Offset txt) st = handleOffsetInput txt st"
| "panel_handler Reset st = onReset st"

text \<open>The row an input belongs to is one of those shown.\<close>

fun shown_input :: "MixerProps \<Rightarrow> panel_input \<Rightarrow> bool" where
  "shown_input p (Slider sl txt) \<longleftrightarrow> sl \<in> slug ` set (p_tracks p)"
| "shown_input p (Icon shiftKey sl) \<longleftrightarrow> sl \<in> slug ` set (p_tracks p)"
| "shown_input p _ \<longleftrightarrow> True"

subsection \<open>The roundings cancel\<close>

lemma Number_nat: "n < 10 ^ 15 \<Longrightarrow> Number (nat_str n) = nnum n"
proof -
  assume n: "n < 10 ^ 15"
  have "scan_number (num_str (Fin (of_nat n)) @ []) = Some (Fin (of_nat n), [])"
    using n by (intro scan_num_str is_double_nat) (simp_all add: num_end_def)
  with n show ?thesis by (simp add: Number_def)
qed

lemma round_near: "\<bar>x - of_int n\<bar> < 1 / 2 \<Longrightarrow> \<lfloor>x + 1 / 2\<rfloor> = n" for x :: rat
  by (rule floor_unique) (auto simp: abs_if split: if_splits)

lemma slider_level: "n \<le> 100 \<Longrightarrow> num_over (nnum n) 100 = Fin (f64 (of_nat n / 100))"
  by (simp add: num_over_def) (rule to_double_small, simp)

lemma percent_slider:
  assumes "n \<le> 100"
  shows "percent (Fin (f64 (of_nat n / 100))) = nnum n"
proof -
  let ?x = "of_nat n / 100 :: rat"
  let ?y = "f64 ?x * 100"
  have n: "(of_nat n :: rat) \<le> 100" using assms by (metis of_nat_le_iff of_nat_numeral)
  then have "\<bar>f64 ?x - ?x\<bar> \<le> 1 / 2 ^ 53" using f64_err [of ?x 1] by simp
  then have "\<bar>f64 ?x * 100 - of_nat n\<bar> \<le> 1 / 2 ^ 46" by (auto simp: abs_if field_simps split: if_splits)
  then have y: "\<bar>?y - of_nat n\<bar> \<le> 1 / 4" by (rule order_trans) simp
  then have b: "\<bar>?y\<bar> < 2 ^ 7" using n by (auto simp: abs_if split: if_splits)
  have "\<bar>f64 ?y - ?y\<bar> \<le> 1 / 2 ^ 47" using f64_err [OF b] by simp
  then have "\<bar>f64 ?y - ?y\<bar> \<le> 1 / 8" by (rule order_trans) simp
  with y have "\<lfloor>f64 ?y + 1 / 2\<rfloor> = int n" by (intro round_near) (auto simp: abs_if split: if_splits)
  moreover have "to_double ?y = Fin (f64 ?y)" using b by (intro to_double_small) auto
  ultimately show ?thesis by (simp add: percent_def num_mul_def Math_round_def)
qed

lemma toFixed_offset:
  assumes "n \<le> 3000"
  shows "toFixed2 (num_over (nnum (10 * n)) 1000) = hundredths n"
proof -
  let ?x = "of_nat (10 * n) / 1000 :: rat"
  have n: "(of_nat n :: rat) \<le> 3000" using assms by (metis of_nat_le_iff of_nat_numeral)
  have "\<bar>f64 ?x - ?x\<bar> \<le> 1 / 2 ^ 49" using n f64_err [of ?x 5] by simp
  then have x: "\<bar>f64 ?x - ?x\<bar> \<le> 1 / 1000" by (rule order_trans) simp
  then have "\<lfloor>f64 ?x * 100 + 1 / 2\<rfloor> = int n" by (intro round_near) (auto simp: abs_if field_simps split: if_splits)
  moreover have "0 \<le> f64 ?x" by (rule f64.rnd_nonneg) simp
  moreover have "f64 ?x < 10 ^ 21" using x n by (auto simp: abs_if split: if_splits)
  moreover have "num_over (nnum (10 * n)) 1000 = Fin (f64 ?x)"
    using n by (simp add: num_over_def) (rule to_double_small, simp)
  ultimately show ?thesis by (simp add: toFixed2_def)
qed

subsection \<open>Properties\<close>

text \<open>
  C16: at every position of every slider the panel shows the position the user picked: the level of
  a track and of the broadcast come back as the same whole percentage, through the division by 100,
  the multiplication by 100 and \<^verbatim>\<open>Math.round\<close> in double precision, and the sync offset is shown as
  its exact number of seconds with two digits.
\<close>

theorem sliders_show_what_was_picked:
  "(n \<le> 100 \<longrightarrow>
      row_slider (row (mixer (handleSliderInput (slug t) (nat_str n) st)) t) = nnum n
      \<and> row_text (row (mixer (handleSliderInput (slug t) (nat_str n) st)) t) = nat_str n
      \<and> broadcast_slider (render (mixer (handleBroadcastInput (nat_str n) st)) b) = nnum n
      \<and> broadcast_text (render (mixer (handleBroadcastInput (nat_str n) st)) b) = nat_str n)
   \<and> (of_nat (10 * m) \<le> MAX_OFFSET_MS \<longrightarrow>
      offset_row (render (mixer (handleOffsetInput (nat_str (10 * m)) st)) True)
        = Some (nnum (10 * m), hundredths m @ js ''s''))"
proof (intro conjI impI)
  assume n: "n \<le> 100"
  let ?v = "Fin (f64 (of_nat n / 100))"
  have v: "num_over (Number (nat_str n)) 100 = ?v" using n by (simp add: Number_nat slider_level)
  have g: "gain_or_half (p_gains (mixer (handleSliderInput (slug t) (nat_str n) st))) (slug t) = ?v"
    by (simp add: handleSliderInput_def v onChange_def Let_def gain_or_half_def js_lookup_def)
  show "row_slider (row (mixer (handleSliderInput (slug t) (nat_str n) st)) t) = nnum n"
    "row_text (row (mixer (handleSliderInput (slug t) (nat_str n) st)) t) = nat_str n"
    "broadcast_slider (render (mixer (handleBroadcastInput (nat_str n) st)) b) = nnum n"
    "broadcast_text (render (mixer (handleBroadcastInput (nat_str n) st)) b) = nat_str n"
    using n percent_slider [OF n]
    by (simp_all add: row_def Let_def g render_def handleBroadcastInput_def onBroadcastChange_def v)
next
  assume "of_nat (10 * m) \<le> MAX_OFFSET_MS"
  then have "of_nat m \<le> (of_nat 3000 :: rat)" by (simp add: MAX_OFFSET_MS_def MAX_OFFSET_SECONDS_def)
  then have m: "m \<le> 3000" by (simp only: of_nat_le_iff)
  then have "Number (nat_str (10 * m)) = nnum (10 * m)" by (intro Number_nat) simp
  then show "offset_row (render (mixer (handleOffsetInput (nat_str (10 * m)) st)) True)
      = Some (nnum (10 * m), hundredths m @ js ''s'')"
    using toFixed_offset [OF m] by (simp add: render_def handleOffsetInput_def onOffsetChange_def)
qed

definition mic_track :: TrackInfo where
  "mic_track = \<lparr>tid = nnum 1, slug = js ''mic'', category = js ''mic'', label = []\<rparr>"

theorem sliders_show_what_was_picked_witness:
  "row_text (row (mixer (handleSliderInput (js ''mic'') (nat_str 57)
       (init_state built Map.empty Map.empty True))) mic_track) = js ''57''
   \<and> offset_row (render (mixer (handleOffsetInput (nat_str 3500)
       (init_state built Map.empty Map.empty True))) True) = Some (nnum 3500, js ''3.50s'')"
  using sliders_show_what_was_picked [of 57 mic_track "init_state built Map.empty Map.empty True" True 350]
  by (simp add: mic_track_def MAX_OFFSET_MS_def MAX_OFFSET_SECONDS_def hundredths_def nat_str_def dec_digits.simps
      digit_unit_def)

end
