(* ===== verification/Session.thy ===== *)
theory Session
  imports ContentLevels Mixer
begin

text \<open>
  A mounted mixer at work: the relay client, the state behind the panel and the storage area,
  driven by everything that can happen to them. \<open>session_step\<close> puts the components together the
  way \<^verbatim>\<open>mount()\<close> wires them: the callbacks given to \<^verbatim>\<open>connect\<close> run on what the client delivers, the
  panel's inputs run its handlers, decoded audio and ended sources reach the lanes.
\<close>

text \<open>The callbacks that \<^verbatim>\<open>mount()\<close> passes to \<^verbatim>\<open>connect\<close>; the others only log or are absent.\<close>

fun callback :: "relay_event \<Rightarrow> State \<Rightarrow> State" where
  "callback (OnTrackList ts) st = onTrackList ts st"
| "callback (OnAudio i f) st = onAudio i f st"
| "callback (OnFingerprint i h w) st = st"
| "callback (OnTrackMeta i m) st = st"
| "callback (OnError c m) st = st"
| "callback OnConnect st = st"
| "callback (OnDisconnect c) st = st"

text \<open>\<^verbatim>\<open>resumeAudio\<close>, on a click or when the video plays, and the clock of the audio context.\<close>

definition resumeAudio :: "State \<Rightarrow> State" where
  "resumeAudio st =
     (if cstate (ctx (graph st)) = Suspended
      then st\<lparr>graph := (graph st)\<lparr>ctx := (ctx (graph st))\<lparr>cstate := Running\<rparr>\<rparr>\<rparr>
      else st)"

definition audio_clock :: "rat \<Rightarrow> State \<Rightarrow> State" where
  "audio_clock now st = st\<lparr>graph := (graph st)\<lparr>ctx := (ctx (graph st))\<lparr>currentTime := now\<rparr>\<rparr>\<rparr>"

record Session =
  relay :: RelayClient
  content :: State
  area :: storage

datatype session_event =
    Net relay_input
  | User panel_input
  | SaveClick
  | Decoded jsstring AudioData
  | SourceEnded jsstring nat
  | CodecError jsstring
  | Gesture
  | Clock rat

text \<open>What a step of the client delivered.\<close>

definition delivered :: "RelayClient \<Rightarrow> RelayClient \<Rightarrow> relay_event list" where
  "delivered r r' = drop (length (emitted r)) (emitted r')"

text \<open>
  The channel is fixed while a mixer is mounted; the relay is closed only by \<^verbatim>\<open>destroy()\<close>, which
  ends the session.
\<close>

inductive session_step :: "jsstring \<Rightarrow> Session \<Rightarrow> session_event \<Rightarrow> Session \<Rightarrow> bool" for channelID where
  net: "relay_step (relay s) ev r \<Longrightarrow> ev \<noteq> CloseCall \<Longrightarrow>
    session_step channelID s (Net ev)
      (s\<lparr>relay := r, content := fold callback (delivered (relay s) r) (content s)\<rparr>)"
| user: "shown_input (mixer (content s)) u \<Longrightarrow>
    session_step channelID s (User u) (s\<lparr>content := panel_handler u (content s)\<rparr>)"
| save: "session_step channelID s SaveClick (s\<lparr>area := onSaveStreamer channelID (content s) (area s)\<rparr>)"
| decoded: "session_step channelID s (Decoded sl d) (s\<lparr>content := onDecoded sl d (content s)\<rparr>)"
| ended: "audioLanes (content s) sl = Some lane \<Longrightarrow> src \<in> live lane \<Longrightarrow>
    session_step channelID s (SourceEnded sl src) (s\<lparr>content := onSourceEnded sl src (content s)\<rparr>)"
| failed: "session_step channelID s (CodecError sl) (s\<lparr>content := onCodecError sl (content s)\<rparr>)"
| gesture: "session_step channelID s Gesture (s\<lparr>content := resumeAudio (content s)\<rparr>)"
| clock: "is_f64 now \<Longrightarrow> currentTime (ctx (graph (content s))) \<le> now \<Longrightarrow>
    session_step channelID s (Clock now) (s\<lparr>content := audio_clock now (content s)\<rparr>)"

inductive_cases session_stepE: "session_step channelID s ev s'"

abbreviation session_run :: "jsstring \<Rightarrow> Session \<Rightarrow> Session \<Rightarrow> bool" where
  "session_run channelID \<equiv> run (session_step channelID)"

text \<open>The end of \<^verbatim>\<open>mount()\<close>: a fresh graph, the preferences of the page and a new connection.\<close>

definition mounted :: "prefs \<Rightarrow> prefs \<Rightarrow> bool \<Rightarrow> storage \<Rightarrow> Session" where
  "mounted gp sp codecs a = \<lparr>relay = connect, content = init_state built gp sp codecs, area = a\<rparr>"

subsection \<open>One step\<close>

lemma emitted_grows: "relay_step r ev r' \<Longrightarrow> emitted r' = emitted r @ delivered r r'"
  by (auto simp: delivered_def client_defs elim!: relay_stepE split: option.split)

text \<open>The state and the clock of the audio context are outside the invariants.\<close>

lemma same_routing:
  assumes "content_ok st" "nodes c = nodes (ctx (graph st))" "edges c = edges (ctx (graph st))" "fresh c = fresh (ctx (graph st))"
  shows "content_ok (st\<lparr>graph := (graph st)\<lparr>ctx := c\<rparr>\<rparr>)"
    "levels_ok st \<Longrightarrow> levels_ok (st\<lparr>graph := (graph st)\<lparr>ctx := c\<rparr>\<rparr>)"
proof -
  note f = content_facts [OF assms(1)]
  have p: "preds c n = preds (ctx (graph st)) n" for n by (simp add: preds_def assms(3))
  have "ctx_wf c" using f(1) assms by (simp add: graph_ok_def ctx_wf_def)
  with f(1) have g: "graph_ok ((graph st)\<lparr>ctx := c\<rparr>)" by (rule graph_ok_ctx) (simp_all add: assms p)
  moreover have "lanes_ok ((graph st)\<lparr>ctx := c\<rparr>) (audioLanes st)"
  proof -
    have "lane_ok c = lane_ok (ctx (graph st))" by (simp add: lane_ok_def fun_eq_iff assms p)
    with f(2) show ?thesis by (simp add: lanes_ok_def lane_at_def)
  qed
  ultimately show "content_ok (st\<lparr>graph := (graph st)\<lparr>ctx := c\<rparr>\<rparr>)"
    using assms(1) by (simp add: content_ok_def parts_ok_def panel_ok_def slugs_def)
  show "levels_ok (st\<lparr>graph := (graph st)\<lparr>ctx := c\<rparr>\<rparr>)" if "levels_ok st"
    by (rule levels_ok_cong [OF that]) (simp_all add: gain_value_def assms)
qed

lemma clock_keeps:
  "content_ok st \<Longrightarrow> content_ok (resumeAudio st)" "content_ok st \<Longrightarrow> content_ok (audio_clock now st)"
  "content_ok st \<Longrightarrow> levels_ok st \<Longrightarrow> levels_ok (resumeAudio st)"
  "content_ok st \<Longrightarrow> levels_ok st \<Longrightarrow> levels_ok (audio_clock now st)"
  using same_routing by (auto simp: resumeAudio_def audio_clock_def)

lemma panel_tracks: "content_ok st \<Longrightarrow> slug ` set (p_tracks (mixer st)) = slugs st"
  by (simp add: content_ok_def panel_ok_def slugs_def)

lemma panel_handler_ok: "content_ok st \<Longrightarrow> shown_input (mixer st) u \<Longrightarrow> content_ok (panel_handler u st)"
  by (cases u) (auto simp: handleSliderInput_def handleBroadcastInput_def handleOffsetInput_def icon_click_def
      panel_tracks intro: onChange_ok onMuteToggle_ok onSoloToggle_ok onBroadcastChange_ok onOffsetChange_ok onReset_ok)

lemma panel_handler_levels:
  "content_ok st \<Longrightarrow> levels_ok st \<Longrightarrow> shown_input (mixer st) u \<Longrightarrow> levels_ok (panel_handler u st)"
  by (cases u) (auto simp: handleSliderInput_def handleBroadcastInput_def handleOffsetInput_def icon_click_def
      panel_tracks intro: onChange_levels onMuteToggle_levels onSoloToggle_levels onBroadcastChange_levels
      onOffsetChange_levels onReset_levels)

lemma callback_ok: "content_ok st \<Longrightarrow> content_ok (callback e st)"
  by (cases e) (auto intro: onTrackList_ok onAudio_ok)

text \<open>The only valid slug that is also a property every object inherits.\<close>

fun plain_event :: "relay_event \<Rightarrow> bool" where
  "plain_event (OnTrackList ts) \<longleftrightarrow> list_all plain_track ts"
| "plain_event _ \<longleftrightarrow> True"

lemma callback_levels: "content_ok st \<Longrightarrow> levels_ok st \<Longrightarrow> plain_event e \<Longrightarrow> levels_ok (callback e st)"
  by (cases e) (auto intro: onTrackList_levels onAudio_levels)

lemma callbacks_ok: "content_ok st \<Longrightarrow> content_ok (fold callback es st)"
  by (induction es arbitrary: st) (auto intro: callback_ok)

lemma callbacks_levels:
  "content_ok st \<Longrightarrow> levels_ok st \<Longrightarrow> list_all plain_event es \<Longrightarrow> levels_ok (fold callback es st)"
  by (induction es arbitrary: st) (auto intro: callback_ok callback_levels)

subsection \<open>Invariants of a session\<close>

definition session_inv :: "Session \<Rightarrow> bool" where
  "session_inv s \<longleftrightarrow> relay_inv (relay s) \<and> list_all event_ok (emitted (relay s)) \<and> content_ok (content s)"

lemma session_inv_step:
  assumes "session_inv s" "session_step ch s ev s'"
  shows "session_inv s'"
  using assms(2,1)
  by cases (auto simp: session_inv_def intro: relay_inv_step emitted_ok_step callbacks_ok panel_handler_ok
      onDecoded_ok onCodecError_ok onSourceEnded_ok clock_keeps)

interpretation session: kept "session_step ch" session_inv for ch
  by unfold_locales (rule session_inv_step)

lemma mounted_inv: "session_inv (mounted gp sp codecs a)"
proof -
  have "tracks built = Map.empty" by (simp add: built_def)
  moreover have "emitted connect = []" by (simp add: connect_def open_ws_def)
  ultimately show ?thesis by (simp add: mounted_def session_inv_def relay_inv_connect init_ok built_ok)
qed

text \<open>Levels, as long as the relay has sent no track with the reserved slug.\<close>

definition heard_inv :: "Session \<Rightarrow> bool" where
  "heard_inv s \<longleftrightarrow> session_inv s \<and> (list_all plain_event (emitted (relay s)) \<longrightarrow> levels_ok (content s))"

lemma heard_inv_step:
  assumes "heard_inv s" "session_step ch s ev s'"
  shows "heard_inv s'"
proof -
  have i: "session_inv s" "session_inv s'" using assms session_inv_step by (auto simp: heard_inv_def)
  then have c: "content_ok (content s)" by (simp add: session_inv_def)
  have l: "list_all plain_event (emitted (relay s)) \<Longrightarrow> levels_ok (content s)"
    using assms(1) by (simp add: heard_inv_def)
  have "levels_ok (content s')" if p: "list_all plain_event (emitted (relay s'))"
    using assms(2)
  proof cases
    case (net ev r)
    then have "emitted (relay s') = emitted (relay s) @ delivered (relay s) r" using emitted_grows by simp
    with p net l c show ?thesis by (simp add: callbacks_levels)
  qed (use p l c in \<open>auto intro: panel_handler_levels onDecoded_levels onCodecError_levels onSourceEnded_levels clock_keeps\<close>)
  with i show ?thesis by (simp add: heard_inv_def)
qed

interpretation heard: kept "session_step ch" heard_inv for ch
  by unfold_locales (rule heard_inv_step)

lemma mounted_heard:
  assumes "full_prefs gp" "full_prefs sp"
  shows "heard_inv (mounted gp sp codecs a)"
proof -
  have "tracks built = Map.empty" by (simp add: built_def)
  with assms show ?thesis using mounted_inv by (simp add: heard_inv_def) (simp add: mounted_def init_levels)
qed

subsection \<open>The index of the tracks\<close>

definition index_of :: "TrackInfo list \<Rightarrow> jsnum \<rightharpoonup> jsstring" where
  "index_of ts = fold (\<lambda>t m. m(tid t \<mapsto> slug t)) ts Map.empty"

definition indexed :: "State \<Rightarrow> bool" where
  "indexed st \<longleftrightarrow> idToSlug st = index_of (trackList st) \<and> track_list_wf (trackList st)"

lemma fold_index: "distinct (map tid ts) \<Longrightarrow> t \<in> set ts \<Longrightarrow> fold (\<lambda>t m. m(tid t \<mapsto> slug t)) ts m (tid t) = Some (slug t)"
proof (induction ts arbitrary: m)
  case (Cons u ts)
  have keep: "k \<notin> tid ` set ts \<Longrightarrow> fold (\<lambda>t m. m(tid t \<mapsto> slug t)) ts m k = m k" for k m
    by (induction ts arbitrary: m) auto
  show ?case
  proof (cases "t = u")
    case True
    then show ?thesis using Cons.prems(1) keep [of "tid u"] by (simp add: fun_upd_same del: fun_upd_apply)
  qed (use Cons in \<open>auto simp del: fun_upd_apply\<close>)
qed simp

lemma indexed_lookup: "indexed st \<Longrightarrow> t \<in> set (trackList st) \<Longrightarrow> idToSlug st (tid t) = Some (slug t)"
  by (simp add: indexed_def index_of_def fold_index track_list_wf_def)

lemma indexed_cong: "indexed st \<Longrightarrow> idToSlug st' = idToSlug st \<Longrightarrow> trackList st' = trackList st \<Longrightarrow> indexed st'"
  by (simp add: indexed_def)

lemma panel_handler_index:
  "idToSlug (panel_handler u st) = idToSlug st" "trackList (panel_handler u st) = trackList st"
  by (cases u; simp add: handleSliderInput_def handleBroadcastInput_def handleOffsetInput_def icon_click_def onChange_def
      onMuteToggle_def onSoloToggle_def onBroadcastChange_def onOffsetChange_def onReset_def Let_def split: prod.split)+

lemma lane_handlers_index:
  "idToSlug (onDecoded sl d st) = idToSlug st" "trackList (onDecoded sl d st) = trackList st"
  "idToSlug (onSourceEnded sl src st) = idToSlug st" "trackList (onSourceEnded sl src st) = trackList st"
  "idToSlug (resumeAudio st) = idToSlug st" "trackList (resumeAudio st) = trackList st"
  "idToSlug (audio_clock now st) = idToSlug st" "trackList (audio_clock now st) = trackList st"
  "idToSlug (onAudio i f st) = idToSlug st" "trackList (onAudio i f st) = trackList st"
  "idToSlug (onCodecError sl st) = idToSlug st" "trackList (onCodecError sl st) = trackList st"
  by (auto simp: onDecoded_def onCodecError_def onSourceEnded_def resumeAudio_def audio_clock_def onAudio_def ensureLane_def Let_def
      split: option.split prod.split)

lemma onTrackList_index:
  assumes "content_ok st"
  shows "idToSlug (onTrackList ts st) = index_of ts" "trackList (onTrackList ts st) = ts"
proof -
  let ?i = "indexTracks ts st"
  have p: "parts_ok (slugs st) ?i" using assms by (auto simp: content_ok_def parts_ok_def indexTracks_def)
  note r = fold_remove_gone [OF p, of "trackList ?i" "slug ` set ts"]
  note a = fold_add_new [OF conjunct1 [OF r], of ts]
  from r a show "idToSlug (onTrackList ts st) = index_of ts"
    by (simp add: onTrackList_def applyTrackList_def Let_def) (simp add: indexTracks_def index_of_def)
  show "trackList (onTrackList ts st) = ts" by (simp add: onTrackList_def applyTrackList_def Let_def)
qed

lemma callback_indexed: "content_ok st \<Longrightarrow> indexed st \<Longrightarrow> event_ok e \<Longrightarrow> indexed (callback e st)"
  by (cases e) (auto simp: onTrackList_index indexed_def lane_handlers_index)

lemma callbacks_indexed:
  "content_ok st \<Longrightarrow> indexed st \<Longrightarrow> list_all event_ok es \<Longrightarrow> indexed (fold callback es st)"
  by (induction es arbitrary: st) (auto intro: callback_ok callback_indexed)

definition index_inv :: "Session \<Rightarrow> bool" where
  "index_inv s \<longleftrightarrow> session_inv s \<and> indexed (content s)"

lemma index_inv_step:
  assumes "index_inv s" "session_step ch s ev s'"
  shows "index_inv s'"
proof -
  have i: "session_inv s" "session_inv s'" "indexed (content s)"
    using assms session_inv_step by (auto simp: index_inv_def)
  have "indexed (content s')"
    using assms(2)
  proof cases
    case (net ev r)
    then have "list_all event_ok (delivered (relay s) r)"
      using emitted_grows [of "relay s" ev r] i(2) by (simp add: session_inv_def)
    with net i show ?thesis by (simp add: callbacks_indexed session_inv_def)
  qed (use i in \<open>auto intro: indexed_cong simp: panel_handler_index lane_handlers_index\<close>)
  with i show ?thesis by (simp add: index_inv_def)
qed

interpretation index: kept "session_step ch" index_inv for ch
  by unfold_locales (rule index_inv_step)

lemma mounted_index: "index_inv (mounted gp sp codecs a)"
  using mounted_inv [of gp sp codecs a]
  by (simp add: index_inv_def indexed_def)
    (simp add: mounted_def init_state_def Let_def index_of_def track_list_wf_def)

subsection \<open>Whether there is WebCodecs never changes\<close>

lemma codecs_folds:
  "webcodecs (fold (remove_gone inc) ts st) = webcodecs st" "webcodecs (fold add_new ts st) = webcodecs st"
proof -
  have "webcodecs (remove_gone inc t st) = webcodecs st" for t st
    by (simp add: remove_gone_def Let_def drop_lane_def split: option.split)
  then show "webcodecs (fold (remove_gone inc) ts st) = webcodecs st"
    by (induction ts arbitrary: st) simp_all
  show "webcodecs (fold add_new ts st) = webcodecs st"
    by (induction ts arbitrary: st) (simp_all add: add_new_fields)
qed

lemma codecs_callback: "webcodecs (callback e st) = webcodecs st"
  by (cases e) (auto simp: onTrackList_def applyTrackList_def indexTracks_def Let_def codecs_folds onAudio_def
      ensureLane_def split: option.split)

lemma codecs_callbacks: "webcodecs (fold callback es st) = webcodecs st"
  by (induction es arbitrary: st) (simp_all add: codecs_callback)

lemma codecs_panel: "webcodecs (panel_handler u st) = webcodecs st"
  by (cases u; simp add: handleSliderInput_def handleBroadcastInput_def handleOffsetInput_def icon_click_def onChange_def
      onMuteToggle_def onSoloToggle_def onBroadcastChange_def onOffsetChange_def onReset_def Let_def split: prod.split)

lemma codecs_lanes:
  "webcodecs (onDecoded sl d st) = webcodecs st" "webcodecs (onSourceEnded sl src st) = webcodecs st"
  "webcodecs (resumeAudio st) = webcodecs st" "webcodecs (audio_clock now st) = webcodecs st"
  "webcodecs (onCodecError sl st) = webcodecs st"
  by (simp_all add: onDecoded_def onCodecError_def onSourceEnded_def resumeAudio_def audio_clock_def split: option.split prod.split)

interpretation codecs: kept "session_step ch" "\<lambda>s. webcodecs (content s) = w" for ch w
  by unfold_locales (auto elim!: session_stepE simp: codecs_callbacks codecs_panel codecs_lanes)

subsection \<open>A message arrives\<close>

definition receive :: "bytes \<Rightarrow> Session \<Rightarrow> Session" where
  "receive b s = s\<lparr>relay := ws_onmessage (Some b) (relay s), content := fold callback (handleMessage b) (content s)\<rparr>"

definition socket_open :: "Session \<Rightarrow> nat \<Rightarrow> bool" where
  "socket_open s i \<longleftrightarrow> i < length (sockets (relay s)) \<and> sockets (relay s) ! i = Open"

lemma receive_step: "socket_open s i \<Longrightarrow> session_step ch s (Net (SockMessage i (Some b))) (receive b s)"
proof -
  assume "socket_open s i"
  then have "relay_step (relay s) (SockMessage i (Some b)) (ws_onmessage (Some b) (relay s))"
    by (intro relay_step.message) (simp_all add: socket_open_def)
  from session_step.net [OF this, of ch] show ?thesis by (simp add: receive_def delivered_def ws_onmessage_def)
qed

lemma receive_open: "socket_open (receive b s) i = socket_open s i"
  by (simp add: socket_open_def receive_def ws_onmessage_def)

text \<open>The session after its socket has opened.\<close>

definition opened :: "Session \<Rightarrow> Session" where
  "opened s = s\<lparr>relay := ws_onopen 0 (relay s)\<rparr>"

lemma opened_step:
  assumes "relay s = connect"
  shows "session_step ch s (Net (SockOpen 0)) (opened s)" "socket_open (opened s) 0"
proof -
  have "relay_step connect (SockOpen 0) (ws_onopen 0 connect)"
    by (rule relay_step.opened) (simp_all add: connect_def open_ws_def)
  from session_step.net [of s, unfolded assms, OF this, of ch] assms
  show "session_step ch s (Net (SockOpen 0)) (opened s)"
    by (simp add: opened_def delivered_def ws_onopen_def connect_def open_ws_def)
  show "socket_open (opened s) 0" using assms by (simp add: socket_open_def opened_def ws_onopen_def connect_def open_ws_def)
qed

lemma connected_run: "session_run ch (mounted gp sp codecs a) (opened (mounted gp sp codecs a))"
  "socket_open (opened (mounted gp sp codecs a)) 0"
  by (rule run_single, rule opened_step, simp add: mounted_def) (rule opened_step, simp add: mounted_def)

subsection \<open>Properties\<close>

text \<open>
  C3: in every state that any interleaving of network events, user input, decoded audio and the
  clock can reach, the graph, the settings, the levels, the mutes and (with WebCodecs) the audio
  lanes are there for exactly the tracks of the panel, the graph has its routing, each lane plays
  into its own track, and the panel was last told exactly the current values.
\<close>

theorem session_invariant:
  assumes "session_run ch (mounted gp sp codecs a) s"
  shows "parts_ok (slug ` set (p_tracks (mixer (content s)))) (content s) \<and> panel_ok (content s)"
  using session.run_inv [OF assms mounted_inv] panel_tracks [of "content s"]
  by (simp add: session_inv_def content_ok_def)

text \<open>
  C1: what is heard is what is shown. In every reachable state the level of every track of the
  panel in the audio graph is 0 when the panel shows it muted and its gain otherwise (clamped and
  rounded to single precision). It holds for preferences with a gain and a mute flag, which is
  what the extension saves, unless the relay announced a track called \<^verbatim>\<open>constructor\<close>.
\<close>

theorem heard_is_shown:
  assumes "full_prefs gp" "full_prefs sp" "session_run ch (mounted gp sp codecs a) s"
    and "list_all plain_event (emitted (relay s))" "t \<in> set (p_tracks (mixer (content s)))"
  shows "track_level (graph (content s)) (slug t)
    = f32 (clamp01 (shown_level (p_gains (mixer (content s))) (p_muted (mixer (content s))) (slug t)))"
proof -
  have i: "content_ok (content s)" "levels_ok (content s)"
    using heard.run_inv [OF assms(3) mounted_heard [OF assms(1,2)]] assms(4) by (simp_all add: heard_inv_def session_inv_def)
  then have "slug t \<in> dom (tracks (graph (content s)))"
    using assms(5) panel_tracks [OF i(1)] content_facts(3) [OF i(1)] by auto
  with i show ?thesis by (simp add: levels_ok_def levels_of_def content_ok_def panel_ok_def)
qed

text \<open>
  C6: from the publisher to the panel. When the socket of a running session delivers a frame with
  an encoded track list, the session takes that step, the panel has a row for exactly these tracks in
  this order, and the graph has a track for exactly their slugs.
\<close>

theorem announced_tracks_appear:
  assumes "session_run ch (mounted gp sp codecs a) s" "socket_open s i"
    and "track_list_wf ts" "encodeTrackList ts = Inr p"
    and "frame_wf f" "ftype f = mt MessageType.TrackList" "payload f = p" "encodeFrame f = Inr b"
  shows "session_step ch s (Net (SockMessage i (Some b))) (receive b s)
    \<and> map row_id (rows (render (mixer (content (receive b s))) False)) = map tid ts
    \<and> dom (tracks (graph (content (receive b s)))) = slug ` set ts"
proof -
  have st: "session_step ch s (Net (SockMessage i (Some b))) (receive b s)" by (rule receive_step [OF assms(2)])
  have c: "content_ok (content s)" "content_ok (content (receive b s))"
    using session.run_reaches [OF mounted_inv assms(1) st] by (simp_all add: session_inv_def)
  have "handleMessage b = [OnTrackList ts]"
    using handle_encoded [OF assms(5,8)] track_list_codec.enc_dec [OF assms(3,4)] assms(6,7) by simp
  then have "trackList (content (receive b s)) = ts"
    using onTrackList_index(2) [OF c(1)] by (simp add: receive_def)
  with c(2) st show ?thesis
    by (simp add: content_ok_def panel_ok_def parts_ok_def slugs_def render_def row_def Let_def comp_def)
qed


subsection \<open>A session that can happen\<close>

definition sample_start :: Session where
  "sample_start = mounted Map.empty Map.empty True (Some Map.empty)"

definition control_frame :: "MessageType \<Rightarrow> nat \<Rightarrow> bytes \<Rightarrow> Frame" where
  "control_frame ty sq p =
     \<lparr>ftype = mt ty, track = nnum 0, flags = nnum 0, seq = nnum sq, timestampMs = 0, payload = p\<rparr>"

lemma control_frame_wf: "length p \<le> MAX_PAYLOAD_BYTES \<Longrightarrow> frame_wf (control_frame MessageType.TrackList 1 p)"
  unfolding frame_wf_def control_frame_def
  by (intro conjI exI [of _ "MessageType_value MessageType.TrackList"] exI [of _ 0] exI [of _ 0] exI [of _ 1])
    (simp_all add: KNOWN_TYPES_def)

lemma sample_bytes:
  obtains p b where "encodeTrackList sample_tracks = Inr p"
    "encodeFrame (control_frame MessageType.TrackList 1 p) = Inr b"
    "frame_wf (control_frame MessageType.TrackList 1 p)"
proof -
  obtain p where p: "encodeTrackList sample_tracks = Inr p"
    using encodeTrackList_total [OF sample_tracks_wf sample_tracks_plain] by blast
  then have "length p \<le> MAX_PAYLOAD_BYTES"
    by (auto simp: encodeTrackList_def encodeJson_def Let_def throw_def MAX_JSON_BYTES_def MAX_PAYLOAD_BYTES_def split: if_splits)
  from encode_wf [OF control_frame_wf [OF this]] that [OF p _ control_frame_wf [OF this]] show thesis by blast
qed

lemma sample_plain: "list_all plain_track sample_tracks"
  using sample_tracks_wf by (simp add: track_list_wf_def list_all_iff plain_track_def) (simp add: sample_tracks_def)

lemma sample_received:
  assumes "encodeTrackList sample_tracks = Inr p" "encodeFrame (control_frame MessageType.TrackList 1 p) = Inr b"
    and "frame_wf (control_frame MessageType.TrackList 1 p)"
  shows "session_run ch sample_start (receive b (opened sample_start))"
    "p_tracks (mixer (content (receive b (opened sample_start)))) = sample_tracks"
    "emitted (relay (receive b (opened sample_start))) = [OnConnect, OnTrackList sample_tracks]"
proof -
  have h: "handleMessage b = [OnTrackList sample_tracks]"
    using handle_encoded [OF assms(3,2)] track_list_codec.enc_dec [OF sample_tracks_wf assms(1)]
    by (simp add: control_frame_def)
  show "session_run ch sample_start (receive b (opened sample_start))"
    unfolding sample_start_def by (rule run_step [OF connected_run(1) receive_step [OF connected_run(2)]])
  show "p_tracks (mixer (content (receive b (opened sample_start)))) = sample_tracks"
    by (simp add: receive_def h onTrackList_def applyTrackList_def Let_def)
  show "emitted (relay (receive b (opened sample_start))) = [OnConnect, OnTrackList sample_tracks]"
    by (simp add: receive_def h opened_def sample_start_def mounted_def ws_onmessage_def ws_onopen_def connect_def open_ws_def)
qed

theorem session_invariant_witness:
  "\<exists>s. session_run (js ''twitch:a'') sample_start s \<and> p_tracks (mixer (content s)) = sample_tracks
     \<and> parts_ok (slug ` set sample_tracks) (content s)"
proof -
  obtain p b where e: "encodeTrackList sample_tracks = Inr p"
    "encodeFrame (control_frame MessageType.TrackList 1 p) = Inr b"
    "frame_wf (control_frame MessageType.TrackList 1 p)" by (rule sample_bytes)
  note r = sample_received [OF e]
  from session_invariant [OF r(1) [unfolded sample_start_def]] r(1,2) show ?thesis
    by (metis sample_start_def)
qed

theorem heard_is_shown_witness:
  "\<exists>s. session_run (js ''twitch:a'') sample_start s
     \<and> (\<forall>t \<in> set sample_tracks. track_level (graph (content s)) (slug t)
          = f32 (clamp01 (shown_level (p_gains (mixer (content s))) (p_muted (mixer (content s))) (slug t))))"
proof -
  obtain p b where e: "encodeTrackList sample_tracks = Inr p"
    "encodeFrame (control_frame MessageType.TrackList 1 p) = Inr b"
    "frame_wf (control_frame MessageType.TrackList 1 p)" by (rule sample_bytes)
  note r = sample_received [OF e]
  have "list_all plain_event (emitted (relay (receive b (opened sample_start))))"
    using sample_plain by (simp add: r(3))
  from heard_is_shown [OF full_prefs_empty full_prefs_empty r(1) [unfolded sample_start_def] this [unfolded sample_start_def]]
    r(1,2) show ?thesis by (metis sample_start_def)
qed

theorem announced_tracks_appear_witness:
  "\<exists>b. map row_id (rows (render (mixer (content (receive b (opened sample_start)))) False)) = [nnum 1, nnum 2]"
proof -
  obtain p b where e: "encodeTrackList sample_tracks = Inr p"
    "encodeFrame (control_frame MessageType.TrackList 1 p) = Inr b"
    "frame_wf (control_frame MessageType.TrackList 1 p)" by (rule sample_bytes)
  have "map row_id (rows (render (mixer (content (receive b (opened sample_start)))) False)) = map tid sample_tracks"
    using announced_tracks_appear [OF connected_run sample_tracks_wf e(1,3) _ _ e(2)]
    by (simp add: control_frame_def sample_start_def)
  then show ?thesis by (intro exI [of _ b]) (simp add: sample_tracks_def)
qed

definition mic_packet :: Frame where
  "mic_packet = \<lparr>ftype = mt AudioOpus, track = nnum 1, flags = nnum 0, seq = nnum 7, timestampMs = 0, payload = [1, 2]\<rparr>"


end
