(* ===== verification/Restore.thy ===== *)
theory Restore
  imports Session
begin

text \<open>
  The end of a session and the beginning of the next: what \<^verbatim>\<open>Save for this streamer\<close> stores is what
  the panel shows after a reload, and after \<^verbatim>\<open>destroy()\<close> nothing of the mixer is left running.
\<close>

subsection \<open>The settings hold the levels shown\<close>

definition gains_match :: "jsstring set \<Rightarrow> jsnum option dict \<Rightarrow> (jsstring \<rightharpoonup> ChannelSetting) \<Rightarrow> bool" where
  "gains_match S gs se \<longleftrightarrow> (\<forall>s\<in>S. \<exists>x. se s = Some x \<and> gs s = Some (gain x))"

lemma gains_match_upd:
  "gains_match S gs se \<Longrightarrow> gains_match (insert s S) (gs(s \<mapsto> gain x)) (se(s \<mapsto> x))"
  by (auto simp: gains_match_def)

lemma reset_loop_match:
  "gains_match S ng se \<Longrightarrow> reset_loop gl ts (ng, nm, se, g) = (ng', nm', se', g') \<Longrightarrow>
     gains_match (S \<union> slug ` set ts) ng' se'"
proof (induction ts arbitrary: S ng nm se g)
  case (Cons t ts)
  from Cons.IH [OF gains_match_upd [OF Cons.prems(1)] Cons.prems(2) [unfolded reset_loop.simps Let_def]]
  show ?case by simp
qed simp

lemma panel_match:
  assumes "content_ok st" "shown_input (mixer st) u" "gains_match (slugs st) (gains st) (settings st)"
  shows "gains_match (slugs st) (gains (panel_handler u st)) (settings (panel_handler u st))"
proof (cases u)
  case (Slider s tx)
  let ?v = "num_over (Number tx) 100"
  have s: "s \<in> slugs st" using assms(1,2) Slider by (simp add: panel_tracks)
  with assms(3) obtain x where x: "settings st s = Some x" by (auto simp: gains_match_def)
  from gains_match_upd [OF assms(3), of s "x\<lparr>gain := Some ?v\<rparr>"] s x Slider show ?thesis
    by (simp add: handleSliderInput_def onChange_def Let_def insert_absorb)
next
  case (Icon sh s)
  have s: "s \<in> slugs st" using assms(1,2) Icon by (simp add: panel_tracks)
  with assms(3) obtain x where x: "settings st s = Some x" "gains st s = Some (gain x)" by (auto simp: gains_match_def)
  then show ?thesis using assms(3) Icon
    by (auto simp: icon_click_def onMuteToggle_def onSoloToggle_def Let_def gains_match_def split: prod.split)
next
  case Reset
  obtain ng nm se g where
    e: "reset_loop (globalPrefs st) (trackList st) (Map.empty, Map.empty, settings st, graph st) = (ng, nm, se, g)"
    by (metis prod_cases4)
  have "gains_match {} Map.empty (settings st)" by (simp add: gains_match_def)
  from reset_loop_match [OF this e] Reset e show ?thesis by (simp add: onReset_def slugs_def)
qed (use assms(3) in \<open>simp_all add: handleBroadcastInput_def handleOffsetInput_def onBroadcastChange_def onOffsetChange_def\<close>)

lemma remove_gone_match:
  "gains_match S (gains st) (settings st) \<Longrightarrow>
     gains_match (if slug t \<in> inc then S else S - {slug t}) (gains (remove_gone inc t st)) (settings (remove_gone inc t st))"
  by (auto simp: gains_match_def remove_gone_def Let_def drop_lane_def split: option.split)

lemma add_new_match:
  assumes "gains_match S (gains st) (settings st)" "dom (settings st) = S"
  shows "gains_match (insert (slug t) S) (gains (add_new t st)) (settings (add_new t st))"
    "dom (settings (add_new t st)) = insert (slug t) S"
proof -
  let ?e = "effectiveSetting (slug t) (category t) (streamerPrefs st) (globalPrefs st)"
  show "gains_match (insert (slug t) S) (gains (add_new t st)) (settings (add_new t st))"
  proof (cases "settings st (slug t)")
    case None
    then show ?thesis using gains_match_upd [OF assms(1), of "slug t" ?e]
      by (simp add: add_new_def Let_def ensureLane_keeps)
  next
    case (Some x)
    then have "insert (slug t) S = S" using assms(2) by auto
    with Some assms(1) show ?thesis by (simp add: add_new_def)
  qed
  show "dom (settings (add_new t st)) = insert (slug t) S"
    using assms(2) by (auto simp: add_new_def Let_def ensureLane_keeps split: if_splits)
qed

lemma fold_remove_match:
  "gains_match S (gains st) (settings st) \<Longrightarrow>
     gains_match (S - {s \<in> slug ` set ts. s \<notin> inc}) (gains (fold (remove_gone inc) ts st))
       (settings (fold (remove_gone inc) ts st))"
proof (induction ts arbitrary: S st)
  case (Cons t ts)
  have "(if slug t \<in> inc then S else S - {slug t}) - {s \<in> slug ` set ts. s \<notin> inc}
      = S - {s \<in> slug ` set (t # ts). s \<notin> inc}" by auto
  with Cons.IH [OF remove_gone_match [OF Cons.prems, of t inc]] show ?case by simp
qed simp

lemma fold_add_match:
  "gains_match S (gains st) (settings st) \<Longrightarrow> dom (settings st) = S \<Longrightarrow>
     gains_match (S \<union> slug ` set ts) (gains (fold add_new ts st)) (settings (fold add_new ts st))"
proof (induction ts arbitrary: S st)
  case (Cons t ts)
  from Cons.IH [OF add_new_match [OF Cons.prems]] show ?case by simp
qed simp

lemma onTrackList_match:
  assumes "content_ok st" "gains_match (slugs st) (gains st) (settings st)"
  shows "gains_match (slug ` set ts) (gains (onTrackList ts st)) (settings (onTrackList ts st))"
proof -
  let ?i = "indexTracks ts st" and ?inc = "slug ` set ts"
  have p: "parts_ok (slugs st) ?i" using assms by (auto simp: content_ok_def parts_ok_def indexTracks_def)
  have m: "gains_match (slugs st) (gains ?i) (settings ?i)" using assms(2) by (simp add: indexTracks_def)
  let ?S = "slugs st - {s \<in> slug ` set (trackList st). s \<notin> ?inc}"
  have "dom (settings (fold (remove_gone ?inc) (trackList st) ?i)) = ?S"
    using fold_remove_gone [OF p, of "trackList st" ?inc] by (simp add: parts_ok_def)
  from fold_add_match [OF fold_remove_match [OF m] this, of ts]
  have "gains_match (?S \<union> ?inc) (gains (onTrackList ts st)) (settings (onTrackList ts st))"
    by (simp add: onTrackList_def applyTrackList_def Let_def) (simp add: indexTracks_def)
  moreover have "?S \<union> ?inc = ?inc" by (auto simp: slugs_def)
  ultimately show ?thesis by simp
qed

definition match_inv :: "Session \<Rightarrow> bool" where
  "match_inv s \<longleftrightarrow> session_inv s \<and> gains_match (slugs (content s)) (gains (content s)) (settings (content s))"

lemma lane_handlers_keep:
  "gains (onDecoded sl d st) = gains st" "settings (onDecoded sl d st) = settings st"
  "gains (onSourceEnded sl src st) = gains st" "settings (onSourceEnded sl src st) = settings st"
  "gains (resumeAudio st) = gains st" "settings (resumeAudio st) = settings st"
  "gains (audio_clock now st) = gains st" "settings (audio_clock now st) = settings st"
  "gains (onAudio i f st) = gains st" "settings (onAudio i f st) = settings st"
  "gains (onCodecError sl st) = gains st" "settings (onCodecError sl st) = settings st"
  by (auto simp: onDecoded_def onCodecError_def onSourceEnded_def resumeAudio_def audio_clock_def onAudio_def ensureLane_def Let_def
      split: option.split prod.split)

lemma callback_match:
  "content_ok st \<Longrightarrow> gains_match (slugs st) (gains st) (settings st) \<Longrightarrow>
     gains_match (slugs (callback e st)) (gains (callback e st)) (settings (callback e st))"
  by (cases e) (auto simp: slugs_def onTrackList_index lane_handlers_index lane_handlers_keep
      intro: onTrackList_match [unfolded slugs_def])

lemma callbacks_match:
  "content_ok st \<Longrightarrow> gains_match (slugs st) (gains st) (settings st) \<Longrightarrow>
     gains_match (slugs (fold callback es st)) (gains (fold callback es st)) (settings (fold callback es st))"
  by (induction es arbitrary: st) (auto intro: callback_ok callback_match)

lemma match_inv_step:
  assumes "match_inv s" "session_step ch s ev s'"
  shows "match_inv s'"
proof -
  have i: "session_inv s" "session_inv s'" "gains_match (slugs (content s)) (gains (content s)) (settings (content s))"
    using assms session_inv_step by (auto simp: match_inv_def)
  have "gains_match (slugs (content s')) (gains (content s')) (settings (content s'))"
    using assms(2)
  proof cases
    case (user u)
    with i panel_match [of "content s" u] show ?thesis
      by (simp add: session_inv_def slugs_def panel_handler_index)
  qed (use i in \<open>auto simp: session_inv_def slugs_def lane_handlers_index lane_handlers_keep
      intro: callbacks_match [unfolded slugs_def]\<close>)
  with i show ?thesis by (simp add: match_inv_def)
qed

interpretation levels_match: kept "session_step ch" match_inv for ch
  by unfold_locales (rule match_inv_step)

lemma mounted_match: "match_inv (mounted gp sp codecs a)"
  using mounted_inv [of gp sp codecs a]
  by (simp add: match_inv_def) (simp add: mounted_def init_state_def Let_def slugs_def gains_match_def)

subsection \<open>A fresh session with saved preferences\<close>

definition restored :: "jsstring set \<Rightarrow> prefs \<Rightarrow> State \<Rightarrow> bool" where
  "restored S sp st \<longleftrightarrow>
     streamerPrefs st = sp \<and> dom (settings st) = S
     \<and> (\<forall>k\<in>S. \<exists>x. sp k = Some x \<and> settings st k = Some x \<and> gains st k = Some (gain x) \<and> mutes st k = Some (muted x))"

lemma effective_saved: "sp s = Some x \<Longrightarrow> effectiveSetting s c sp gp = x"
  by (simp add: effectiveSetting_def js_lookup_def truthy_setting_def)

lemma add_new_restored:
  assumes "restored S sp st" "sp (slug t) = Some x"
  shows "restored (insert (slug t) S) sp (add_new t st)"
proof (cases "settings st (slug t)")
  case None
  with assms show ?thesis
    by (auto simp: restored_def add_new_def Let_def ensureLane_keeps effective_saved)
next
  case (Some y)
  with assms have "insert (slug t) S = S" by (auto simp: restored_def)
  with Some assms show ?thesis by (simp add: add_new_def)
qed

lemma fold_add_restored:
  "restored S sp st \<Longrightarrow> slug ` set ts \<subseteq> dom sp \<Longrightarrow> restored (S \<union> slug ` set ts) sp (fold add_new ts st)"
proof (induction ts arbitrary: S st)
  case (Cons t ts)
  then obtain x where "sp (slug t) = Some x" by auto
  from Cons.IH [OF add_new_restored [OF Cons.prems(1) this]] Cons.prems(2) show ?case by simp
qed simp

lemma fresh_restored:
  assumes "slug ` set ts \<subseteq> dom sp"
  shows "restored (slug ` set ts) sp (onTrackList ts (content (mounted gp sp codecs a)))"
proof -
  have "restored {} sp (indexTracks ts (content (mounted gp sp codecs a)))"
    "trackList (indexTracks ts (content (mounted gp sp codecs a))) = []"
    by (simp_all add: restored_def mounted_def init_state_def indexTracks_def Let_def)
  with fold_add_restored [OF _ assms, of "{}"] show ?thesis
    by (simp add: onTrackList_def applyTrackList_def Let_def restored_def)
qed

subsection \<open>Taking everything down\<close>

text \<open>A source that has been stopped and plays into nothing.\<close>

definition dead :: "AudioContext \<Rightarrow> nat \<Rightarrow> bool" where
  "dead c n \<longleftrightarrow> (\<exists>b t. nodes c n = Some (BufferSource b t True)) \<and> (\<forall>m. n \<notin> preds c m)"

lemma drop_lane_dead:
  assumes "graph_ok (graph st)" "lanes_ok (graph st) (audioLanes st)"
  shows "audioLanes st s = Some lane \<Longrightarrow> n \<in> live lane \<Longrightarrow> dead (ctx (graph (drop_lane s st))) n"
    "dead (ctx (graph st)) n \<Longrightarrow> dead (ctx (graph (drop_lane s st))) n"
proof -
  have a: "lane_at (graph st) s lane" if "audioLanes st s = Some lane" for lane
    using assms(2) that by (simp add: lanes_ok_def)
  show "dead (ctx (graph (drop_lane s st))) n" if l: "audioLanes st s = Some lane" and n: "n \<in> live lane"
  proof -
    obtain b t where "nodes (ctx (graph st)) n = Some (BufferSource b t False)" using live_buffer [OF a [OF l] n] by blast
    moreover have "distinct (liveSources (scheduler lane))" using a [OF l] by (simp add: lane_at_def lane_ok_def)
    ultimately show ?thesis
      using n close_stopped [of "liveSources (scheduler lane)" n "ctx (graph st)" b t False]
      by (simp add: dead_def drop_lane_def l close_lane_def close_preds)
  qed
  show "dead (ctx (graph (drop_lane s st))) n" if d: "dead (ctx (graph st)) n"
  proof (cases "audioLanes st s")
    case (Some lane)
    have "n \<notin> live lane" using d live_buffer [OF a [OF Some], of n] by (auto simp: dead_def)
    then show ?thesis
      using d by (simp add: dead_def drop_lane_def Some close_lane_def close_preds close_nodes)
  qed (simp add: drop_lane_def d)
qed

lemma drop_lanes_dead:
  assumes "graph_ok (graph st)" "lanes_ok (graph st) (audioLanes st)"
    and "s \<in> set ss \<and> audioLanes st s = Some lane \<and> n \<in> live lane \<or> dead (ctx (graph st)) n"
  shows "dead (ctx (graph (fold drop_lane ss st))) n"
  using assms
proof (induction ss arbitrary: st)
  case (Cons r ss)
  note f = drop_lane_fields [OF Cons.prems(1,2), of r]
  have "s \<in> set ss \<and> audioLanes (drop_lane r st) s = Some lane \<and> n \<in> live lane \<or> dead (ctx (graph (drop_lane r st))) n"
    using Cons.prems(3) drop_lane_dead [OF Cons.prems(1,2)] by (auto simp: f(4))
  from Cons.IH [OF f(1,2) this] show ?case by simp
qed simp

lemma drop_lanes_retired:
  "s \<in> set ss \<and> audioLanes st s = Some lane \<or> close_decoder (decoder lane) \<in> set (retired st) \<Longrightarrow>
     close_decoder (decoder lane) \<in> set (retired (fold drop_lane ss st))"
proof (induction ss arbitrary: st)
  case (Cons r ss)
  then have "s \<in> set ss \<and> audioLanes (drop_lane r st) s = Some lane
      \<or> close_decoder (decoder lane) \<in> set (retired (drop_lane r st))"
    by (cases "r = s") (auto simp: drop_lane_def split: option.split)
  from Cons.IH [OF this] show ?case by simp
qed simp

lemma drop_lanes_source: "source (graph (fold drop_lane ss st)) = source (graph st)"
  by (induction ss arbitrary: st) (simp_all add: drop_lane_def split: option.split)

subsection \<open>Properties\<close>

text \<open>
  C10: saving and coming back. After \<^verbatim>\<open>Save for this streamer\<close> in any reachable state, a new session
  on the same channel that is told of tracks it knew shows each of them at the level the panel
  showed when it was saved, with the mute flag of its setting, whatever the global preferences are.
\<close>

theorem saved_levels_return:
  fixes codecs' :: bool
  assumes "session_run ch (mounted gp sp codecs a) s" "area s \<noteq> None"
    and "slug ` set ts \<subseteq> slug ` set (p_tracks (mixer (content s)))" "t \<in> set ts"
  defines "saved \<equiv> onSaveStreamer ch (content s) (area s)"
  defines "again \<equiv> onTrackList ts (content (mounted (loadGlobal saved) (loadStreamer saved ch) codecs' saved))"
  shows "p_gains (mixer again) (slug t) = p_gains (mixer (content s)) (slug t)
    \<and> p_muted (mixer again) (slug t) = map_option muted (settings (content s) (slug t))
    \<and> settings again (slug t) = settings (content s) (slug t)"
proof -
  have m: "match_inv s" by (rule levels_match.run_inv [OF assms(1) mounted_match])
  then have c: "content_ok (content s)" by (simp add: match_inv_def session_inv_def)
  have l: "loadStreamer saved ch = settings (content s)"
    using load_saveStreamer(1) [OF assms(2)] by (simp add: saved_def onSaveStreamer_def)
  have d: "slug ` set ts \<subseteq> dom (settings (content s))"
    using assms(3) panel_tracks [OF c] content_facts(4) [OF c] by simp
  have r: "restored (slug ` set ts) (settings (content s)) again"
    unfolding again_def l by (rule fresh_restored [OF d])
  moreover have "panel_ok again"
    using onTrackList_ok [of "content (mounted (loadGlobal saved) (loadStreamer saved ch) codecs' saved)" ts]
      mounted_inv [of "loadGlobal saved" "loadStreamer saved ch" codecs' saved]
    by (simp add: again_def session_inv_def content_ok_def)
  moreover have "slug t \<in> slugs (content s)" using assms(3,4) panel_tracks [OF c] by auto
  ultimately show ?thesis
    using m c assms(4) by (fastforce simp: restored_def match_inv_def gains_match_def panel_ok_def content_ok_def)
qed

theorem saved_levels_return_witness:
  "\<exists>s. session_run (js ''twitch:a'') sample_start s
     \<and> p_gains (mixer (onTrackList sample_tracks (content (mounted
          (loadGlobal (onSaveStreamer (js ''twitch:a'') (content s) (area s)))
          (loadStreamer (onSaveStreamer (js ''twitch:a'') (content s) (area s)) (js ''twitch:a'')) True
          (onSaveStreamer (js ''twitch:a'') (content s) (area s)))))) (js ''mic'')
       = p_gains (mixer (content s)) (js ''mic'')"
proof -
  obtain p b where e: "encodeTrackList sample_tracks = Inr p"
    "encodeFrame (control_frame MessageType.TrackList 1 p) = Inr b"
    "frame_wf (control_frame MessageType.TrackList 1 p)" by (rule sample_bytes)
  note r = sample_received [OF e]
  let ?t = "\<lparr>tid = nnum 1, slug = js ''mic'', category = js ''mic'', label = js ''Microphone''\<rparr>"
  have t: "?t \<in> set sample_tracks" by (simp add: sample_tracks_def)
  have "area (receive b (opened sample_start)) \<noteq> None"
    by (simp add: receive_def opened_def sample_start_def mounted_def)
  from saved_levels_return [OF r(1) [unfolded sample_start_def] this [unfolded sample_start_def] _ t, where codecs' = True] r(1,2)
  show ?thesis by (intro exI [of _ "receive b (opened sample_start)"]) (simp add: sample_start_def)
qed

text \<open>
  C14: taking a mixer down in any reachable state closes the relay client and the audio context,
  leaves no lane, closes every decoder, stops and disconnects every source that was playing,
  disconnects the video, and from then on the client delivers nothing to the page but the end of its connection.
\<close>

theorem destroyed_for_good:
  assumes "session_run ch (mounted gp sp codecs a) s" "set ss = dom (audioLanes (content s))"
    and "destroy_state ss (relay s, content s) = (r, st)"
  shows "audioLanes st = Map.empty \<and> cstate (ctx (graph st)) = Closed
    \<and> (\<forall>k lane n. audioLanes (content s) k = Some lane \<longrightarrow> n \<in> live lane \<longrightarrow> dead (ctx (graph st)) n)
    \<and> (\<forall>k lane. audioLanes (content s) k = Some lane \<longrightarrow>
         (\<exists>d\<in>set (retired st). submitted d = submitted (decoder lane) \<and> codec_closed d))
    \<and> (\<forall>m. source (graph (content s)) \<notin> preds (ctx (graph st)) m)
    \<and> (relay_run r r' \<longrightarrow> closed r' \<and> (\<exists>ds. emitted r' = emitted (relay s) @ map OnDisconnect ds))"
proof -
  have i: "relay_inv (relay s)" "graph_ok (graph (content s))" "lanes_ok (graph (content s)) (audioLanes (content s))"
    using session.run_inv [OF assms(1) mounted_inv] by (simp_all add: session_inv_def content_ok_def parts_ok_def)
  let ?f = "fold drop_lane ss (content s)"
  have e: "r = close_client (relay s)" "st = ?f\<lparr>audioLanes := Map.empty, graph := destroy (graph ?f)\<rparr>"
    using assms(3) by (simp_all add: destroy_state_def Let_def)
  have "dead (ctx (graph st)) n" if "audioLanes (content s) k = Some lane" "n \<in> live lane" for k lane n
  proof -
    have "k \<in> set ss" using assms(2) that(1) by auto
    with that have "dead (ctx (graph ?f)) n" using drop_lanes_dead [OF i(2,3)] by blast
    then show ?thesis by (simp add: e dead_def destroy_def)
  qed
  moreover have "closed r' \<and> (\<exists>ds. emitted r' = emitted (relay s) @ map OnDisconnect ds)" if "relay_run r r'"
    using silence.run_inv [OF that [unfolded e] close_silent [OF i(1)]] by (simp add: silent_def)
  moreover have "\<exists>d\<in>set (retired st). submitted d = submitted (decoder lane) \<and> codec_closed d"
    if "audioLanes (content s) k = Some lane" for k lane
  proof -
    have "k \<in> set ss" using assms(2) that by auto
    with that have "close_decoder (decoder lane) \<in> set (retired st)" using drop_lanes_retired by (simp add: e) blast
    then show ?thesis by (rule bexI [rotated]) (simp add: close_decoder_def)
  qed
  ultimately show ?thesis by (simp add: e destroy_def drop_lanes_source)
qed

theorem destroyed_for_good_witness:
  "audioLanes (snd (destroy_state [] (relay sample_start, content sample_start))) = Map.empty
   \<and> cstate (ctx (graph (snd (destroy_state [] (relay sample_start, content sample_start))))) = Closed"
proof -
  have "set [] = dom (audioLanes (content sample_start))"
    by (simp add: sample_start_def mounted_def init_state_def Let_def)
  from destroyed_for_good [OF run_refl this [unfolded sample_start_def] prod.collapse [symmetric]]
  show ?thesis by (simp add: sample_start_def)
qed

lemma solo_loop_keep: "k \<notin> slug ` set ts \<Longrightarrow> fst (solo_loop s gs ts (nm, g)) k = nm k"
  by (induction ts arbitrary: nm g) (auto simp: Let_def)

lemma solo_loop_each: "k \<in> slug ` set ts \<Longrightarrow> fst (solo_loop s gs ts (nm, g)) k = Some (Some (k \<noteq> s))"
proof (induction ts arbitrary: nm g)
  case (Cons v ts)
  show ?case
  proof (cases "k \<in> slug ` set ts")
    case True
    from Cons.IH [OF this] show ?thesis by (simp add: Let_def)
  qed (use Cons.prems in \<open>auto simp: Let_def solo_loop_keep\<close>)
qed simp

text \<open>
  C32: shift-click. Solo mutes exactly the other tracks and unmutes the chosen one on the panel, and
  it leaves the settings that are saved as they were; soloing the same track again changes nothing.
\<close>

theorem solo_mutes_the_others:
  assumes "t \<in> set (trackList st)"
  shows "p_muted (mixer (onSoloToggle s st)) (slug t) = Some (Some (slug t \<noteq> s))
    \<and> settings (onSoloToggle s st) = settings st
    \<and> p_muted (mixer (onSoloToggle s (onSoloToggle s st))) = p_muted (mixer (onSoloToggle s st))"
proof -
  have "fst (solo_loop s gs ts (Map.empty, g)) = fst (solo_loop s gs' ts (Map.empty, g'))" for gs gs' ts g g'
  proof
    fix k show "fst (solo_loop s gs ts (Map.empty, g)) k = fst (solo_loop s gs' ts (Map.empty, g')) k"
      by (cases "k \<in> slug ` set ts") (simp_all add: solo_loop_each solo_loop_keep)
  qed
  with solo_loop_each [OF imageI [OF assms]] show ?thesis by (simp add: onSoloToggle_def split_beta)
qed

theorem solo_mutes_the_others_witness:
  "p_muted (mixer (onSoloToggle (js ''mic'') (onTrackList sample_tracks (content sample_start)))) (js ''night-radio'')
     = Some (Some True)"
proof -
  let ?st = "onTrackList sample_tracks (content sample_start)"
  have "trackList ?st = sample_tracks" by (simp add: onTrackList_def applyTrackList_def Let_def)
  then have "\<lparr>tid = nnum 2, slug = js ''night-radio'', category = js ''custom'', label = js ''Night Radio''\<rparr> \<in> set (trackList ?st)"
    by (simp add: sample_tracks_def)
  from solo_mutes_the_others [OF this, of "js ''mic''"] show ?thesis by simp
qed

end
