(* ===== verification/Board.thy ===== *)
theory Board
  imports Restore
begin

text \<open>
  What the mixer promises its user, without graph, lanes, dictionaries or wire: a board of channels,
  each with a level and a mute switch, a level for the broadcast and a sync offset. The session
  refines it: every step of a session is a step of the board or none, and what is heard of a track
  is what its channel on the board says.
\<close>

record Board =
  lineup :: "TrackInfo list"
  channels :: "jsstring \<rightharpoonup> jsnum \<times> bool"
  residual :: jsnum
  sync :: jsnum

definition board_setting :: "prefs \<Rightarrow> prefs \<Rightarrow> TrackInfo \<Rightarrow> jsnum \<times> bool" where
  "board_setting sp gp t =
     (let x = precedence (slug t) (category t) sp gp in (the (gain x), the (muted x)))"

text \<open>
  The steps of the board. A new line-up keeps the channels that stay, drops those that go and gives
  each new one the setting of a track that brings it; a reset gives every channel the setting
  without the streamer's overrides.
\<close>

inductive board_step :: "prefs \<Rightarrow> prefs \<Rightarrow> Board \<Rightarrow> unit \<Rightarrow> Board \<Rightarrow> bool" for gp sp where
  level: "channels b s = Some (v, m) \<Longrightarrow> board_step gp sp b () (b\<lparr>channels := (channels b)(s \<mapsto> (v', m))\<rparr>)"
| mute: "channels b s = Some (v, m) \<Longrightarrow> board_step gp sp b () (b\<lparr>channels := (channels b)(s \<mapsto> (v, \<not> m))\<rparr>)"
| solo: "board_step gp sp b () (b\<lparr>channels := (\<lambda>r. map_option (\<lambda>x. (fst x, r \<noteq> s)) (channels b r))\<rparr>)"
| residual: "board_step gp sp b () (b\<lparr>residual := v\<rparr>)"
| sync: "board_step gp sp b () (b\<lparr>sync := v\<rparr>)"
| reset: "dom c = dom (channels b) \<Longrightarrow>
    (\<And>r. r \<in> dom c \<Longrightarrow> \<exists>t \<in> set (lineup b). slug t = r \<and> c r = Some (board_setting Map.empty gp t)) \<Longrightarrow>
    board_step gp sp b () (b\<lparr>channels := c\<rparr>)"
| tracks: "dom c = slug ` set ts \<Longrightarrow>
    (\<And>r. r \<in> dom c \<Longrightarrow> r \<in> dom (channels b) \<Longrightarrow> c r = channels b r) \<Longrightarrow>
    (\<And>r. r \<in> dom c \<Longrightarrow> r \<notin> dom (channels b) \<Longrightarrow> \<exists>t \<in> set ts. slug t = r \<and> c r = Some (board_setting sp gp t)) \<Longrightarrow>
    board_step gp sp b () (b\<lparr>lineup := ts, channels := c\<rparr>)"

definition channel_level :: "Board \<Rightarrow> jsstring \<Rightarrow> rat" where
  "channel_level b s =
     (case channels b s of
        None \<Rightarrow> 0
      | Some (v, m) \<Rightarrow> f32 (clamp01 (if m then nnum 0 else v)))"

subsection \<open>The board of a session\<close>

definition board_channels :: "jsnum option dict \<Rightarrow> bool option dict \<Rightarrow> jsstring \<rightharpoonup> jsnum \<times> bool" where
  "board_channels gs ms s = (case (gs s, ms s) of (Some (Some v), Some (Some m)) \<Rightarrow> Some (v, m) | _ \<Rightarrow> None)"

definition board :: "State \<Rightarrow> Board" where
  "board st = \<lparr>lineup = trackList st, channels = board_channels (gains st) (mutes st),
               residual = broadcast st, sync = offset st\<rparr>"

subsection \<open>The contract of a simulation\<close>

locale simulation = kept step inv
  for step :: "'s \<Rightarrow> 'e \<Rightarrow> 's \<Rightarrow> bool" and inv :: "'s \<Rightarrow> bool" +
  fixes astep :: "'a \<Rightarrow> 'f \<Rightarrow> 'a \<Rightarrow> bool"
    and abs :: "'s \<Rightarrow> 'a"
  assumes simulates: "inv st \<Longrightarrow> step st ev st' \<Longrightarrow> run astep (abs st) (abs st')"
begin

lemma run_simulates: "run step st st' \<Longrightarrow> inv st \<Longrightarrow> run astep (abs st) (abs st')"
proof (induction rule: run.induct)
  case (run_step st st' ev st'')
  with run_inv [OF run_step.hyps(1)] have "run astep (abs st') (abs st'')" by (auto intro: simulates)
  with run_step show ?case by (auto intro: run_trans)
qed (rule run_refl)

end

subsection \<open>The handlers on the board\<close>

lemma board_channels_own: "gs s = Some (Some v) \<Longrightarrow> ms s = Some (Some m) \<Longrightarrow> board_channels gs ms s = Some (v, m)"
  by (simp add: board_channels_def)

lemma board_facts:
  assumes "content_ok st" "levels_ok st"
  shows "dom (channels (board st)) = slugs st"
    "s \<in> slugs st \<Longrightarrow> \<exists>v m. gains st s = Some (Some v) \<and> mutes st s = Some (Some m) \<and> channels (board st) s = Some (v, m)"
    "s \<in> slugs st \<Longrightarrow> track_level (graph st) s = channel_level (board st) s"
proof -
  have l: "levels_of (graph st) (gains st) (mutes st) (slugs st)"
    using assms content_facts(3) by (simp add: levels_ok_def)
  have d: "dom (gains st) = slugs st" using assms(1) by (simp add: content_ok_def parts_ok_def)
  show o: "\<exists>v m. gains st s = Some (Some v) \<and> mutes st s = Some (Some m) \<and> channels (board st) s = Some (v, m)"
    if "s \<in> slugs st" for s
    using l that by (auto simp: levels_of_def board_def board_channels_def)
  show "dom (channels (board st)) = slugs st"
  proof
    show "dom (channels (board st)) \<subseteq> slugs st"
      using d by (auto simp: board_def board_channels_def split: option.splits)
    show "slugs st \<subseteq> dom (channels (board st))" using o by blast
  qed
  show "track_level (graph st) s = channel_level (board st) s" if s: "s \<in> slugs st"
  proof -
    obtain v m where "gains st s = Some (Some v)" "mutes st s = Some (Some m)" "channels (board st) s = Some (v, m)"
      using o [OF s] by blast
    with l s show ?thesis by (auto simp: levels_of_def channel_level_def shown_own)
  qed
qed

lemma onChange_board:
  assumes "content_ok st" "levels_ok st" "s \<in> slugs st"
  shows "board_step gp sp (board st) () (board (onChange s v st))"
proof -
  obtain w m where o: "mutes st s = Some (Some m)" "channels (board st) s = Some (w, m)"
    using board_facts(2) [OF assms] by blast
  have "board_channels ((gains st)(s \<mapsto> Some v)) (mutes st) = (board_channels (gains st) (mutes st))(s \<mapsto> (v, m))"
    using o(1) by (auto simp: board_channels_def)
  then have "board (onChange s v st) = (board st)\<lparr>channels := (channels (board st))(s \<mapsto> (v, m))\<rparr>"
    by (simp add: board_def onChange_def Let_def)
  with board_step.level [OF o(2), of gp sp v] show ?thesis by simp
qed

lemma onMuteToggle_board:
  assumes "content_ok st" "levels_ok st" "s \<in> slugs st"
  shows "board_step gp sp (board st) () (board (onMuteToggle s st))"
proof -
  obtain w m where o: "gains st s = Some (Some w)" "mutes st s = Some (Some m)" "channels (board st) s = Some (w, m)"
    using board_facts(2) [OF assms] by blast
  have m: "is_muted (mutes st) s = m" using o(2) by (simp add: is_muted_def js_lookup_def)
  have "board_channels (gains st) ((mutes st)(s \<mapsto> Some (\<not> m))) = (board_channels (gains st) (mutes st))(s \<mapsto> (w, \<not> m))"
    using o(1) by (auto simp: board_channels_def)
  then have "board (onMuteToggle s st) = (board st)\<lparr>channels := (channels (board st))(s \<mapsto> (w, \<not> m))\<rparr>"
    by (simp add: board_def onMuteToggle_def Let_def m)
  with board_step.mute [OF o(3), of gp sp] show ?thesis by simp
qed

lemma onSoloToggle_board:
  assumes "content_ok st" "levels_ok st"
  shows "board_step gp sp (board st) () (board (onSoloToggle s st))"
proof -
  let ?nm = "fst (solo_loop s (gains st) (trackList st) (Map.empty, graph st))"
  have "board_channels (gains st) ?nm = (\<lambda>r. map_option (\<lambda>x. (fst x, r \<noteq> s)) (channels (board st) r))"
  proof
    fix r
    show "board_channels (gains st) ?nm r = map_option (\<lambda>x. (fst x, r \<noteq> s)) (channels (board st) r)"
    proof (cases "r \<in> slugs st")
      case True
      then obtain v m where "gains st r = Some (Some v)" "channels (board st) r = Some (v, m)"
        using board_facts(2) [OF assms] by blast
      moreover have "?nm r = Some (Some (r \<noteq> s))" using True by (intro solo_loop_each) (simp add: slugs_def)
      ultimately show ?thesis by (simp add: board_channels_def)
    next
      case False
      then have "?nm r = None" by (simp add: slugs_def solo_loop_keep)
      moreover have "channels (board st) r = None" using False board_facts(1) [OF assms] by blast
      ultimately show ?thesis by (simp add: board_channels_def split: option.split)
    qed
  qed
  then have "board (onSoloToggle s st)
      = (board st)\<lparr>channels := (\<lambda>r. map_option (\<lambda>x. (fst x, r \<noteq> s)) (channels (board st) r))\<rparr>"
    by (simp add: board_def onSoloToggle_def split_beta)
  with board_step.solo [of gp sp "board st" s] show ?thesis by simp
qed

text \<open>A track's effective setting is the board's.\<close>

lemma effective_board:
  assumes "plain_track t" "full_prefs p" "full_prefs q"
  shows "(gain (effectiveSetting (slug t) (category t) p q), muted (effectiveSetting (slug t) (category t) p q))
    = (Some (fst (board_setting p q t)), Some (snd (board_setting p q t)))"
proof -
  let ?e = "effectiveSetting (slug t) (category t) p q"
  have "\<not> List.member OBJECT_PROTOTYPE (slug t)"
    using assms(1) inherited_slug [of "slug t"] by (simp add: plain_track_def track_wf_def)
  then have "?e = precedence (slug t) (category t) p q"
    using assms(1) by (intro effectiveSetting_precedence) (simp_all add: plain_track_def track_wf_def)
  with effective_full [OF assms] show ?thesis by (auto simp: full_def board_setting_def Let_def)
qed

lemma reset_loop_each:
  assumes "k \<in> slug ` set ts"
  shows "\<exists>t\<in>set ts. slug t = k \<and>
    fst (reset_loop gl ts (ng, nm, se, g)) k = Some (gain (effectiveSetting (slug t) (category t) Map.empty gl)) \<and>
    fst (snd (reset_loop gl ts (ng, nm, se, g))) k = Some (muted (effectiveSetting (slug t) (category t) Map.empty gl))"
proof -
  have keep: "k \<notin> slug ` set ts \<Longrightarrow> fst (reset_loop gl ts (ng, nm, se, g)) k = ng k
      \<and> fst (snd (reset_loop gl ts (ng, nm, se, g))) k = nm k" for ts ng nm se g
    by (induction ts arbitrary: ng nm se g) (auto simp: Let_def)
  show ?thesis
    using assms
  proof (induction ts arbitrary: ng nm se g)
    case (Cons t ts)
    show ?case
    proof (cases "k \<in> slug ` set ts")
      case True
      from Cons.IH [OF this] show ?thesis by (fastforce simp: Let_def)
    next
      case False
      then have "k = slug t" using Cons.prems by auto
      then show ?thesis using keep [OF False] by (simp add: Let_def)
    qed
  qed simp
qed

lemma onReset_board:
  assumes "content_ok st" "levels_ok st" "globalPrefs st = gp"
  shows "board_step gp sp (board st) () (board (onReset st))"
proof -
  note ok = onReset_ok [OF assms(1)] onReset_levels [OF assms(1,2)]
  let ?b = "board (onReset st)"
  have s: "slugs (onReset st) = slugs st" "trackList (onReset st) = trackList st" "broadcast (onReset st) = broadcast st"
    "offset (onReset st) = offset st"
    by (simp_all add: onReset_def slugs_def split: prod.split)
  have e: "?b = (board st)\<lparr>channels := channels ?b\<rparr>" by (simp add: board_def s)
  show ?thesis
    unfolding e [symmetric]
  proof (subst e, rule board_step.reset)
    show "dom (channels ?b) = dom (channels (board st))" using board_facts(1) [OF ok] board_facts(1) [OF assms(1,2)] s by simp
    fix r assume "r \<in> dom (channels ?b)"
    then have r: "r \<in> slugs st" using board_facts(1) [OF ok] s by simp
    let ?l = "reset_loop gp (trackList st) (Map.empty, Map.empty, settings st, graph st)"
    obtain t where t: "t \<in> set (trackList st)" "slug t = r"
      "fst ?l r = Some (gain (effectiveSetting (slug t) (category t) Map.empty gp))"
      "fst (snd ?l) r = Some (muted (effectiveSetting (slug t) (category t) Map.empty gp))"
      using reset_loop_each r unfolding slugs_def by meson
    have "plain_track t" "full_prefs gp" using assms t(1) by (auto simp: levels_ok_def list_all_iff)
    from effective_board [OF this(1) full_prefs_empty this(2)] t(3,4)
    have "channels ?b r = Some (board_setting Map.empty gp t)"
      by (simp add: board_def board_channels_def onReset_def assms(3) split_beta)
    with t(1,2) show "\<exists>t\<in>set (lineup (board st)). slug t = r \<and> channels ?b r = Some (board_setting Map.empty gp t)"
      by (auto simp: board_def)
  qed
qed

lemma fold_remove_dicts:
  "gains (fold (remove_gone inc) ts st) k = (if k \<in> slug ` set ts \<and> k \<notin> inc then None else gains st k)
   \<and> mutes (fold (remove_gone inc) ts st) k = (if k \<in> slug ` set ts \<and> k \<notin> inc then None else mutes st k)"
proof (induction ts arbitrary: st)
  case (Cons t ts)
  have "gains (remove_gone inc t st) k = (if k = slug t \<and> k \<notin> inc then None else gains st k)"
    "mutes (remove_gone inc t st) k = (if k = slug t \<and> k \<notin> inc then None else mutes st k)"
    by (auto simp: remove_gone_def Let_def drop_lane_def split: option.split)
  with Cons.IH [of "remove_gone inc t st"] show ?case by auto
qed simp

lemma fold_add_keep:
  "k \<in> dom (settings st) \<Longrightarrow>
     gains (fold add_new ts st) k = gains st k \<and> mutes (fold add_new ts st) k = mutes st k"
proof (induction ts arbitrary: st)
  case (Cons t ts)
  have "k \<in> dom (settings (add_new t st))" "gains (add_new t st) k = gains st k" "mutes (add_new t st) k = mutes st k"
    using Cons.prems by (auto simp: add_new_def Let_def ensureLane_keeps)
  with Cons.IH [of "add_new t st"] show ?case by simp
qed simp

lemma fold_add_each:
  "k \<notin> dom (settings st) \<Longrightarrow> k \<in> slug ` set ts \<Longrightarrow>
     \<exists>t\<in>set ts. slug t = k
       \<and> gains (fold add_new ts st) k = Some (gain (effectiveSetting (slug t) (category t) (streamerPrefs st) (globalPrefs st)))
       \<and> mutes (fold add_new ts st) k = Some (muted (effectiveSetting (slug t) (category t) (streamerPrefs st) (globalPrefs st)))"
proof (induction ts arbitrary: st)
  case (Cons t ts)
  show ?case
  proof (cases "slug t = k")
    case True
    then have "k \<in> dom (settings (add_new t st))"
      "gains (add_new t st) k = Some (gain (effectiveSetting (slug t) (category t) (streamerPrefs st) (globalPrefs st)))"
      "mutes (add_new t st) k = Some (muted (effectiveSetting (slug t) (category t) (streamerPrefs st) (globalPrefs st)))"
      using Cons.prems(1) by (auto simp: add_new_def Let_def ensureLane_keeps)
    with True fold_add_keep [of k "add_new t st" ts] show ?thesis by auto
  next
    case False
    then have "k \<notin> dom (settings (add_new t st))" using Cons.prems(1) by (auto simp: add_new_def Let_def ensureLane_keeps)
    from Cons.IH [OF this] Cons.prems(2) False show ?thesis by (auto simp: add_new_fields)
  qed
qed simp

lemma onTrackList_board:
  assumes "content_ok st" "levels_ok st" "list_all plain_track ts" "globalPrefs st = gp" "streamerPrefs st = sp"
  shows "board_step gp sp (board st) () (board (onTrackList ts st))"
proof -
  let ?s = "onTrackList ts st" and ?inc = "slug ` set ts"
  let ?r = "fold (remove_gone ?inc) (trackList st) (indexTracks ts st)"
  note ok = onTrackList_ok [OF assms(1), of ts] onTrackList_levels [OF assms(1,2,3)]
  have p: "parts_ok (slugs st) (indexTracks ts st)" using assms(1) by (auto simp: content_ok_def parts_ok_def indexTracks_def)
  note r = fold_remove_gone [OF p, of "trackList st" ?inc]
  note a = fold_add_new [OF conjunct1 [OF r], of ts]
  have i: "trackList (indexTracks ts st) = trackList st" "gains (indexTracks ts st) = gains st" "mutes (indexTracks ts st) = mutes st"
    "globalPrefs (indexTracks ts st) = gp" "streamerPrefs (indexTracks ts st) = sp" "broadcast (indexTracks ts st) = broadcast st"
    "offset (indexTracks ts st) = offset st"
    using assms by (simp_all add: indexTracks_def)
  have sl: "slugs ?s = ?inc" using onTrackList_index(2) [OF assms(1)] by (simp add: slugs_def)
  have d: "dom (settings ?r) = slugs st \<inter> ?inc" using r by (auto simp: parts_ok_def slugs_def)
  have dict: "gains ?s = gains (fold add_new ts ?r)" "mutes ?s = mutes (fold add_new ts ?r)"
    by (simp_all add: onTrackList_def applyTrackList_def Let_def i(1))
  have keep: "gains ?r k = gains st k" "mutes ?r k = mutes st k" if "k \<in> ?inc" for k
    using fold_remove_dicts [of ?inc "trackList st" "indexTracks ts st" k] that i by auto
  have e: "board ?s = (board st)\<lparr>lineup := ts, channels := channels (board ?s)\<rparr>"
    using r a i onTrackList_index(2) [OF assms(1)]
    by (simp add: board_def) (simp add: onTrackList_def applyTrackList_def Let_def)
  show ?thesis
  proof (subst e, rule board_step.tracks)
    show "dom (channels (board ?s)) = slug ` set ts" using board_facts(1) [OF ok] sl by simp
    show "channels (board ?s) k = channels (board st) k"
      if "k \<in> dom (channels (board ?s))" "k \<in> dom (channels (board st))" for k
    proof -
      have "k \<in> ?inc" "k \<in> slugs st" using that board_facts(1) [OF ok] board_facts(1) [OF assms(1,2)] sl by auto
      then show ?thesis
        using fold_add_keep [of k ?r ts] keep [of k] d by (simp add: board_def board_channels_def dict)
    qed
    show "\<exists>t\<in>set ts. slug t = k \<and> channels (board ?s) k = Some (board_setting sp gp t)"
      if "k \<in> dom (channels (board ?s))" "k \<notin> dom (channels (board st))" for k
    proof -
      have k: "k \<in> ?inc" "k \<notin> slugs st" using that board_facts(1) [OF ok] board_facts(1) [OF assms(1,2)] sl by auto
      have pr: "streamerPrefs ?r = sp" "globalPrefs ?r = gp" using r i by simp_all
      have "k \<notin> dom (settings ?r)" using k d by simp
      from fold_add_each [OF this k(1)] obtain t where t: "t \<in> set ts" "slug t = k"
        "gains ?s k = Some (gain (effectiveSetting (slug t) (category t) sp gp))"
        "mutes ?s k = Some (muted (effectiveSetting (slug t) (category t) sp gp))"
        unfolding dict pr by blast
      have "plain_track t" "full_prefs sp" "full_prefs gp" using assms t(1) by (auto simp: levels_ok_def list_all_iff)
      from effective_board [OF this] t(3,4) have "channels (board ?s) k = Some (board_setting sp gp t)"
        by (simp add: board_def board_channels_def)
      with t(1,2) show ?thesis by blast
    qed
  qed
qed

subsection \<open>The session simulates the board\<close>

definition prefs_are :: "prefs \<Rightarrow> prefs \<Rightarrow> State \<Rightarrow> bool" where
  "prefs_are gp sp st \<longleftrightarrow> globalPrefs st = gp \<and> streamerPrefs st = sp"

lemma prefs_panel: "prefs_are gp sp (panel_handler u st) = prefs_are gp sp st"
  by (cases u; simp add: prefs_are_def handleSliderInput_def handleBroadcastInput_def handleOffsetInput_def icon_click_def
      onChange_def onMuteToggle_def onSoloToggle_def onBroadcastChange_def onOffsetChange_def onReset_def Let_def
      split: prod.split)

lemma prefs_lanes:
  "prefs_are gp sp (onDecoded sl d st) = prefs_are gp sp st" "prefs_are gp sp (onSourceEnded sl src st) = prefs_are gp sp st"
  "prefs_are gp sp (resumeAudio st) = prefs_are gp sp st" "prefs_are gp sp (audio_clock now st) = prefs_are gp sp st"
  "prefs_are gp sp (onAudio i f st) = prefs_are gp sp st" "prefs_are gp sp (onCodecError sl st) = prefs_are gp sp st"
  by (auto simp: prefs_are_def onDecoded_def onCodecError_def onSourceEnded_def resumeAudio_def audio_clock_def onAudio_def ensureLane_def Let_def
      split: option.split prod.split)

lemma prefs_callback: "content_ok st \<Longrightarrow> prefs_are gp sp (callback e st) = prefs_are gp sp st"
proof (cases e)
  case (OnTrackList ts)
  assume "content_ok st"
  then have p: "parts_ok (slugs st) (indexTracks ts st)" by (auto simp: content_ok_def parts_ok_def indexTracks_def)
  note r = fold_remove_gone [OF p, of "trackList (indexTracks ts st)" "slug ` set ts"]
  note a = fold_add_new [OF conjunct1 [OF r], of ts]
  have "globalPrefs (indexTracks ts st) = globalPrefs st" "streamerPrefs (indexTracks ts st) = streamerPrefs st"
    by (simp_all add: indexTracks_def)
  with r a OnTrackList show ?thesis by (simp add: prefs_are_def onTrackList_def applyTrackList_def Let_def)
qed (simp_all add: prefs_lanes)

text \<open>The board does not see what happens in the lanes.\<close>

lemma board_lanes:
  "board (onDecoded sl d st) = board st" "board (onSourceEnded sl src st) = board st"
  "board (resumeAudio st) = board st" "board (audio_clock now st) = board st" "board (onAudio i f st) = board st"
  "board (onCodecError sl st) = board st"
  by (auto simp: board_def onDecoded_def onCodecError_def onSourceEnded_def resumeAudio_def audio_clock_def onAudio_def ensureLane_def Let_def
      split: option.split prod.split)

lemma panel_board:
  assumes "content_ok st" "levels_ok st" "prefs_are gp sp st" "shown_input (mixer st) u"
  shows "board_step gp sp (board st) () (board (panel_handler u st))"
proof (cases u)
  case (Slider s tx)
  with assms show ?thesis using onChange_board [OF assms(1,2)] by (simp add: handleSliderInput_def panel_tracks)
next
  case (Icon sh s)
  with assms show ?thesis using onMuteToggle_board [OF assms(1,2)] onSoloToggle_board [OF assms(1,2)]
    by (simp add: icon_click_def panel_tracks)
next
  case (Broadcast tx)
  then show ?thesis using board_step.residual [of gp sp "board st" "num_over (Number tx) 100"]
    by (simp add: handleBroadcastInput_def onBroadcastChange_def board_def)
next
  case (Offset tx)
  then show ?thesis using board_step.sync [of gp sp "board st" "Number tx"]
    by (simp add: handleOffsetInput_def onOffsetChange_def board_def)
next
  case Reset
  with assms show ?thesis using onReset_board [OF assms(1,2)] by (simp add: prefs_are_def)
qed

lemma callbacks_board:
  "content_ok st \<Longrightarrow> levels_ok st \<Longrightarrow> prefs_are gp sp st \<Longrightarrow> list_all plain_event es \<Longrightarrow>
     run (board_step gp sp) (board st) (board (fold callback es st))"
proof (induction es arbitrary: st)
  case (Cons e es)
  have "run (board_step gp sp) (board (callback e st)) (board (fold callback es (callback e st)))"
    using Cons by (intro Cons.IH) (simp_all add: callback_ok callback_levels prefs_callback)
  moreover have "run (board_step gp sp) (board st) (board (callback e st))"
  proof (cases e)
    case (OnTrackList ts)
    with Cons.prems have "board_step gp sp (board st) () (board (callback e st))"
      using onTrackList_board [OF Cons.prems(1,2)] by (simp add: prefs_are_def)
    then show ?thesis by (rule run_single)
  qed (simp_all add: board_lanes run_refl)
  ultimately show ?case by (simp add: run_trans)
qed (simp add: run_refl)

definition plain_step :: "jsstring \<Rightarrow> Session \<Rightarrow> session_event \<Rightarrow> Session \<Rightarrow> bool" where
  "plain_step ch s ev s' \<longleftrightarrow> session_step ch s ev s' \<and> list_all plain_event (emitted (relay s'))"

definition board_inv :: "prefs \<Rightarrow> prefs \<Rightarrow> Session \<Rightarrow> bool" where
  "board_inv gp sp s \<longleftrightarrow> session_inv s \<and> levels_ok (content s) \<and> prefs_are gp sp (content s)"

lemma prefs_callbacks: "content_ok st \<Longrightarrow> prefs_are gp sp (fold callback es st) = prefs_are gp sp st"
  by (induction es arbitrary: st) (simp_all add: callback_ok prefs_callback)

lemma board_inv_step:
  assumes "board_inv gp sp s" "plain_step ch s ev s'"
  shows "board_inv gp sp s'" "run (board_step gp sp) (board (content s)) (board (content s'))"
proof -
  have i: "session_inv s" "content_ok (content s)" "levels_ok (content s)" "prefs_are gp sp (content s)"
    and st: "session_step ch s ev s'" and pl: "list_all plain_event (emitted (relay s'))"
    using assms by (simp_all add: board_inv_def session_inv_def plain_step_def)
  have s': "session_inv s'" by (rule session_inv_step [OF i(1) st])
  have d: "list_all plain_event (delivered (relay s) r)" if "s' = s\<lparr>relay := r, content := c\<rparr>" "relay_step (relay s) v r" for r c v
    using pl emitted_grows [OF that(2)] that(1) by simp
  have "levels_ok (content s') \<and> prefs_are gp sp (content s')
      \<and> run (board_step gp sp) (board (content s)) (board (content s'))"
    using st
  proof cases
    case (net v r)
    from d [OF net(2,3)] i net(2) show ?thesis by (simp add: callbacks_levels prefs_callbacks callbacks_board)
  next
    case (user u)
    with i panel_board [OF i(2,3,4)] show ?thesis
      by (simp add: panel_handler_levels prefs_panel run_single [where ev = "()"])
  qed (use i in \<open>auto simp: prefs_lanes board_lanes run_refl intro: onDecoded_levels onCodecError_levels onSourceEnded_levels clock_keeps\<close>)
  with s' show "board_inv gp sp s'" "run (board_step gp sp) (board (content s)) (board (content s'))"
    by (simp_all add: board_inv_def)
qed

interpretation mixing: simulation "plain_step ch" "board_inv gp sp" "board_step gp sp" "\<lambda>s. board (content s)" for ch gp sp
  by unfold_locales (rule board_inv_step; assumption)+

lemma mounted_board:
  assumes "full_prefs gp" "full_prefs sp"
  shows "board_inv gp sp (mounted gp sp codecs a)"
proof -
  have "levels_ok (content (mounted gp sp codecs a))"
    using mounted_heard [OF assms, of codecs a] by (simp add: heard_inv_def mounted_def connect_def open_ws_def)
  then show ?thesis using mounted_inv [of gp sp codecs a]
    by (simp add: board_inv_def) (simp add: mounted_def init_state_def Let_def prefs_are_def)
qed

definition empty_board :: Board where
  "empty_board = \<lparr>lineup = [], channels = Map.empty, residual = Fin (f64 (1 / 5)), sync = nnum 0\<rparr>"

lemma mounted_empty: "board (content (mounted gp sp codecs a)) = empty_board"
  by (simp add: board_def mounted_def init_state_def Let_def empty_board_def board_channels_def fun_eq_iff)

text \<open>The relay client never takes back an event, so a run whose events are plain has only plain steps.\<close>

lemma emitted_step: "session_step ch s ev s' \<Longrightarrow> \<exists>es. emitted (relay s') = emitted (relay s) @ es"
  by (erule session_stepE) (auto dest: emitted_grows)

lemma plain_run:
  "session_run ch s s' \<Longrightarrow> list_all plain_event (emitted (relay s')) \<Longrightarrow> run (plain_step ch) s s'"
proof (induction rule: run.induct)
  case (run_step st st' ev st'')
  obtain es where "emitted (relay st'') = emitted (relay st') @ es" using emitted_step [OF run_step.hyps(2)] by blast
  with run_step show ?case by (auto simp: plain_step_def intro: run.run_step)
qed (rule run_refl)

subsection \<open>Properties\<close>



end
