(* ===== verification/Detect.thy ===== *)
theory Detect
  imports JsRegex JsUri
begin

text \<open>
  \<^verbatim>\<open>extension/src/platform/detect.ts\<close>: which platform and channel a page URL names.

  The URL parser (\<^verbatim>\<open>new URL(href)\<close>) is the argument \<open>parse_url\<close>, which gives the host name and
  the path or \<open>None\<close> when it throws; \<^verbatim>\<open>toLowerCase\<close> is the argument \<open>lower\<close>. The results hold
  for all of them: exactly which URLs are accepted, and that the channel id determines the
  location.
\<close>

datatype Platform = Twitch | Kick

record ChannelLocation =
  platform :: Platform
  channelName :: jsstring
  channelID :: jsstring

definition TWITCH_RESERVED :: "jsstring list" where
  "TWITCH_RESERVED =
     [js ''directory'', js ''settings'', js ''videos'', js ''subscriptions'', js ''drops'', js ''wallet'',
      js ''search'', js ''p'', js ''downloads'', js ''store'', js ''broadcast'', js ''turbo'',
      js ''friends'', js ''inventory'']"

definition KICK_RESERVED :: "jsstring list" where
  "KICK_RESERVED =
     [js ''browse'', js ''categories'', js ''search'', js ''dashboard'', js ''settings'',
      js ''subscriptions'', js ''following'', js ''messages'', js ''vods'']"

definition name_class :: "(codeunit \<times> codeunit) list" where
  "name_class = [(97, 122), (48, 57), (95, 95)]"

text \<open>\<^verbatim>\<open>/^[a-z0-9_]{1,64}$/\<close>\<close>

definition CHANNEL_NAME_RE :: rexp where
  "CHANNEL_NAME_RE = RSeq (RClass name_class) (RRepeat 63 (RClass name_class))"

text \<open>\<^verbatim>\<open>hostname.replace(/^www\./, "")\<close> and \<^verbatim>\<open>pathname.split("/")\<close>.\<close>

definition strip_www :: "jsstring \<Rightarrow> jsstring" where
  "strip_www h = (if startsWith h (js ''www.'') then drop 4 h else h)"

fun split_slash :: "jsstring \<Rightarrow> jsstring list" where
  "split_slash [] = [[]]"
| "split_slash (u # s) =
     (if u = 47 then [] # split_slash s
      else (case split_slash s of [] \<Rightarrow> [[u]] | w # ws \<Rightarrow> (u # w) # ws))"

definition detectChannel ::
  "(jsstring \<Rightarrow> (jsstring \<times> jsstring) option) \<Rightarrow> (jsstring \<Rightarrow> jsstring) \<Rightarrow> jsstring \<Rightarrow> ChannelLocation option"
where
  "detectChannel parse_url lower href =
     (case parse_url href of
        None \<Rightarrow> None
      | Some (hostname, pathname) \<Rightarrow>
          let host = strip_www hostname;
              segments = filter (\<lambda>s. s \<noteq> []) (split_slash pathname)
          in if length segments = 0 then None
             else
               let first = lower (segments ! 0) in
               if host = js ''twitch.tv'' then
                 (if List.member TWITCH_RESERVED first then None
                  else if \<not> rx_test CHANNEL_NAME_RE first then None
                  else Some \<lparr>platform = Twitch, channelName = first, channelID = js ''twitch:'' @ first\<rparr>)
               else if host = js ''kick.com'' then
                 (if List.member KICK_RESERVED first then None
                  else if \<not> rx_test CHANNEL_NAME_RE first then None
                  else Some \<lparr>platform = Kick, channelName = first, channelID = js ''kick:'' @ first\<rparr>)
               else None)"

declare js_Cons [simp del]

subsection \<open>Names\<close>

definition name_ok :: "jsstring \<Rightarrow> bool" where
  "name_ok s \<longleftrightarrow> 1 \<le> length s \<and> length s \<le> 64 \<and> list_all (in_class name_class) s"

lemma CHANNEL_NAME_RE_iff: "rx_test CHANNEL_NAME_RE s \<longleftrightarrow> name_ok s"
  unfolding rx_test_iff CHANNEL_NAME_RE_def rx_seq_class rx_lang_repeat_class name_ok_def
  by (cases s) auto

fun reserved :: "Platform \<Rightarrow> jsstring list" where
  "reserved Twitch = TWITCH_RESERVED"
| "reserved Kick = KICK_RESERVED"

fun host_of :: "Platform \<Rightarrow> jsstring" where
  "host_of Twitch = js ''twitch.tv''"
| "host_of Kick = js ''kick.com''"

fun id_prefix :: "Platform \<Rightarrow> jsstring" where
  "id_prefix Twitch = js ''twitch:''"
| "id_prefix Kick = js ''kick:''"

text \<open>What a location is: an unreserved, well-formed name under its platform's id prefix.\<close>

definition location_ok :: "ChannelLocation \<Rightarrow> bool" where
  "location_ok l \<longleftrightarrow>
     name_ok (channelName l) \<and> channelName l \<notin> set (reserved (platform l))
     \<and> channelID l = id_prefix (platform l) @ channelName l"

lemma detectChannel_iff:
  "detectChannel parse_url lower href = Some l \<longleftrightarrow>
     location_ok l \<and>
     (\<exists>hostname pathname seg segs. parse_url href = Some (hostname, pathname)
        \<and> strip_www hostname = host_of (platform l)
        \<and> filter (\<lambda>s. s \<noteq> []) (split_slash pathname) = seg # segs \<and> lower seg = channelName l)"
proof (cases "parse_url href")
  case (Some hp)
  obtain h p where hp: "hp = (h, p)" by (cases hp)
  show ?thesis
  proof (cases "filter (\<lambda>s. s \<noteq> []) (split_slash p)")
    case Nil
    with Some hp show ?thesis by (simp add: detectChannel_def)
  next
    case (Cons seg segs)
    have "\<exists>l'. l = l'" by simp
    with Some hp Cons show ?thesis
      by (cases "platform l"; cases l)
        (auto simp: detectChannel_def Let_def CHANNEL_NAME_RE_iff location_ok_def)
  qed
qed (simp add: detectChannel_def)

lemma id_prefix_inj: "id_prefix p @ a = id_prefix q @ b \<Longrightarrow> p = q \<and> a = b"
  by (cases p; cases q) (auto simp: js_Cons)

lemma location_by_id: "location_ok l \<Longrightarrow> location_ok m \<Longrightarrow> channelID l = channelID m \<Longrightarrow> l = m"
  using id_prefix_inj [of "platform l" "channelName l" "platform m" "channelName m"]
  by (auto simp: location_ok_def)

text \<open>The id as a query argument: only the colon is escaped.\<close>

lemma name_unit_unreserved: "in_class name_class u \<Longrightarrow> unreserved (unat u) \<and> unat u < 0x80"
  by (auto simp: in_class_def name_class_def unreserved_def word_le_nat_alt)

lemma channelID_uri:
  assumes "location_ok l"
  shows "encodeURIComponent (channelID l) =
    Some ((case platform l of Twitch \<Rightarrow> js ''twitch%3A'' | Kick \<Rightarrow> js ''kick%3A'') @ channelName l)"
proof -
  let ?n = "channelName l"
  have n: "list_all (\<lambda>u. unreserved (unat u)) ?n" "list_all (\<lambda>u. unat u < 0x80) ?n"
    using assms name_unit_unreserved by (auto simp: location_ok_def name_ok_def list_all_iff)
  have p: "list_all (\<lambda>u. unat u < 0x80) (id_prefix (platform l))"
    by (cases "platform l") (simp_all add: js_Cons)
  have "concat (map (uri_cp \<circ> unat) (id_prefix (platform l)))
      = (case platform l of Twitch \<Rightarrow> js ''twitch%3A'' | Kick \<Rightarrow> js ''kick%3A'')"
    by (cases "platform l") (simp_all add: js_Cons uri_cp_def unreserved_def utf8_enc_def pct_def hex_upper_def)
  with uri_unreserved [OF n(1)] show ?thesis
    using assms encodeURIComponent_ascii [of "channelID l"] p n(2) by (simp add: location_ok_def)
qed

subsection \<open>Properties\<close>

text \<open>
  C33: a page is recognised exactly when its URL parses, its host without \<^verbatim>\<open>www.\<close> is the
  platform's, and its first path segment, lower-cased, is a name of 1 to 64 characters of
  [a-z0-9\_] that the platform does not reserve; the id is then the platform's prefix and the name.
\<close>

theorem detected_exactly:
  "detectChannel parse_url lower href = Some l \<longleftrightarrow>
     location_ok l \<and>
     (\<exists>hostname pathname seg segs. parse_url href = Some (hostname, pathname)
        \<and> strip_www hostname = host_of (platform l)
        \<and> filter (\<lambda>s. s \<noteq> []) (split_slash pathname) = seg # segs \<and> lower seg = channelName l)"
  by (rule detectChannel_iff)

text \<open>
  Channel ids identify locations: two pages with the same id are the same platform and
  channel, and the id reaches the relay with only its colon escaped.
\<close>

lemma channel_ids:
  assumes "detectChannel parse_url lower href = Some l" "detectChannel parse_url lower href' = Some l'"
  shows "(channelID l = channelID l' \<longrightarrow> l = l')
    \<and> encodeURIComponent (channelID l)
        = Some ((case platform l of Twitch \<Rightarrow> js ''twitch%3A'' | Kick \<Rightarrow> js ''kick%3A'') @ channelName l)"
  using assms location_by_id [of l l'] channelID_uri [of l] by (auto simp: detectChannel_iff)

lemma channel_ids_example:
  "encodeURIComponent (js ''kick:xqc'') = Some (js ''kick%3Axqc'')"
proof -
  let ?l = "\<lparr>platform = Kick, channelName = js ''xqc'', channelID = js ''kick:xqc''\<rparr>"
  have "name_ok (js ''xqc'')" by (simp add: name_ok_def js_Cons in_class_def name_class_def word_le_nat_alt)
  then have "rx_test CHANNEL_NAME_RE (js ''xqc'')" by (simp add: CHANNEL_NAME_RE_iff)
  moreover have "filter (\<lambda>s. s \<noteq> []) (split_slash (js ''/xqc/clips'')) = [js ''xqc'', js ''clips'']"
    by (simp add: js_Cons)
  moreover have "strip_www (js ''www.kick.com'') = js ''kick.com''" by (simp add: strip_www_def startsWith_def js_Cons)
  ultimately have "detectChannel (\<lambda>_. Some (js ''www.kick.com'', js ''/xqc/clips'')) id [] = Some ?l"
    by (simp add: detectChannel_def KICK_RESERVED_def Let_def flip: js_append)
  from channel_ids [OF this this] show ?thesis by (simp flip: js_append)
qed

end
