(* ===== verification/Player.thy ===== *)
theory Player
  imports Detect
begin

text \<open>
  \<^verbatim>\<open>extension/src/platform/player.ts\<close>: finding the video element and waiting for it.

  A document is what \<^verbatim>\<open>document.querySelector\<close> answers in it: a function from selectors to
  elements (\<open>None\<close> for null). \<^verbatim>\<open>waitForPlayer\<close> is a small state machine: \<open>wait_start\<close> is the
  promise's executor and \<open>wait_mutation\<close> the observer's callback, which runs once per DOM
  mutation at a time in milliseconds. The main result is what the promise resolves to after any
  sequence of mutations.
\<close>

type_synonym 'e document = "jsstring \<Rightarrow> 'e option"

record 'e PlayerHooks =
  video :: 'e
  controlBar :: 'e

record Selectors =
  sel_video :: jsstring
  sel_controlBar :: jsstring

definition TWITCH_SELECTORS :: Selectors where
  "TWITCH_SELECTORS =
     \<lparr>sel_video = js ''video[playsinline]'', sel_controlBar = js ''[data-a-target='' @ [39] @ js ''player-controls'' @ [39] @ js '']''\<rparr>"

definition KICK_SELECTORS :: Selectors where
  "KICK_SELECTORS = \<lparr>sel_video = js ''video'', sel_controlBar = js ''.vjs-control-bar''\<rparr>"

definition findPlayer :: "Platform \<Rightarrow> 'e document \<Rightarrow> 'e PlayerHooks option" where
  "findPlayer p doc =
     (let sel = (if p = Twitch then TWITCH_SELECTORS else KICK_SELECTORS);
          v = doc (sel_video sel);
          c = doc (sel_controlBar sel)
      in case v of
           None \<Rightarrow> None
         | Some v' \<Rightarrow> (case c of None \<Rightarrow> None | Some c' \<Rightarrow> Some \<lparr>video = v', controlBar = c'\<rparr>))"

text \<open>The promise is pending (\<open>None\<close>) or resolved with hooks or null.\<close>

record 'e wait_state =
  start :: int
  observing :: bool
  resolved :: "'e PlayerHooks option option"

definition wait_start :: "Platform \<Rightarrow> 'e document \<Rightarrow> int \<Rightarrow> 'e wait_state" where
  "wait_start p doc now =
     (case findPlayer p doc of
        Some found \<Rightarrow> \<lparr>start = now, observing = False, resolved = Some (Some found)\<rparr>
      | None \<Rightarrow> \<lparr>start = now, observing = True, resolved = None\<rparr>)"

definition wait_mutation :: "Platform \<Rightarrow> int \<Rightarrow> 'e document \<times> int \<Rightarrow> 'e wait_state \<Rightarrow> 'e wait_state" where
  "wait_mutation p timeoutMs ev st =
     (case ev of (doc, now) \<Rightarrow>
        if \<not> observing st then st
        else
          (case findPlayer p doc of
             Some hooks \<Rightarrow> st\<lparr>observing := False, resolved := Some (Some hooks)\<rparr>
           | None \<Rightarrow>
               if now - start st > timeoutMs
               then st\<lparr>observing := False, resolved := Some None\<rparr>
               else st))"

definition waitForPlayer :: "Platform \<Rightarrow> int \<Rightarrow> 'e document \<times> int \<Rightarrow> ('e document \<times> int) list \<Rightarrow> 'e wait_state" where
  "waitForPlayer p timeoutMs first evs =
     fold (wait_mutation p timeoutMs) evs (wait_start p (fst first) (snd first))"

subsection \<open>What the promise resolves to\<close>

text \<open>The first event that settles it: the player is there, or the time is up.\<close>

definition settles :: "Platform \<Rightarrow> int \<Rightarrow> int \<Rightarrow> 'e document \<times> int \<Rightarrow> bool" where
  "settles p timeoutMs t0 ev \<longleftrightarrow> findPlayer p (fst ev) \<noteq> None \<or> snd ev - t0 > timeoutMs"

lemma wait_settled: "\<not> observing st \<Longrightarrow> fold (wait_mutation p timeoutMs) evs st = st"
  by (induction evs arbitrary: st) (simp_all add: wait_mutation_def split: prod.split)

lemma wait_observing:
  assumes "observing st" "resolved st = None"
  shows "resolved (fold (wait_mutation p timeoutMs) evs st)
    = map_option (\<lambda>ev. findPlayer p (fst ev)) (find (settles p timeoutMs (start st)) evs)
    \<and> (observing (fold (wait_mutation p timeoutMs) evs st)
        \<longleftrightarrow> find (settles p timeoutMs (start st)) evs = None)"
  using assms
proof (induction evs arbitrary: st)
  case (Cons ev evs)
  show ?case
  proof (cases "settles p timeoutMs (start st) ev")
    case True
    then have "\<not> observing (wait_mutation p timeoutMs ev st)"
      "resolved (wait_mutation p timeoutMs ev st) = Some (findPlayer p (fst ev))"
      using Cons.prems by (auto simp: wait_mutation_def settles_def split: prod.split option.split)
    with True show ?thesis by (simp add: wait_settled)
  next
    case False
    then have "wait_mutation p timeoutMs ev st = st"
      by (auto simp: wait_mutation_def settles_def split: prod.split option.split)
    with False Cons show ?thesis by simp
  qed
qed simp

lemma waitForPlayer_outcome:
  "resolved (waitForPlayer p timeoutMs first evs) =
     (case findPlayer p (fst first) of
        Some found \<Rightarrow> Some (Some found)
      | None \<Rightarrow> map_option (\<lambda>ev. findPlayer p (fst ev)) (find (settles p timeoutMs (snd first)) evs))"
proof (cases "findPlayer p (fst first)")
  case None
  then have "observing (wait_start p (fst first) (snd first))" "resolved (wait_start p (fst first) (snd first)) = None"
    "start (wait_start p (fst first) (snd first)) = snd first"
    by (simp_all add: wait_start_def)
  with wait_observing [of "wait_start p (fst first) (snd first)" p timeoutMs evs] None show ?thesis
    by (simp add: waitForPlayer_def)
qed (simp add: waitForPlayer_def wait_start_def wait_settled)

lemma find_append: "find P (xs @ ys) = (case find P xs of None \<Rightarrow> find P ys | Some x \<Rightarrow> Some x)"
  by (induction xs) simp_all

text \<open>A resolved promise never changes, and its observer is gone.\<close>

lemma wait_resolved_stable:
  assumes "resolved (waitForPlayer p timeoutMs first evs) = Some r"
  shows "resolved (waitForPlayer p timeoutMs first (evs @ later)) = Some r"
  using assms by (auto simp: waitForPlayer_outcome find_append split: option.splits)

subsection \<open>Properties\<close>

text \<open>
  C34: the promise resolves at once when the player is there; otherwise it resolves at the first
  DOM mutation at which the player is there or the time-out has passed, with what is found then
  (null when nothing is), and stays pending while there is no such mutation. Once resolved it
  never changes.
\<close>

theorem player_awaited:
  "resolved (waitForPlayer p timeoutMs first evs) =
     (case findPlayer p (fst first) of
        Some found \<Rightarrow> Some (Some found)
      | None \<Rightarrow> map_option (\<lambda>ev. findPlayer p (fst ev))
          (find (\<lambda>ev. findPlayer p (fst ev) \<noteq> None \<or> snd ev - snd first > timeoutMs) evs))
   \<and> (resolved (waitForPlayer p timeoutMs first evs) = Some r \<longrightarrow>
        resolved (waitForPlayer p timeoutMs first (evs @ later)) = Some r)"
proof -
  have e: "settles p timeoutMs (snd first) = (\<lambda>ev. findPlayer p (fst ev) \<noteq> None \<or> snd ev - snd first > timeoutMs)"
    by (auto simp: fun_eq_iff settles_def)
  show ?thesis unfolding e [symmetric]
    using waitForPlayer_outcome [of p timeoutMs first evs] wait_resolved_stable [of p timeoutMs first evs r later]
    by blast
qed

theorem player_awaited_witness:
  "resolved (waitForPlayer Kick 15000 ((\<lambda>_. None), 0) [((\<lambda>_. None), 20000), ((\<lambda>_. Some (7 :: nat)), 20001)]) = Some None"
  using player_awaited [of Kick 15000 "((\<lambda>_. None), 0)" "[((\<lambda>_. None :: nat option), 20000)]" None
      "[((\<lambda>_. Some 7), 20001)]"]
  by (simp add: findPlayer_def Let_def)

text \<open>With no mutation the promise stays pending, however long the page waits.\<close>

lemma player_pending: "findPlayer p (fst first) = None \<Longrightarrow> resolved (waitForPlayer p timeoutMs first []) = None"
  by (simp add: waitForPlayer_outcome)

end
