(* ===== verification/Page.thy ===== *)
theory Page
  imports Restore Player
begin

text \<open>
  \<^verbatim>\<open>extension/src/content/index.ts\<close>, lines 59 to 81 and 247 to 293: mixers over the life of a page.

  \<^verbatim>\<open>mount\<close> waits twice, for the player and for the preferences, and nothing stops it in between. A
  page therefore has any number of mounts, each in a phase: waiting for its player, loading with a
  built graph, live with a session, torn down, or ended without a mixer (no player, or the video
  element already tapped). \<open>tapped\<close> lists the elements that were ever given to
  \<^verbatim>\<open>createMediaElementSource\<close>. What the browser resolves and the lanes' keys at tear-down are arguments.
\<close>

datatype phase =
    Waiting
  | Loading MixerGraph
  | Live Session
  | Torn RelayClient State
  | Ended

record Mount =
  mloc :: ChannelLocation
  phase :: phase

record 'e Page =
  href :: jsstring
  lastHref :: jsstring
  tapped :: "'e list"
  mounts :: "Mount list"
  active :: "nat option"

type_synonym url_parser = "jsstring \<Rightarrow> (jsstring \<times> jsstring) option"

definition set_phase :: "nat \<Rightarrow> phase \<Rightarrow> 'e Page \<Rightarrow> 'e Page" where
  "set_phase i ph p = p\<lparr>mounts := (mounts p)[i := (mounts p ! i)\<lparr>phase := ph\<rparr>]\<rparr>"

text \<open>\<^verbatim>\<open>mount()\<close> up to its first await.\<close>

definition mount_begin :: "url_parser \<Rightarrow> (jsstring \<Rightarrow> jsstring) \<Rightarrow> 'e Page \<Rightarrow> 'e Page" where
  "mount_begin parse_url lower p =
     (case detectChannel parse_url lower (href p) of
        None \<Rightarrow> p
      | Some loc \<Rightarrow> p\<lparr>mounts := mounts p @ [\<lparr>mloc = loc, phase = Waiting\<rparr>]\<rparr>)"

text \<open>From the player to the preferences; an element that is already tapped makes \<^verbatim>\<open>mount\<close> reject.\<close>

definition mount_player :: "nat \<Rightarrow> 'e PlayerHooks option \<Rightarrow> 'e Page \<Rightarrow> 'e Page" where
  "mount_player i hooks p =
     (case hooks of
        None \<Rightarrow> set_phase i Ended p
      | Some h \<Rightarrow>
          (case buildGraph (tapped p) (video h) of
             Inl _ \<Rightarrow> set_phase i Ended p
           | Inr (g, tapped') \<Rightarrow> set_phase i (Loading g) (p\<lparr>tapped := tapped'\<rparr>)))"

text \<open>From the preferences to the end.\<close>

definition mount_prefs :: "nat \<Rightarrow> prefs \<Rightarrow> prefs \<Rightarrow> bool \<Rightarrow> storage \<Rightarrow> 'e Page \<Rightarrow> 'e Page" where
  "mount_prefs i gp sp codecs a p =
     (case phase (mounts p ! i) of
        Loading g \<Rightarrow>
          (set_phase i (Live \<lparr>relay = connect, content = init_state g gp sp codecs, area = a\<rparr>) p)\<lparr>active := Some i\<rparr>
      | _ \<Rightarrow> p)"

definition unmount :: "jsstring list \<Rightarrow> 'e Page \<Rightarrow> 'e Page" where
  "unmount ss p =
     (case active p of
        None \<Rightarrow> p
      | Some i \<Rightarrow>
          (case phase (mounts p ! i) of
             Live s \<Rightarrow>
               (case destroy_state ss (relay s, content s) of
                  (r, st) \<Rightarrow> (set_phase i (Torn r st) p)\<lparr>active := None\<rparr>)
           | _ \<Rightarrow> p\<lparr>active := None\<rparr>))"

text \<open>The callback of the observer, and the last line of the script.\<close>

definition href_observer :: "url_parser \<Rightarrow> (jsstring \<Rightarrow> jsstring) \<Rightarrow> jsstring list \<Rightarrow> 'e Page \<Rightarrow> 'e Page" where
  "href_observer parse_url lower ss p =
     (if href p \<noteq> lastHref p
      then mount_begin parse_url lower (unmount ss (p\<lparr>lastHref := href p\<rparr>))
      else p)"

definition script :: "url_parser \<Rightarrow> (jsstring \<Rightarrow> jsstring) \<Rightarrow> jsstring \<Rightarrow> 'e Page" where
  "script parse_url lower h =
     mount_begin parse_url lower \<lparr>href = h, lastHref = h, tapped = [], mounts = [], active = None\<rparr>"

subsection \<open>The life of a page\<close>

datatype 'e page_event =
    Navigate jsstring
  | Mutation "jsstring list"
  | PlayerSettles nat "'e PlayerHooks option"
  | PrefsSettle nat prefs prefs bool storage
  | Inside nat session_event

text \<open>The keys of the lanes of the active mixer, which \<^verbatim>\<open>destroy()\<close> iterates over.\<close>

definition lane_keys :: "'e Page \<Rightarrow> jsstring list \<Rightarrow> bool" where
  "lane_keys p ss \<longleftrightarrow>
     (\<forall>i s. active p = Some i \<longrightarrow> phase (mounts p ! i) = Live s \<longrightarrow> set ss = dom (audioLanes (content s)))"

inductive page_step :: "url_parser \<Rightarrow> (jsstring \<Rightarrow> jsstring) \<Rightarrow> 'e Page \<Rightarrow> 'e page_event \<Rightarrow> 'e Page \<Rightarrow> bool"
  for parse_url lower where
  navigate: "page_step parse_url lower p (Navigate h) (p\<lparr>href := h\<rparr>)"
| mutation: "lane_keys p ss \<Longrightarrow> page_step parse_url lower p (Mutation ss) (href_observer parse_url lower ss p)"
| player: "i < length (mounts p) \<Longrightarrow> phase (mounts p ! i) = Waiting \<Longrightarrow>
    page_step parse_url lower p (PlayerSettles i hooks) (mount_player i hooks p)"
| prefs: "i < length (mounts p) \<Longrightarrow> phase (mounts p ! i) = Loading g \<Longrightarrow>
    page_step parse_url lower p (PrefsSettle i gp sp codecs a) (mount_prefs i gp sp codecs a p)"
| inside: "i < length (mounts p) \<Longrightarrow> phase (mounts p ! i) = Live s \<Longrightarrow>
    session_step (channelID (mloc (mounts p ! i))) s ev s' \<Longrightarrow>
    page_step parse_url lower p (Inside i ev) (set_phase i (Live s') p)"

abbreviation page_run :: "url_parser \<Rightarrow> (jsstring \<Rightarrow> jsstring) \<Rightarrow> 'e Page \<Rightarrow> 'e Page \<Rightarrow> bool" where
  "page_run parse_url lower \<equiv> run (page_step parse_url lower)"

definition is_live :: "'e Page \<Rightarrow> nat \<Rightarrow> bool" where
  "is_live p i \<longleftrightarrow> i < length (mounts p) \<and> (\<exists>s. phase (mounts p ! i) = Live s)"

definition is_pending :: "'e Page \<Rightarrow> nat \<Rightarrow> bool" where
  "is_pending p i \<longleftrightarrow> i < length (mounts p) \<and> (phase (mounts p ! i) = Waiting \<or> (\<exists>g. phase (mounts p ! i) = Loading g))"

subsection \<open>Phases under the operations\<close>

lemma set_phase_simps [simp]:
  "length (mounts (set_phase i ph p)) = length (mounts p)" "active (set_phase i ph p) = active p"
  "href (set_phase i ph p) = href p" "lastHref (set_phase i ph p) = lastHref p" "tapped (set_phase i ph p) = tapped p"
  "i < length (mounts p) \<Longrightarrow> phase (mounts (set_phase i ph p) ! j) = (if j = i then ph else phase (mounts p ! j))"
  by (auto simp: set_phase_def nth_list_update)

lemma mount_begin_phases:
  "is_live (mount_begin parse_url lower p) i = is_live p i"
  "is_pending p i \<Longrightarrow> is_pending (mount_begin parse_url lower p) i"
  "is_pending (mount_begin parse_url lower p) i \<Longrightarrow> is_pending p i \<or> i = length (mounts p)"
  "active (mount_begin parse_url lower p) = active p"
  by (cases "detectChannel parse_url lower (href p)";
      auto simp: mount_begin_def is_live_def is_pending_def nth_append less_Suc_eq split: if_splits)+

subsection \<open>What holds in every page\<close>

fun phase_ok :: "phase \<Rightarrow> bool" where
  "phase_ok Waiting \<longleftrightarrow> True"
| "phase_ok (Loading g) \<longleftrightarrow> g = built"
| "phase_ok (Live s) \<longleftrightarrow> session_inv s"
| "phase_ok (Torn r st) \<longleftrightarrow> closed r \<and> audioLanes st = Map.empty \<and> cstate (ctx (graph st)) = Closed"
| "phase_ok Ended \<longleftrightarrow> True"

definition page_inv :: "'e Page \<Rightarrow> bool" where
  "page_inv p \<longleftrightarrow> (\<forall>i. active p = Some i \<longrightarrow> is_live p i) \<and> list_all (\<lambda>m. phase_ok (phase m)) (mounts p)"

lemma page_inv_phase: "page_inv p \<Longrightarrow> i < length (mounts p) \<Longrightarrow> phase_ok (phase (mounts p ! i))"
  by (simp add: page_inv_def list_all_length)

lemma page_inv_set:
  assumes "page_inv p" "i < length (mounts p)" "phase_ok ph" "\<not> is_live p i \<or> (\<exists>s. ph = Live s)"
  shows "page_inv (set_phase i ph p)"
  using assms by (auto simp: page_inv_def list_all_length is_live_def)

lemma page_inv_fields:
  "page_inv (p\<lparr>href := h\<rparr>) = page_inv p" "page_inv (p\<lparr>lastHref := h\<rparr>) = page_inv p" "page_inv (p\<lparr>tapped := t\<rparr>) = page_inv p"
  by (simp_all add: page_inv_def is_live_def)

lemma mount_begin_inv: "page_inv p \<Longrightarrow> page_inv (mount_begin parse_url lower p)"
  by (auto simp: page_inv_def mount_begin_def is_live_def nth_append split: option.split)

lemma torn_ok: "destroy_state ss (relay s, content s) = (r, st) \<Longrightarrow> phase_ok (Torn r st)"
  by (auto simp: destroy_state_def Let_def destroy_def close_client_def split: option.split)

lemma unmount_active:
  assumes "page_inv p"
  obtains "active p = None" "unmount ss p = p"
  | i s r st where "active p = Some i" "i < length (mounts p)" "phase (mounts p ! i) = Live s" "phase_ok (Torn r st)"
      "unmount ss p = (set_phase i (Torn r st) p)\<lparr>active := None\<rparr>"
proof (cases "active p")
  case None
  with that(1) show thesis by (simp add: unmount_def)
next
  case (Some i)
  with assms obtain s where s: "i < length (mounts p)" "phase (mounts p ! i) = Live s"
    by (auto simp: page_inv_def is_live_def)
  obtain r st where d: "destroy_state ss (relay s, content s) = (r, st)" by fastforce
  from that(2) [OF Some s torn_ok [OF d]] d Some s show thesis by (simp add: unmount_def)
qed

lemma unmount_inv: "page_inv p \<Longrightarrow> page_inv (unmount ss p)"
proof -
  assume p: "page_inv p"
  then show ?thesis
  proof (cases rule: unmount_active [of p ss])
    case (2 i s r st)
    with p show ?thesis by (auto simp: page_inv_def list_all_length)
  qed (use p in simp)
qed

lemma page_inv_step:
  assumes "page_inv p" "page_step parse_url lower p ev p'"
  shows "page_inv p'"
  using assms(2)
proof cases
  case (mutation ss)
  have "page_inv (unmount ss (p\<lparr>lastHref := href p\<rparr>))" using assms(1) by (intro unmount_inv) (simp add: page_inv_fields)
  then show ?thesis using assms(1) mutation by (simp add: href_observer_def mount_begin_inv)
next
  case (player i hooks)
  then have n: "\<not> is_live p i" by (simp add: is_live_def)
  show ?thesis
  proof (cases hooks)
    case (Some h)
    have "page_inv (set_phase i (Loading built) (p\<lparr>tapped := video h # tapped p\<rparr>))"
      using player n assms(1) by (intro page_inv_set) (simp_all add: page_inv_fields is_live_def)
    moreover have "page_inv (set_phase i Ended p)" using player n assms(1) by (intro page_inv_set) simp_all
    ultimately show ?thesis using player Some by (simp add: mount_player_def buildGraph_built throw_def)
  qed (use player n assms(1) in \<open>simp add: mount_player_def page_inv_set\<close>)
next
  case (prefs i g gp sp codecs a)
  let ?s = "\<lparr>relay = connect, content = init_state g gp sp codecs, area = a\<rparr>"
  have "g = built" using page_inv_phase [OF assms(1)] prefs by force
  then have "phase_ok (Live ?s)" using mounted_inv [of gp sp codecs a] by (simp add: mounted_def)
  moreover have "p' = (set_phase i (Live ?s) p)\<lparr>active := Some i\<rparr>" using prefs by (simp add: mount_prefs_def)
  ultimately show ?thesis using assms(1) prefs by (auto simp: page_inv_def list_all_length is_live_def)
next
  case (inside i s ev s')
  have "session_inv s" using page_inv_phase [OF assms(1)] inside by force
  then have "phase_ok (Live s')" using session_inv_step inside by auto
  with inside assms(1) show ?thesis by (simp add: page_inv_set)
qed (use assms(1) in \<open>simp add: page_inv_fields\<close>)

interpretation page: kept "page_step parse_url lower" page_inv for parse_url lower
  by unfold_locales (rule page_inv_step)

lemma script_inv: "page_inv (script parse_url lower h)"
  unfolding script_def by (rule mount_begin_inv) (simp add: page_inv_def)

subsection \<open>One mixer at a time\<close>

text \<open>
  \<open>tidy\<close>: the only live mixer is the active one, at most one mount is under way, and only while
  none is live. A navigation is calm when no mount is under way.
\<close>

definition tidy :: "'e Page \<Rightarrow> bool" where
  "tidy p \<longleftrightarrow>
     (\<forall>i. is_live p i \<longrightarrow> active p = Some i) \<and> (\<forall>i j. is_pending p i \<longrightarrow> is_pending p j \<longrightarrow> i = j)
     \<and> (\<forall>i. is_pending p i \<longrightarrow> active p = None)"

definition calm_step :: "url_parser \<Rightarrow> (jsstring \<Rightarrow> jsstring) \<Rightarrow> 'e Page \<Rightarrow> 'e page_event \<Rightarrow> 'e Page \<Rightarrow> bool" where
  "calm_step parse_url lower p ev p' \<longleftrightarrow>
     page_step parse_url lower p ev p'
     \<and> ((\<exists>ss. ev = Mutation ss) \<and> href p \<noteq> lastHref p \<longrightarrow> (\<forall>i. \<not> is_pending p i))"

lemma pending_fields:
  "is_pending (p\<lparr>href := h\<rparr>) i = is_pending p i" "is_live (p\<lparr>href := h\<rparr>) i = is_live p i"
  "is_pending (p\<lparr>lastHref := h\<rparr>) i = is_pending p i" "is_live (p\<lparr>lastHref := h\<rparr>) i = is_live p i"
  "is_pending (p\<lparr>tapped := t\<rparr>) i = is_pending p i" "is_live (p\<lparr>tapped := t\<rparr>) i = is_live p i"
  "is_pending (p\<lparr>active := x\<rparr>) i = is_pending p i" "is_live (p\<lparr>active := x\<rparr>) i = is_live p i"
  by (simp_all add: is_pending_def is_live_def)

lemma tidy_unmount:
  assumes "page_inv p" "tidy p" "\<forall>i. \<not> is_pending p i"
  shows "(\<forall>i. \<not> is_live (unmount ss p) i) \<and> (\<forall>i. \<not> is_pending (unmount ss p) i) \<and> active (unmount ss p) = None"
  using assms by (cases rule: unmount_active [of p ss]) (auto simp: tidy_def is_live_def is_pending_def)

lemma tidy_set:
  assumes "tidy p" "i < length (mounts p)" "is_pending p i" "\<not> (\<exists>s. ph = Live s)"
  shows "tidy (set_phase i ph p)"
  using assms by (auto simp: tidy_def is_live_def is_pending_def split: if_splits) 

lemma tidy_step:
  assumes "page_inv p" "tidy p" "calm_step parse_url lower p ev p'"
  shows "tidy p'"
proof -
  have "page_step parse_url lower p ev p'" using assms(3) by (simp add: calm_step_def)
  then show ?thesis
  proof cases
    case (mutation ss)
    show ?thesis
    proof (cases "href p = lastHref p")
      case False
      let ?u = "unmount ss (p\<lparr>lastHref := href p\<rparr>)"
      have np: "\<forall>i. \<not> is_pending p i" using assms(3) mutation False by (auto simp: calm_step_def)
      have "(\<forall>i. \<not> is_live ?u i) \<and> (\<forall>i. \<not> is_pending ?u i) \<and> active ?u = None"
        using assms(1,2) np by (intro tidy_unmount) (simp_all add: page_inv_fields tidy_def pending_fields)
      then show ?thesis
        using mutation False mount_begin_phases(3) [where p = ?u]
        by (auto simp: href_observer_def tidy_def mount_begin_phases(1,4)) blast
    qed (use assms(2) mutation in \<open>simp add: href_observer_def\<close>)
  next
    case (player i hooks)
    then have pe: "is_pending p i" by (simp add: is_pending_def)
    have t: "tidy (p\<lparr>tapped := x\<rparr>)" for x using assms(2) by (simp add: tidy_def pending_fields)
    have "tidy (set_phase i Ended p)" using assms(2) player pe by (intro tidy_set) simp_all
    moreover have "tidy (set_phase i (Loading built) (p\<lparr>tapped := x\<rparr>))" for x
      using t player pe by (intro tidy_set) (simp_all add: pending_fields)
    ultimately show ?thesis using player
      by (simp add: mount_player_def buildGraph_built throw_def split: option.split)
  next
    case (prefs i g gp sp codecs a)
    then have "is_pending p i" by (simp add: is_pending_def)
    with prefs assms(2) show ?thesis
      by (auto simp: mount_prefs_def tidy_def is_live_def is_pending_def split: if_splits)
  next
    case (inside i s ev s')
    then show ?thesis using assms(2) by (auto simp: tidy_def is_live_def is_pending_def split: if_splits)
  qed (use assms(2) in \<open>simp add: tidy_def pending_fields\<close>)
qed

interpretation calm: kept "calm_step parse_url lower" "\<lambda>p. page_inv p \<and> tidy p" for parse_url lower
  by unfold_locales (metis calm_step_def page_inv_step tidy_step)

lemma script_tidy: "tidy (script parse_url lower h)"
  by (cases "detectChannel parse_url lower h")
    (auto simp: script_def mount_begin_def tidy_def is_live_def is_pending_def nth_Cons' split: if_splits)

text \<open>Tapping is for good.\<close>

lemma tapped_step: "page_step parse_url lower p ev p' \<Longrightarrow> set (tapped p) \<subseteq> set (tapped p')"
  by (erule page_step.cases)
    (auto simp: href_observer_def mount_begin_def unmount_def mount_player_def mount_prefs_def buildGraph_built throw_def
      split: option.split phase.split prod.split)

interpretation tapping: kept "page_step parse_url lower" "\<lambda>p. v \<in> set (tapped p)" for parse_url lower v
  by unfold_locales (use tapped_step in blast)

subsection \<open>A page that can happen\<close>

definition alice_url :: url_parser where
  "alice_url h = Some (js ''twitch.tv'', js ''/alice'')"

definition alice_loc :: ChannelLocation where
  "alice_loc = \<lparr>platform = Twitch, channelName = js ''alice'', channelID = js ''twitch:'' @ js ''alice''\<rparr>"

lemma alice: "detectChannel alice_url id h = Some alice_loc"
  unfolding detectChannel_iff
proof
  have "js ''alice'' \<notin> set TWITCH_RESERVED" by (simp add: TWITCH_RESERVED_def)
  then show "location_ok alice_loc"
    by (simp add: location_ok_def alice_loc_def name_ok_def js_Cons in_class_def name_class_def word_le_nat_alt)
  have "strip_www (js ''twitch.tv'') = js ''twitch.tv''" by (simp add: strip_www_def startsWith_def js_Cons)
  moreover have "filter (\<lambda>s. s \<noteq> []) (split_slash (js ''/alice'')) = [js ''alice'']" by (simp add: js_Cons)
  ultimately show "\<exists>hostname pathname seg segs. alice_url h = Some (hostname, pathname)
      \<and> strip_www hostname = host_of (platform alice_loc)
      \<and> filter (\<lambda>s. s \<noteq> []) (split_slash pathname) = seg # segs \<and> id seg = channelName alice_loc"
    by (simp add: alice_url_def alice_loc_def)
qed

definition hooks_on :: "nat \<Rightarrow> nat PlayerHooks" where
  "hooks_on v = \<lparr>video = v, controlBar = 0\<rparr>"

definition page0 :: "nat Page" where
  "page0 = script alice_url id (js ''1'')"

text \<open>A mount that goes through, then a navigation; and one that is overtaken by a navigation.\<close>

definition page2 :: "nat Page" where
  "page2 = mount_prefs 0 Map.empty Map.empty True None (mount_player 0 (Some (hooks_on 7)) page0)"

definition page3 :: "nat Page" where
  "page3 = href_observer alice_url id [] (page2\<lparr>href := js ''2''\<rparr>)"

definition raced2 :: "nat Page" where
  "raced2 = href_observer alice_url id [] (page0\<lparr>href := js ''2''\<rparr>)"

definition raced4 :: "nat Page" where
  "raced4 = mount_player 1 (Some (hooks_on 8)) (mount_player 0 (Some (hooks_on 7)) raced2)"

definition raced6 :: "nat Page" where
  "raced6 = mount_prefs 1 Map.empty Map.empty True None (mount_prefs 0 Map.empty Map.empty True None raced4)"

definition fresh_session :: Session where
  "fresh_session = \<lparr>relay = connect, content = init_state built Map.empty Map.empty True, area = None\<rparr>"

lemma page0_eq:
  "page0 = \<lparr>href = js ''1'', lastHref = js ''1'', tapped = [], mounts = [\<lparr>mloc = alice_loc, phase = Waiting\<rparr>], active = None\<rparr>"
  by (simp add: page0_def script_def mount_begin_def alice)

lemma page1_eq:
  "mount_player 0 (Some (hooks_on 7)) page0
     = \<lparr>href = js ''1'', lastHref = js ''1'', tapped = [7], mounts = [\<lparr>mloc = alice_loc, phase = Loading built\<rparr>], active = None\<rparr>"
  by (simp add: page0_eq mount_player_def hooks_on_def buildGraph_built set_phase_def)

lemma page2_eq:
  "page2 = \<lparr>href = js ''1'', lastHref = js ''1'', tapped = [7],
      mounts = [\<lparr>mloc = alice_loc, phase = Live fresh_session\<rparr>], active = Some 0\<rparr>"
  by (simp add: page2_def page1_eq mount_prefs_def set_phase_def fresh_session_def)

lemma page2_calm: "run (calm_step alice_url id) page0 page2"
proof -
  have "calm_step alice_url id page0 (PlayerSettles 0 (Some (hooks_on 7))) (mount_player 0 (Some (hooks_on 7)) page0)"
    unfolding calm_step_def by (intro conjI page_step.player) (simp_all add: page0_eq)
  moreover have "calm_step alice_url id (mount_player 0 (Some (hooks_on 7)) page0)
      (PrefsSettle 0 Map.empty Map.empty True None) page2"
    unfolding calm_step_def page2_def by (intro conjI page_step.prefs) (simp_all add: page1_eq)
  ultimately show ?thesis by (rule run_step [OF run_single])
qed

lemma calm_run: "run (calm_step parse_url lower) p q \<Longrightarrow> page_run parse_url lower p q"
proof (induction rule: run.induct)
  case (run_step p q ev q')
  then have "page_step parse_url lower q ev q'" by (simp add: calm_step_def)
  with run_step.IH show ?case by (rule run.run_step)
qed (rule run_refl)

lemmas page2_run = calm_run [OF page2_calm]

lemma page3_run: "page_run alice_url id page2 page3"
proof -
  have "page_step alice_url id page2 (Navigate (js ''2'')) (page2\<lparr>href := js ''2''\<rparr>)" by (rule page_step.navigate)
  moreover have "page_step alice_url id (page2\<lparr>href := js ''2''\<rparr>) (Mutation []) page3"
    unfolding page3_def by (rule page_step.mutation)
      (simp add: lane_keys_def page2_eq fresh_session_def init_state_def Let_def)
  ultimately show ?thesis by (rule run_step [OF run_single])
qed

lemma page3_mounts: "length (mounts page3) = 2"
  by (simp add: page3_def page2_eq href_observer_def unmount_def mount_begin_def alice set_phase_def split: prod.split)

lemma raced2_eq:
  "raced2 = \<lparr>href = js ''2'', lastHref = js ''2'', tapped = [],
      mounts = [\<lparr>mloc = alice_loc, phase = Waiting\<rparr>, \<lparr>mloc = alice_loc, phase = Waiting\<rparr>], active = None\<rparr>"
  by (simp add: raced2_def page0_eq href_observer_def unmount_def mount_begin_def alice)

lemma raced4_eq:
  "raced4 = \<lparr>href = js ''2'', lastHref = js ''2'', tapped = [8, 7],
      mounts = [\<lparr>mloc = alice_loc, phase = Loading built\<rparr>, \<lparr>mloc = alice_loc, phase = Loading built\<rparr>], active = None\<rparr>"
  by (simp add: raced4_def raced2_eq mount_player_def hooks_on_def buildGraph_built set_phase_def)

lemma raced6_eq:
  "raced6 = \<lparr>href = js ''2'', lastHref = js ''2'', tapped = [8, 7],
      mounts = [\<lparr>mloc = alice_loc, phase = Live fresh_session\<rparr>, \<lparr>mloc = alice_loc, phase = Live fresh_session\<rparr>],
      active = Some 1\<rparr>"
  by (simp add: raced6_def raced4_eq mount_prefs_def set_phase_def fresh_session_def)

lemma raced_run: "page_run alice_url id page0 raced6"
proof -
  let ?p1 = "page0\<lparr>href := js ''2''\<rparr>"
  let ?p3 = "mount_player 0 (Some (hooks_on 7)) raced2" and ?p5 = "mount_prefs 0 Map.empty Map.empty True None raced4"
  have "page_step alice_url id page0 (Navigate (js ''2'')) ?p1" by (rule page_step.navigate)
  then have "page_run alice_url id page0 ?p1" by (rule run_single)
  moreover have "page_step alice_url id ?p1 (Mutation []) raced2"
    unfolding raced2_def by (rule page_step.mutation) (simp add: lane_keys_def page0_eq)
  ultimately have "page_run alice_url id page0 raced2" by (rule run_step)
  moreover have "page_step alice_url id raced2 (PlayerSettles 0 (Some (hooks_on 7))) ?p3"
    by (rule page_step.player) (simp_all add: raced2_eq)
  ultimately have "page_run alice_url id page0 ?p3" by (rule run_step)
  moreover have "page_step alice_url id ?p3 (PlayerSettles 1 (Some (hooks_on 8))) raced4"
    unfolding raced4_def
    by (rule page_step.player) (simp_all add: raced2_eq mount_player_def hooks_on_def buildGraph_built set_phase_def)
  ultimately have "page_run alice_url id page0 raced4" by (rule run_step)
  moreover have "page_step alice_url id raced4 (PrefsSettle 0 Map.empty Map.empty True None) ?p5"
    by (rule page_step.prefs) (simp_all add: raced4_eq)
  ultimately have "page_run alice_url id page0 ?p5" by (rule run_step)
  moreover have "page_step alice_url id ?p5 (PrefsSettle 1 Map.empty Map.empty True None) raced6"
    unfolding raced6_def by (rule page_step.prefs) (simp_all add: raced4_eq mount_prefs_def set_phase_def)
  ultimately show ?thesis by (rule run_step)
qed

subsection \<open>Properties\<close>

text \<open>
  C7: one mixer at a time. As long as no navigation happens while a mount is under way, at most one
  mixer of a page is live at any time, and it is the active one, which \<^verbatim>\<open>unmount\<close> takes down.
\<close>

theorem one_mixer_at_a_time:
  assumes "run (calm_step parse_url lower) (script parse_url lower h) p" "is_live p i" "is_live p j"
  shows "i = j \<and> active p = Some i"
proof -
  have "tidy p" using calm.run_inv [OF assms(1) conjI [OF script_inv script_tidy]] by simp
  with assms(2,3) have "active p = Some i" "active p = Some j" unfolding tidy_def by blast+
  then show ?thesis by simp
qed

theorem one_mixer_at_a_time_witness: "is_live page2 0 \<and> active page2 = Some 0"
proof -
  have l: "is_live page2 0" by (simp add: is_live_def page2_eq)
  from one_mixer_at_a_time [OF page2_calm [unfolded page0_def] l l] l show ?thesis by simp
qed

text \<open>
  C15: every live mixer of a page, however many navigations raced, satisfies the invariant of its
  session; the active one is live; and every mixer that was taken down has a closed client, no
  lanes and a closed audio context.
\<close>

theorem mixers_of_a_page:
  assumes "page_run parse_url lower (script parse_url lower h) p"
  shows "(\<forall>i. active p = Some i \<longrightarrow> is_live p i) \<and> list_all (\<lambda>m. phase_ok (phase m)) (mounts p)"
  using page.run_inv [OF assms script_inv] by (simp add: page_inv_def)

theorem mixers_of_a_page_witness:
  "length (mounts page3) = 2 \<and> list_all (\<lambda>m. phase_ok (phase m)) (mounts page3)"
  using page3_mounts mixers_of_a_page [OF run_trans [OF page3_run page2_run, unfolded page0_def]] by simp

text \<open>
  C35: a video element serves one mixer only. Once an element has been tapped, every later mount that
  finds this element ends without a mixer, for the rest of the page's life.
\<close>

theorem tapped_video_never_again:
  assumes "v \<in> set (tapped p)" "page_run parse_url lower p p'"
    and "i < length (mounts p')" "video h = v"
  shows "phase (mounts (mount_player i (Some h) p') ! i) = Ended
    \<and> active (mount_player i (Some h) p') = active p'"
proof -
  have "v \<in> set (tapped p')" by (rule tapping.run_inv [OF assms(2,1)])
  with assms(3,4) show ?thesis by (simp add: mount_player_def buildGraph_built throw_def)
qed

theorem tapped_video_never_again_witness: "phase (mounts (mount_player 1 (Some (hooks_on 7)) page3) ! 1) = Ended"
  using tapped_video_never_again [of 7 page2, OF _ page3_run, of 1 "hooks_on 7"]
  by (simp add: page3_mounts hooks_on_def) (simp add: page2_eq)


end
