(* ===== verification/MockPublisher.thy ===== *)
theory MockPublisher
  imports Messages JsUri
begin

text \<open>
  \<^verbatim>\<open>tools/mock-publisher/src/main.ts\<close>: a publisher that announces three tracks and sends synthetic
  audio and fingerprints on two timers.

  The process is a state (its sequence counters, what it has sent, its timers) with one handler per
  callback; a handler that throws ends the process, so handlers return a result. The random bytes
  and hashes and the clock are arguments.
\<close>

subsection \<open>Arguments\<close>

record Args =
  url_arg :: "jsstring option"
  channel_arg :: "jsstring option"
  token_arg :: "jsstring option"

fun parse_loop :: "jsstring list \<Rightarrow> Args \<Rightarrow> Args" where
  "parse_loop [] out = out"
| "parse_loop (key # rest) out =
     (let val = (case rest of [] \<Rightarrow> None | v # _ \<Rightarrow> Some v) in
      if key = js ''--url'' then parse_loop (drop 1 rest) (out\<lparr>url_arg := val\<rparr>)
      else if key = js ''--channel'' then parse_loop (drop 1 rest) (out\<lparr>channel_arg := val\<rparr>)
      else if key = js ''--token'' then parse_loop (drop 1 rest) (out\<lparr>token_arg := val\<rparr>)
      else parse_loop rest out)"

text \<open>\<^verbatim>\<open>!value\<close>\<close>

definition missing :: "jsstring option \<Rightarrow> bool" where
  "missing v \<longleftrightarrow> v = None \<or> v = Some []"

text \<open>The arguments, or \<open>None\<close> when the usage is printed and the process exits with 2.\<close>

definition parseArgs :: "jsstring list \<Rightarrow> (jsstring \<times> jsstring \<times> jsstring) option" where
  "parseArgs argv =
     (let out = parse_loop argv \<lparr>url_arg = None, channel_arg = None, token_arg = None\<rparr>
      in if missing (url_arg out) \<or> missing (channel_arg out) \<or> missing (token_arg out) then None
         else Some (the (url_arg out), the (channel_arg out), the (token_arg out)))"

definition publish_url :: "jsstring \<times> jsstring \<times> jsstring \<Rightarrow> jsstring option" where
  "publish_url args =
     (case args of (u, c, tk) \<Rightarrow>
        Option.bind (encodeURIComponent c) (\<lambda>c.
        Option.bind (encodeURIComponent tk) (\<lambda>tk.
          Some (u @ js ''/publish?channel='' @ c @ js ''&token='' @ tk))))"

subsection \<open>The stream\<close>

definition TRACKS :: "TrackInfo list" where
  "TRACKS =
     [\<lparr>tid = nnum 1, slug = js ''mic'', category = js ''mic'', label = js ''Microphone''\<rparr>,
      \<lparr>tid = nnum 2, slug = js ''game'', category = js ''game'', label = js ''Game''\<rparr>,
      \<lparr>tid = nnum 3, slug = js ''music'', category = js ''music'', label = js ''Spotify''\<rparr>]"

definition HELLO :: HelloPayload where
  "HELLO = \<lparr>version = nnum 1, client = js ''mock-publisher/0.0.1'',
            audio = \<lparr>codec = js ''opus'', sampleRate = nnum 48000, channels = nnum 2, frameMs = nnum 20\<rparr>\<rparr>"

text \<open>\<open>sent\<close> is what was handed to \<^verbatim>\<open>ws.send\<close>; a socket that is shutting down drops it.\<close>

record Publisher =
  seqs :: "jsnum \<rightharpoonup> jsnum"
  sent :: "bytes list"
  timer :: bool
  fpTimer :: bool
  shutting :: bool
  exited :: bool

definition publisher :: Publisher where
  "publisher = \<lparr>seqs = [nnum 0 \<mapsto> nnum 0, nnum 1 \<mapsto> nnum 0, nnum 2 \<mapsto> nnum 0, nnum 3 \<mapsto> nnum 0],
                sent = [], timer = False, fpTimer = False, shutting = False, exited = False\<rparr>"

definition send :: "Frame \<Rightarrow> Publisher \<Rightarrow> Publisher result" where
  "send f st = bindR (encodeFrame f) (\<lambda>b. Inr (st\<lparr>sent := sent st @ [b]\<rparr>))"

definition mk_frame :: "MessageType \<Rightarrow> jsnum \<Rightarrow> jsnum \<Rightarrow> int \<Rightarrow> bytes \<Rightarrow> Frame" where
  "mk_frame ty tr sq now p =
     \<lparr>ftype = mt ty, track = tr, flags = nnum 0, seq = sq, timestampMs = now, payload = p\<rparr>"

definition on_open :: "int \<Rightarrow> int \<Rightarrow> Publisher \<Rightarrow> Publisher result" where
  "on_open now now' st =
     bindR (encodeHello HELLO) (\<lambda>p.
     bindR (send (mk_frame Hello (nnum CONTROL_TRACK) (nnum 0) now p) st) (\<lambda>st.
     bindR (encodeTrackList TRACKS) (\<lambda>p.
     bindR (send (mk_frame TrackList (nnum CONTROL_TRACK) (nnum 1) now' p) st) (\<lambda>st.
       Inr (st\<lparr>timer := True, fpTimer := True\<rparr>)))))"

text \<open>The loop of the 20 ms timer over the tracks and their random payloads.\<close>

fun audio_loop :: "int \<Rightarrow> (TrackInfo \<times> bytes) list \<Rightarrow> Publisher \<Rightarrow> Publisher result" where
  "audio_loop now [] st = Inr st"
| "audio_loop now ((t, buf) # ts) st =
     (let next = num_add (case seqs st (tid t) of None \<Rightarrow> nnum 0 | Some n \<Rightarrow> n) (nnum 1)
      in bindR (send (mk_frame AudioOpus (tid t) next now buf) (st\<lparr>seqs := (seqs st)(tid t \<mapsto> next)\<rparr>))
           (audio_loop now ts))"

definition audio_tick :: "int \<Rightarrow> bytes list \<Rightarrow> Publisher \<Rightarrow> Publisher result" where
  "audio_tick now bufs st = audio_loop now (zip TRACKS bufs) st"

text \<open>The hash of a fingerprint from two draws below \<open>2 ^ 31\<close>.\<close>

definition random_hash :: "nat \<times> nat \<Rightarrow> int" where
  "random_hash r = or (push_bit 32 (int (fst r))) (int (snd r))"

fun fp_loop :: "int \<Rightarrow> (TrackInfo \<times> nat \<times> nat) list \<Rightarrow> Publisher \<Rightarrow> Publisher result" where
  "fp_loop now [] st = Inr st"
| "fp_loop now ((t, r) # ts) st =
     (let next = num_add (case seqs st (tid t) of None \<Rightarrow> NaN | Some n \<Rightarrow> n) (nnum 1)
      in bindR (send (mk_frame Fingerprint (tid t) next now
                        (encodeFingerprint \<lparr>hash = random_hash r, windowMs = nnum 1000\<rparr>))
                  (st\<lparr>seqs := (seqs st)(tid t \<mapsto> next)\<rparr>))
           (fp_loop now ts))"

definition fp_tick :: "int \<Rightarrow> (nat \<times> nat) list \<Rightarrow> Publisher \<Rightarrow> Publisher result" where
  "fp_tick now rs st = fp_loop now (zip TRACKS rs) st"

definition on_close :: "Publisher \<Rightarrow> Publisher" where
  "on_close st =
     (let st = (if timer st then st\<lparr>timer := False\<rparr> else st);
          st = (if fpTimer st then st\<lparr>fpTimer := False\<rparr> else st)
      in st\<lparr>exited := True\<rparr>)"

definition on_sigint :: "Publisher \<Rightarrow> Publisher" where
  "on_sigint st = st\<lparr>shutting := True\<rparr>"

subsection \<open>The process\<close>

datatype pub_event =
    Opened int int
  | AudioTick int "bytes list"
  | FpTick int "(nat \<times> nat) list"
  | SockClosed
  | Sigint

definition clock_ok :: "int \<Rightarrow> bool" where
  "clock_ok now \<longleftrightarrow> 0 \<le> now \<and> now \<le> 0xffffffffffffffff"

definition bufs_ok :: "bytes list \<Rightarrow> bool" where
  "bufs_ok bufs \<longleftrightarrow> length bufs = length TRACKS \<and> list_all (\<lambda>b. length b = 64) bufs"

definition draws_ok :: "(nat \<times> nat) list \<Rightarrow> bool" where
  "draws_ok rs \<longleftrightarrow> length rs = length TRACKS \<and> list_all (\<lambda>r. fst r < 2 ^ 31 \<and> snd r < 2 ^ 31) rs"

inductive pub_step :: "Publisher \<Rightarrow> pub_event \<Rightarrow> Publisher \<Rightarrow> bool" where
  opened: "sent st = [] \<Longrightarrow> \<not> exited st \<Longrightarrow> \<not> shutting st \<Longrightarrow> clock_ok now \<Longrightarrow> clock_ok now' \<Longrightarrow>
    on_open now now' st = Inr st' \<Longrightarrow> pub_step st (Opened now now') st'"
| audio: "timer st \<Longrightarrow> clock_ok now \<Longrightarrow> bufs_ok bufs \<Longrightarrow> audio_tick now bufs st = Inr st' \<Longrightarrow>
    pub_step st (AudioTick now bufs) st'"
| fp: "fpTimer st \<Longrightarrow> clock_ok now \<Longrightarrow> draws_ok rs \<Longrightarrow> fp_tick now rs st = Inr st' \<Longrightarrow>
    pub_step st (FpTick now rs) st'"
| closed: "\<not> exited st \<Longrightarrow> pub_step st SockClosed (on_close st)"
| sigint: "\<not> exited st \<Longrightarrow> pub_step st Sigint (on_sigint st)"

subsection \<open>What is sent\<close>

lemma TRACKS_wf: "track_list_wf TRACKS"
proof -
  have "slot_ok (nnum 1)" "slot_ok (nnum 2)" "slot_ok (nnum 3)" unfolding slot_ok_def MAX_TRACK_SLOT_def
    by (rule exI [of _ 1], simp) (rule exI [of _ 2], simp, rule exI [of _ 3], simp)
  moreover have "isPresetCategory (js ''mic'')" "isPresetCategory (js ''game'')" "isPresetCategory (js ''music'')"
    by (simp_all add: isPresetCategory_def PRESET_CATEGORIES_def)
  moreover have "isValidSlug (js ''mic'')" "isValidSlug (js ''game'')" "isValidSlug (js ''music'')"
    by (simp_all add: isValidSlug_rule slug_rule_def slug_char_def js_Cons in_class_def alnum_class_def word_le_nat_alt)
  ultimately show ?thesis by (simp add: TRACKS_def track_list_wf_def track_wf_def MAX_TRACK_SLOT_def)
qed

lemma TRACKS_plain: "list_all (\<lambda>t. plain_text (label t)) TRACKS"
  unfolding TRACKS_def by (simp add: js_plain del: js_Cons)

lemma HELLO_wf: "hello_wf HELLO"
  by (simp add: hello_wf_def HELLO_def)

lemma TRACKS_slot: "t \<in> set TRACKS \<Longrightarrow> \<exists>k. 1 \<le> k \<and> k \<le> 3 \<and> tid t = nnum k"
  unfolding TRACKS_def by (auto intro: exI [of _ 1] exI [of _ 2] exI [of _ 3])

lemma mk_frame_wf:
  assumes "MessageType_value ty \<in> set KNOWN_TYPES" "k \<le> MAX_TRACK_SLOT" "n \<le> 0xffffffff" "clock_ok now"
    and "length p \<le> MAX_PAYLOAD_BYTES"
  shows "frame_wf (mk_frame ty (nnum k) (nnum n) now p)"
  unfolding frame_wf_def mk_frame_def
  using assms by (intro conjI exI [of _ "MessageType_value ty"] exI [of _ k] exI [of _ 0] exI [of _ n])
    (simp_all add: clock_ok_def)

lemma mk_frame_sel [simp]:
  "ftype (mk_frame ty tr sq now p) = mt ty" "track (mk_frame ty tr sq now p) = tr"
  "seq (mk_frame ty tr sq now p) = sq" "payload (mk_frame ty tr sq now p) = p"
  by (simp_all add: mk_frame_def)

lemma send_wf:
  assumes "frame_wf f"
  obtains b where "send f st = Inr (st\<lparr>sent := sent st @ [b]\<rparr>)" "decodeFrame b = Inr f"
  using encode_wf [OF assms] that by (auto simp: send_def)

lemma num_add_Suc: "n < 2 ^ 53 \<Longrightarrow> num_add (nnum n) (nnum 1) = nnum (Suc n)"
  using to_double_id [OF is_double_nat [of "Suc n"]] by (simp add: add.commute)

lemma send_overflow: "n > 0xffffffff \<Longrightarrow> send (mk_frame ty tr (nnum n) now p) st \<noteq> Inr st'"
  by (auto simp: send_def encodeFrame_Inr frame_in_range_def)

subsection \<open>Counters\<close>

text \<open>
  \<open>logged st fs\<close>: what was sent decodes to \<open>fs\<close>, and on every announced track the sequence numbers
  are 1, 2, 3 and so on up to the counter.
\<close>

definition counted :: "Publisher \<Rightarrow> Frame list \<Rightarrow> TrackInfo \<Rightarrow> nat \<Rightarrow> bool" where
  "counted st fs t n \<longleftrightarrow>
     seqs st (tid t) = Some (nnum n) \<and> n \<le> 0xffffffff
     \<and> map seq (filter (\<lambda>f. track f = tid t) fs) = map nnum [1..<Suc n]"

definition logged :: "Publisher \<Rightarrow> Frame list \<Rightarrow> bool" where
  "logged st fs \<longleftrightarrow> map decodeFrame (sent st) = map Inr fs \<and> (\<forall>t\<in>set TRACKS. \<exists>n. counted st fs t n)"

lemma logged_cong: "sent st' = sent st \<Longrightarrow> seqs st' = seqs st \<Longrightarrow> logged st' fs = logged st fs"
  by (simp add: logged_def counted_def)

lemma TRACKS_inj: "t \<in> set TRACKS \<Longrightarrow> u \<in> set TRACKS \<Longrightarrow> tid t = tid u \<Longrightarrow> t = u"
  by (auto simp: TRACKS_def)

lemma send_counted:
  assumes "logged st fs" "t \<in> set TRACKS" "counted st fs t n" "clock_ok now" "length p \<le> MAX_PAYLOAD_BYTES"
    and "MessageType_value ty \<in> set KNOWN_TYPES" "n < 0xffffffff"
  defines "f \<equiv> mk_frame ty (tid t) (nnum (Suc n)) now p"
  shows "\<exists>st'. send f (st\<lparr>seqs := (seqs st)(tid t \<mapsto> nnum (Suc n))\<rparr>) = Inr st' \<and> logged st' (fs @ [f])
    \<and> timer st' = timer st \<and> fpTimer st' = fpTimer st \<and> exited st' = exited st \<and> counted st' (fs @ [f]) t (Suc n)
    \<and> (\<forall>u\<in>set TRACKS. u \<noteq> t \<longrightarrow> (\<forall>m. counted st fs u m \<longrightarrow> counted st' (fs @ [f]) u m))"
proof -
  let ?st = "st\<lparr>seqs := (seqs st)(tid t \<mapsto> nnum (Suc n))\<rparr>"
  obtain k where k: "tid t = nnum k" "k \<le> 3" using TRACKS_slot [OF assms(2)] by blast
  have "frame_wf f" unfolding f_def k using assms k by (intro mk_frame_wf) (simp_all add: MAX_TRACK_SLOT_def)
  then obtain b where b: "send f ?st = Inr (?st\<lparr>sent := sent ?st @ [b]\<rparr>)" "decodeFrame b = Inr f" by (rule send_wf)
  let ?st' = "?st\<lparr>sent := sent ?st @ [b]\<rparr>"
  have t: "counted ?st' (fs @ [f]) t (Suc n)"
    using assms(3,7) by (simp add: counted_def f_def)
  have u: "counted ?st' (fs @ [f]) u m" if "u \<in> set TRACKS" "u \<noteq> t" "counted st fs u m" for u m
    using that TRACKS_inj [OF that(1) assms(2)] by (auto simp: counted_def f_def)
  have "logged ?st' (fs @ [f])"
    unfolding logged_def
  proof
    show "map decodeFrame (sent ?st') = map Inr (fs @ [f])" using assms(1) b(2) by (simp add: logged_def)
    show "\<forall>v\<in>set TRACKS. \<exists>m. counted ?st' (fs @ [f]) v m"
      using assms(1) t u unfolding logged_def by blast
  qed
  with b(1) t u show ?thesis by (intro exI [of _ ?st']) simp
qed

text \<open>The frames of the two timers.\<close>

definition stream_frame :: "Frame \<Rightarrow> bool" where
  "stream_frame f \<longleftrightarrow>
     (\<exists>t\<in>set TRACKS. track f = tid t)
     \<and> (ftype f = mt AudioOpus \<and> length (payload f) = 64
        \<or> ftype f = mt Fingerprint \<and> (\<exists>h. decodeFingerprint (payload f) = Inr \<lparr>hash = h, windowMs = nnum 1000\<rparr>))"

definition same_timers :: "Publisher \<Rightarrow> Publisher \<Rightarrow> bool" where
  "same_timers st st' \<longleftrightarrow> timer st' = timer st \<and> fpTimer st' = fpTimer st \<and> exited st' = exited st"

lemma random_hash_wf: "fst r < 2 ^ 31 \<Longrightarrow> snd r < 2 ^ 31 \<Longrightarrow> fingerprint_wf \<lparr>hash = random_hash r, windowMs = nnum 1000\<rparr>"
proof -
  assume r: "fst r < 2 ^ 31" "snd r < 2 ^ 31"
  have "push_bit 32 (int (fst r)) < 2 ^ 63" "0 \<le> push_bit 32 (int (fst r))"
    using r by (simp_all add: push_bit_eq_mult)
  moreover have "int (snd r) < 2 ^ 63" using r by simp
  ultimately have "0 \<le> random_hash r" "random_hash r < 2 ^ 63"
    using OR_upper [of "push_bit 32 (int (fst r))" 63 "int (snd r)"] by (simp_all add: random_hash_def)
  then show ?thesis by (auto simp: fingerprint_wf_def intro!: exI [of _ 1000])
qed

lemma length_fingerprint: "length (encodeFingerprint p) = 10"
  using encodeFingerprint_layout [of p] by simp

text \<open>One iteration of either loop.\<close>

lemma next_frame:
  assumes "logged st fs" "t \<in> set TRACKS" "counted st fs t n" "clock_ok now" "length p \<le> MAX_PAYLOAD_BYTES"
    and "MessageType_value ty \<in> set KNOWN_TYPES"
    and "send (mk_frame ty (tid t) (num_add (nnum n) (nnum 1)) now p)
           (st\<lparr>seqs := (seqs st)(tid t \<mapsto> num_add (nnum n) (nnum 1))\<rparr>) = Inr st'"
  shows "logged st' (fs @ [mk_frame ty (tid t) (nnum (Suc n)) now p]) \<and> same_timers st st'"
proof -
  have n: "n \<le> 0xffffffff" using assms(3) by (simp add: counted_def)
  then have e: "num_add (nnum n) (nnum 1) = nnum (Suc n)" by (intro num_add_Suc) simp
  have "Suc n \<le> 0xffffffff" using send_overflow [of "Suc n"] assms(7) unfolding e by force
  then show ?thesis using send_counted [OF assms(1-6)] assms(7) unfolding e same_timers_def by auto
qed

lemma audio_loop_logged:
  "logged st fs \<Longrightarrow> set ts \<subseteq> set TRACKS \<times> {b. length b = 64} \<Longrightarrow> clock_ok now \<Longrightarrow> audio_loop now ts st = Inr st' \<Longrightarrow>
     \<exists>gs. logged st' (fs @ gs) \<and> list_all stream_frame gs \<and> same_timers st st'"
proof (induction ts arbitrary: st fs)
  case Nil
  then show ?case by (intro exI [of _ "[]"]) (simp add: same_timers_def)
next
  case (Cons x ts)
  obtain t b where x: "x = (t, b)" by (cases x)
  have t: "t \<in> set TRACKS" "length b = 64" using Cons.prems(2) by (auto simp: x)
  obtain n where n: "counted st fs t n" using Cons.prems(1) t(1) by (auto simp: logged_def)
  then have s: "seqs st (tid t) = Some (nnum n)" by (simp add: counted_def)
  let ?f = "mk_frame AudioOpus (tid t) (nnum (Suc n)) now b"
  obtain st1 where st1: "send (mk_frame AudioOpus (tid t) (num_add (nnum n) (nnum 1)) now b)
      (st\<lparr>seqs := (seqs st)(tid t \<mapsto> num_add (nnum n) (nnum 1))\<rparr>) = Inr st1" "audio_loop now ts st1 = Inr st'"
    using Cons.prems(4) by (auto simp: x s Let_def)
  have l: "logged st1 (fs @ [?f]) \<and> same_timers st st1"
    using t Cons.prems by (intro next_frame [OF Cons.prems(1) t(1) n _ _ _ st1(1)])
      (simp_all add: MAX_PAYLOAD_BYTES_def KNOWN_TYPES_def)
  moreover have "stream_frame ?f" using t by (auto simp: stream_frame_def)
  moreover obtain gs where "logged st' ((fs @ [?f]) @ gs)" "list_all stream_frame gs" "same_timers st1 st'"
    using Cons.IH [OF conjunct1 [OF l] _ Cons.prems(3) st1(2)] Cons.prems(2) by auto
  ultimately show ?case by (intro exI [of _ "?f # gs"]) (simp add: same_timers_def)
qed

lemma fp_loop_logged:
  "logged st fs \<Longrightarrow> set ts \<subseteq> set TRACKS \<times> {r. fst r < 2 ^ 31 \<and> snd r < 2 ^ 31} \<Longrightarrow> clock_ok now \<Longrightarrow> fp_loop now ts st = Inr st' \<Longrightarrow>
     \<exists>gs. logged st' (fs @ gs) \<and> list_all stream_frame gs \<and> same_timers st st'"
proof (induction ts arbitrary: st fs)
  case Nil
  then show ?case by (intro exI [of _ "[]"]) (simp add: same_timers_def)
next
  case (Cons x ts)
  obtain t r where x: "x = (t, r)" by (cases x)
  have t: "t \<in> set TRACKS" "fst r < 2 ^ 31" "snd r < 2 ^ 31" using Cons.prems(2) by (auto simp: x)
  let ?p = "encodeFingerprint \<lparr>hash = random_hash r, windowMs = nnum 1000\<rparr>"
  obtain n where n: "counted st fs t n" using Cons.prems(1) t(1) by (auto simp: logged_def)
  then have s: "seqs st (tid t) = Some (nnum n)" by (simp add: counted_def)
  let ?f = "mk_frame Fingerprint (tid t) (nnum (Suc n)) now ?p"
  obtain st1 where st1: "send (mk_frame Fingerprint (tid t) (num_add (nnum n) (nnum 1)) now ?p)
      (st\<lparr>seqs := (seqs st)(tid t \<mapsto> num_add (nnum n) (nnum 1))\<rparr>) = Inr st1" "fp_loop now ts st1 = Inr st'"
    using Cons.prems(4) by (auto simp: x s Let_def)
  have l: "logged st1 (fs @ [?f]) \<and> same_timers st st1"
    using t Cons.prems by (intro next_frame [OF Cons.prems(1) t(1) n _ _ _ st1(1)])
      (simp_all add: MAX_PAYLOAD_BYTES_def KNOWN_TYPES_def length_fingerprint)
  moreover have "decodeFingerprint ?p = Inr \<lparr>hash = random_hash r, windowMs = nnum 1000\<rparr>"
    by (rule fingerprint_codec.enc_dec [OF random_hash_wf [OF t(2,3)] refl])
  then have "stream_frame ?f" using t(1) by (auto simp: stream_frame_def)
  moreover obtain gs where "logged st' ((fs @ [?f]) @ gs)" "list_all stream_frame gs" "same_timers st1 st'"
    using Cons.IH [OF conjunct1 [OF l] _ Cons.prems(3) st1(2)] Cons.prems(2) by auto
  ultimately show ?case by (intro exI [of _ "?f # gs"]) (simp add: same_timers_def)
qed

subsection \<open>Opening\<close>

lemma on_open_sends:
  assumes "clock_ok now" "clock_ok now'"
  obtains h l b c where "on_open now now' st = Inr (st\<lparr>sent := sent st @ [b, c], timer := True, fpTimer := True\<rparr>)"
    "decodeHello h = Inr HELLO" "decodeFrame b = Inr (mk_frame Hello (nnum 0) (nnum 0) now h)"
    "encodeTrackList TRACKS = Inr l" "frame_wf (mk_frame TrackList (nnum 0) (nnum 1) now' l)"
    "encodeFrame (mk_frame TrackList (nnum 0) (nnum 1) now' l) = Inr c"
proof -
  obtain h where h: "encodeHello HELLO = Inr h" using encodeHello_total [OF HELLO_wf] by blast
  obtain l where l: "encodeTrackList TRACKS = Inr l" using encodeTrackList_total [OF TRACKS_wf TRACKS_plain] by blast
  have "length h \<le> MAX_PAYLOAD_BYTES" "length l \<le> MAX_PAYLOAD_BYTES"
    using h l by (auto simp: encodeHello_def encodeTrackList_def encodeJson_def Let_def throw_def
        MAX_JSON_BYTES_def MAX_PAYLOAD_BYTES_def split: if_splits)
  then have w: "frame_wf (mk_frame Hello (nnum 0) (nnum 0) now h)" "frame_wf (mk_frame TrackList (nnum 0) (nnum 1) now' l)"
    using assms by (intro mk_frame_wf; simp add: KNOWN_TYPES_def)+
  obtain b where b: "encodeFrame (mk_frame Hello (nnum 0) (nnum 0) now h) = Inr b"
    "decodeFrame b = Inr (mk_frame Hello (nnum 0) (nnum 0) now h)" using encode_wf [OF w(1)] by blast
  obtain c where c: "encodeFrame (mk_frame TrackList (nnum 0) (nnum 1) now' l) = Inr c" using encode_wf [OF w(2)] by blast
  have "on_open now now' st = Inr (st\<lparr>sent := sent st @ [b, c], timer := True, fpTimer := True\<rparr>)"
    using h l b(1) c by (simp add: on_open_def send_def CONTROL_TRACK_def)
  from that [OF this hello_codec.enc_dec [OF HELLO_wf h] b(2) l w(2) c] show thesis .
qed

definition announced :: "Frame list \<Rightarrow> bool" where
  "announced fs \<longleftrightarrow>
     fs = [] \<or> (\<exists>h l gs. fs = h # l # gs
       \<and> ftype h = mt Hello \<and> track h = nnum 0 \<and> decodeHello (payload h) = Inr HELLO
       \<and> ftype l = mt TrackList \<and> track l = nnum 0 \<and> decodeTrackList (payload l) = Inr TRACKS
       \<and> list_all stream_frame gs)"

lemma announced_append: "announced fs \<Longrightarrow> fs \<noteq> [] \<Longrightarrow> list_all stream_frame gs \<Longrightarrow> announced (fs @ gs)"
  by (auto simp: announced_def)

text \<open>The timers run only after the two announcements.\<close>

definition pub_inv :: "Publisher \<Rightarrow> bool" where
  "pub_inv st \<longleftrightarrow> (\<exists>fs. logged st fs \<and> announced fs \<and> (timer st \<or> fpTimer st \<longrightarrow> fs \<noteq> []))
     \<and> (exited st \<longrightarrow> \<not> timer st \<and> \<not> fpTimer st)"

lemma tick_inv:
  assumes "pub_inv st" "timer st \<or> fpTimer st" "same_timers st st'"
    and "\<And>fs. logged st fs \<Longrightarrow> \<exists>gs. logged st' (fs @ gs) \<and> list_all stream_frame gs"
  shows "pub_inv st'"
proof -
  obtain fs where fs: "logged st fs" "announced fs" "fs \<noteq> []" using assms(1,2) by (auto simp: pub_inv_def)
  from assms(4) [OF fs(1)] obtain gs where "logged st' (fs @ gs)" "list_all stream_frame gs" by blast
  with fs announced_append have "logged st' (fs @ gs) \<and> announced (fs @ gs) \<and> fs @ gs \<noteq> []" by simp
  with assms(1,3) show ?thesis unfolding pub_inv_def same_timers_def by metis
qed

lemma opened_logged:
  assumes "logged st []" "sent st' = [b, c]" "seqs st' = seqs st" "decodeFrame b = Inr f" "decodeFrame c = Inr g"
    and "track f = nnum 0" "track g = nnum 0"
  shows "logged st' [f, g]"
  unfolding logged_def
proof
  show "map decodeFrame (sent st') = map Inr [f, g]" by (simp add: assms)
  show "\<forall>t\<in>set TRACKS. \<exists>n. counted st' [f, g] t n"
  proof
    fix t assume t: "t \<in> set TRACKS"
    then obtain n where "counted st [] t n" using assms(1) by (auto simp: logged_def)
    moreover obtain k where "tid t = nnum k" "1 \<le> k" using TRACKS_slot [OF t] by blast
    ultimately show "\<exists>n. counted st' [f, g] t n" using assms(3,6,7) by (auto simp: counted_def)
  qed
qed

lemma pub_inv_step:
  assumes "pub_inv st" "pub_step st ev st'"
  shows "pub_inv st'"
  using assms(2)
proof cases
  case (opened now now')
  obtain fs where "logged st fs" using assms(1) by (auto simp: pub_inv_def)
  with opened(2) have l0: "logged st []" by (auto simp: logged_def)
  obtain h l b c where o: "on_open now now' st = Inr (st\<lparr>sent := sent st @ [b, c], timer := True, fpTimer := True\<rparr>)"
    "decodeHello h = Inr HELLO" "decodeFrame b = Inr (mk_frame Hello (nnum 0) (nnum 0) now h)"
    "encodeTrackList TRACKS = Inr l" "frame_wf (mk_frame TrackList (nnum 0) (nnum 1) now' l)"
    "encodeFrame (mk_frame TrackList (nnum 0) (nnum 1) now' l) = Inr c" by (rule on_open_sends [OF opened(5,6)])
  let ?f = "mk_frame Hello (nnum 0) (nnum 0) now h" and ?g = "mk_frame TrackList (nnum 0) (nnum 1) now' l"
  have "logged st' [?f, ?g]"
    using opened(2,7) o(1) by (intro opened_logged [OF l0 _ _ o(3) frame_codec.enc_dec [OF o(5,6)]]) auto
  moreover have "announced [?f, ?g]"
    using o(2) track_list_codec.enc_dec [OF TRACKS_wf o(4)] by (simp add: announced_def)
  moreover have "\<not> exited st'" using opened(3,7) o(1) by auto
  ultimately show ?thesis unfolding pub_inv_def by blast
next
  case (audio now bufs)
  have "set (zip TRACKS bufs) \<subseteq> set TRACKS \<times> {b. length b = 64}"
    using audio(4) by (auto simp: bufs_ok_def list_all_iff dest: set_zip_leftD set_zip_rightD)
  note l = audio_loop_logged [OF _ this audio(3) audio(5) [unfolded audio_tick_def]]
  obtain fs where "logged st fs" using assms(1) by (auto simp: pub_inv_def)
  with l have "same_timers st st'" by blast
  with audio(2) l show ?thesis by (intro tick_inv [OF assms(1)]) blast+
next
  case (fp now rs)
  have "set (zip TRACKS rs) \<subseteq> set TRACKS \<times> {r. fst r < 2 ^ 31 \<and> snd r < 2 ^ 31}"
    using fp(4) by (auto simp: draws_ok_def list_all_iff dest: set_zip_leftD set_zip_rightD)
  note l = fp_loop_logged [OF _ this fp(3) fp(5) [unfolded fp_tick_def]]
  obtain fs where "logged st fs" using assms(1) by (auto simp: pub_inv_def)
  with l have "same_timers st st'" by blast
  with fp(2) l show ?thesis by (intro tick_inv [OF assms(1)]) blast+
next
  case closed
  have "sent st' = sent st" "seqs st' = seqs st" "\<not> timer st'" "\<not> fpTimer st'"
    by (simp_all add: closed on_close_def Let_def)
  with assms(1) show ?thesis by (auto simp: pub_inv_def logged_cong [of st' st])
next
  case sigint
  have "sent st' = sent st" "seqs st' = seqs st" "timer st' = timer st" "fpTimer st' = fpTimer st" "exited st' = exited st"
    by (simp_all add: sigint on_sigint_def)
  with assms(1) show ?thesis by (simp add: pub_inv_def logged_cong [of st' st])
qed

interpretation publishing: kept pub_step pub_inv
  by unfold_locales (rule pub_inv_step)

lemma publisher_inv: "pub_inv publisher"
proof -
  have "\<forall>t\<in>set TRACKS. \<exists>n. counted publisher [] t n"
    by (auto simp: TRACKS_def counted_def publisher_def intro!: exI [of _ 0])
  then show ?thesis by (auto simp: pub_inv_def logged_def announced_def) (simp_all add: publisher_def)
qed

subsection \<open>The timers never throw\<close>

lemma audio_loop_total:
  assumes "logged st fs" "distinct (map fst ts)" "set ts \<subseteq> set TRACKS \<times> {b. length b = 64}" "clock_ok now"
    and "\<And>t. t \<in> fst ` set ts \<Longrightarrow> \<exists>n < 0xffffffff. counted st fs t n"
  shows "\<exists>st'. audio_loop now ts st = Inr st'"
  using assms
proof (induction ts arbitrary: st fs)
  case (Cons x ts)
  obtain t b where x: "x = (t, b)" by (cases x)
  have t: "t \<in> set TRACKS" "length b = 64" using Cons.prems(3) by (auto simp: x)
  obtain n where n: "counted st fs t n" "n < 0xffffffff" using Cons.prems(5) [of t] by (auto simp: x)
  then have e: "num_add (nnum n) (nnum 1) = nnum (Suc n)" "seqs st (tid t) = Some (nnum n)"
    using num_add_Suc [of n] by (simp_all add: counted_def)
  let ?f = "mk_frame AudioOpus (tid t) (nnum (Suc n)) now b"
  obtain st1 where st1: "send ?f (st\<lparr>seqs := (seqs st)(tid t \<mapsto> nnum (Suc n))\<rparr>) = Inr st1" "logged st1 (fs @ [?f])"
    "\<And>u m. u \<in> set TRACKS \<Longrightarrow> u \<noteq> t \<Longrightarrow> counted st fs u m \<Longrightarrow> counted st1 (fs @ [?f]) u m"
    using send_counted [OF Cons.prems(1) t(1) n(1) Cons.prems(4) _ _ n(2), of b AudioOpus] t(2)
    by (auto simp: MAX_PAYLOAD_BYTES_def KNOWN_TYPES_def)
  have "\<exists>m < 0xffffffff. counted st1 (fs @ [?f]) u m" if u: "u \<in> fst ` set ts" for u
  proof -
    have "u \<noteq> t" using Cons.prems(2) u by (auto simp: x)
    moreover have "u \<in> set TRACKS" using Cons.prems(3) u by auto
    moreover obtain m where "m < 0xffffffff" "counted st fs u m" using Cons.prems(5) [of u] u by auto
    ultimately show ?thesis using st1(3) by blast
  qed
  with Cons.IH [OF st1(2) _ _ Cons.prems(4)] Cons.prems(2,3) obtain st' where "audio_loop now ts st1 = Inr st'" by auto
  with st1(1) show ?case unfolding x audio_loop.simps Let_def e option.case e by simp
qed simp

subsection \<open>The command line\<close>

definition OPTIONS :: "jsstring list" where
  "OPTIONS = [js ''--url'', js ''--channel'', js ''--token'']"

definition command_line :: "(jsstring \<times> jsstring) list \<Rightarrow> jsstring list" where
  "command_line ps = concat (map (\<lambda>(k, v). [k, v]) ps)"

definition later :: "(jsstring \<times> jsstring) list \<Rightarrow> jsstring \<Rightarrow> jsstring option \<Rightarrow> jsstring option" where
  "later ps k d = (case map_of (rev ps) k of None \<Rightarrow> d | Some v \<Rightarrow> Some v)"

lemma later_Cons: "later ((k, v) # ps) l d = later ps l (if l = k then Some v else d)"
  by (simp add: later_def map_add_def split: option.split)

lemma parse_loop_pairs:
  "list_all (\<lambda>p. fst p \<in> set OPTIONS) ps \<Longrightarrow>
     parse_loop (command_line ps) out
       = \<lparr>url_arg = later ps (js ''--url'') (url_arg out), channel_arg = later ps (js ''--channel'') (channel_arg out),
          token_arg = later ps (js ''--token'') (token_arg out)\<rparr>"
proof (induction ps arbitrary: out)
  case Nil
  then show ?case by (simp add: command_line_def later_def)
next
  case (Cons p ps)
  obtain k v where p: "p = (k, v)" by (cases p)
  have "command_line ((k, v) # ps) = k # v # command_line ps" by (simp add: command_line_def)
  then show ?case using Cons by (auto simp: p OPTIONS_def later_Cons simp del: js_Cons)
qed

subsection \<open>Properties\<close>

text \<open>
  C37: everything the publisher ever sends decodes. Its stream is empty or starts with its HELLO and
  its TRACK\_LIST, which decode to what it announces; every later frame is 64 bytes of audio or a
  valid fingerprint on an announced track; and the sequence numbers on each track are 1, 2, 3 and
  so on with no gap and no repetition, over both timers together.
\<close>

theorem published_stream:
  assumes "run pub_step publisher st"
  shows "\<exists>fs. map decodeFrame (sent st) = map Inr fs \<and> announced fs
    \<and> (\<forall>t\<in>set TRACKS. \<exists>n. map seq (filter (\<lambda>f. track f = tid t) fs) = map nnum [1..<Suc n])"
proof -
  have "pub_inv st" by (rule publishing.run_inv [OF assms publisher_inv])
  then obtain fs where "logged st fs" "announced fs" by (auto simp: pub_inv_def)
  then show ?thesis unfolding logged_def counted_def by blast
qed

lemma opens: "\<exists>st. on_open 0 0 publisher = Inr st \<and> timer st \<and> seqs st = seqs publisher \<and> run pub_step publisher st"
proof -
  have c: "clock_ok 0" by (simp add: clock_ok_def)
  obtain h l b c' where o: "on_open 0 0 publisher = Inr (publisher\<lparr>sent := sent publisher @ [b, c'], timer := True, fpTimer := True\<rparr>)"
    by (rule on_open_sends [OF c c]) blast
  moreover have "run pub_step publisher (publisher\<lparr>sent := sent publisher @ [b, c'], timer := True, fpTimer := True\<rparr>)"
    by (rule run_single) (rule pub_step.opened [OF _ _ _ c c o], simp_all add: publisher_def)
  ultimately show ?thesis by auto
qed

theorem published_stream_witness:
  "\<exists>st fs. on_open 0 0 publisher = Inr st \<and> map decodeFrame (sent st) = map Inr fs \<and> announced fs"
  using opens published_stream by blast

text \<open>
  C38: the audio timer of a running publisher never throws before a sequence counter reaches the
  largest 32-bit number, whatever the random bytes are.
\<close>

theorem audio_tick_succeeds:
  assumes "run pub_step publisher st" "clock_ok now" "bufs_ok bufs"
    and "\<forall>t\<in>set TRACKS. seqs st (tid t) \<noteq> Some (nnum 0xffffffff)"
  shows "\<exists>st'. audio_tick now bufs st = Inr st'"
proof -
  have "pub_inv st" by (rule publishing.run_inv [OF assms(1) publisher_inv])
  then obtain fs where l: "logged st fs" by (auto simp: pub_inv_def)
  have "\<exists>n < 0xffffffff. counted st fs t n" if t: "t \<in> set TRACKS" for t
  proof -
    obtain n where n: "counted st fs t n" using l t by (auto simp: logged_def)
    with assms(4) t have "n \<noteq> 0xffffffff" by (auto simp: counted_def)
    with n show ?thesis by (auto simp: counted_def order_less_le)
  qed
  moreover have "distinct (map fst (zip TRACKS bufs))" using assms(3) by (simp add: bufs_ok_def) (simp add: TRACKS_def)
  moreover have "set (zip TRACKS bufs) \<subseteq> set TRACKS \<times> {b. length b = 64}"
    using assms(3) by (auto simp: bufs_ok_def list_all_iff dest: set_zip_leftD set_zip_rightD)
  ultimately show ?thesis
    unfolding audio_tick_def using assms(2,3)
    by (intro audio_loop_total [OF l]) (auto dest: set_zip_leftD)
qed

theorem audio_tick_succeeds_witness:
  "\<exists>st st'. on_open 0 0 publisher = Inr st \<and> audio_tick 20 (replicate 3 (replicate 64 0)) st = Inr st'"
proof -
  obtain st where st: "on_open 0 0 publisher = Inr st" "seqs st = seqs publisher" "run pub_step publisher st"
    using opens by blast
  have "bufs_ok (replicate 3 (replicate 64 0))" by (simp add: bufs_ok_def TRACKS_def list_all_iff)
  moreover have "\<forall>t\<in>set TRACKS. seqs st (tid t) \<noteq> Some (nnum 0xffffffff)"
    by (simp add: TRACKS_def publisher_def st(2))
  ultimately show ?thesis using audio_tick_succeeds [OF st(3), of 20] st(1) by (auto simp: clock_ok_def)
qed

text \<open>
  The arguments are accepted exactly when each option has a non-empty value; of a repeated option
  the last value counts, and the order does not matter.
\<close>

lemma parseArgs_pairs:
  assumes "list_all (\<lambda>p. fst p \<in> set OPTIONS) ps"
  shows "parseArgs (command_line ps) = Some (u, c, tk) \<longleftrightarrow>
    map_of (rev ps) (js ''--url'') = Some u \<and> map_of (rev ps) (js ''--channel'') = Some c
    \<and> map_of (rev ps) (js ''--token'') = Some tk \<and> u \<noteq> [] \<and> c \<noteq> [] \<and> tk \<noteq> []"
  by (auto simp: parseArgs_def Let_def parse_loop_pairs [OF assms] missing_def later_def simp del: js_Cons split: option.splits)

end
