(* ===== verification/MockSubscriber.thy ===== *)
theory MockSubscriber
  imports Messages JsUri
begin

text \<open>
  \<^verbatim>\<open>tools/mock-subscriber/src/main.ts\<close>: a subscriber that decodes every message and counts them by
  type. The handler of a message is a function from the counts to the new counts and the lines it
  prints; the process is a state with its handlers and a step relation for what Node.js may do. The
  names of the message types are not names that objects inherit, so the counts are a plain map.
\<close>

subsection \<open>Arguments\<close>

record SubArgs =
  sub_url :: "jsstring option"
  sub_channel :: "jsstring option"
  summarize :: bool

text \<open>\<^verbatim>\<open>argv[++i]\<close>\<close>

definition next_arg :: "jsstring list \<Rightarrow> jsstring option" where
  "next_arg rest = (case rest of [] \<Rightarrow> None | v # _ \<Rightarrow> Some v)"

fun sub_parse_loop :: "jsstring list \<Rightarrow> SubArgs \<Rightarrow> SubArgs" where
  "sub_parse_loop [] out = out"
| "sub_parse_loop (arg # rest) out =
     (if arg = js ''--url'' then sub_parse_loop (drop 1 rest) (out\<lparr>sub_url := next_arg rest\<rparr>)
      else if arg = js ''--channel'' then sub_parse_loop (drop 1 rest) (out\<lparr>sub_channel := next_arg rest\<rparr>)
      else if arg = js ''--verbose'' then sub_parse_loop rest (out\<lparr>summarize := False\<rparr>)
      else sub_parse_loop rest out)"

text \<open>\<open>None\<close>: the usage is printed and the process exits with 2.\<close>

definition sub_parseArgs :: "jsstring list \<Rightarrow> SubArgs option" where
  "sub_parseArgs argv =
     (let out = sub_parse_loop argv \<lparr>sub_url = None, sub_channel = None, summarize = True\<rparr>
      in if sub_url out \<in> {None, Some []} \<or> sub_channel out \<in> {None, Some []} then None else Some out)"

definition sub_ws_url :: "SubArgs \<Rightarrow> jsstring option" where
  "sub_ws_url args =
     map_option (\<lambda>c. the (sub_url args) @ js ''/subscribe?channel='' @ c)
       (encodeURIComponent (the (sub_channel args)))"

subsection \<open>Messages\<close>

fun type_name :: "MessageType \<Rightarrow> jsstring" where
  "type_name Hello = js ''Hello''"
| "type_name TrackList = js ''TrackList''"
| "type_name AudioOpus = js ''AudioOpus''"
| "type_name Fingerprint = js ''Fingerprint''"
| "type_name TrackMeta = js ''TrackMeta''"
| "type_name Stats = js ''Stats''"
| "type_name SubTracks = js ''SubTracks''"
| "type_name Error = js ''Error''"

definition ALL_TYPES :: "MessageType list" where
  "ALL_TYPES = [Hello, TrackList, AudioOpus, Fingerprint, TrackMeta, Stats, SubTracks, Error]"

fun hex :: "nat \<Rightarrow> jsstring" where
  "hex n = (if n < 16 then [] else hex (n div 16)) @ [of_nat (if n mod 16 < 10 then 48 + n mod 16 else 87 + n mod 16)]"

declare hex.simps [simp del]

text \<open>\<^verbatim>\<open>MessageType[frame.type] ?? `0x${frame.type.toString(16)}`\<close>; a decoded type is a byte.\<close>

definition frame_name :: "Frame \<Rightarrow> jsstring" where
  "frame_name f =
     (case find (\<lambda>ty. mt ty = ftype f) ALL_TYPES of
        Some ty \<Rightarrow> type_name ty
      | None \<Rightarrow> js ''0x'' @ hex (to_uint 8 (ftype f)))"

type_synonym counts = "jsstring \<rightharpoonup> nat"

datatype line =
    Subscribed
  | is_failed: DecodeFailed jsstring
  | FrameLine jsstring jsnum jsnum nat
  | TrackListLine "(jsnum \<times> jsstring) list"
  | RelayErrorLine jsstring jsstring
  | ClosedLine nat jsstring
  | CountsLine counts
  | SocketErrorLine jsstring
  | CountsSoFar counts

definition detail_lines :: "bool \<Rightarrow> Frame \<Rightarrow> line list" where
  "detail_lines summ f =
     (if ftype f = mt TrackList then
        (case decodeTrackList (payload f) of
           Inr ts \<Rightarrow> [TrackListLine (map (\<lambda>t. (tid t, slug t)) ts)]
         | Inl _ \<Rightarrow> [])
      else if ftype f = mt Fingerprint \<and> summ then
        (case decodeFingerprint (payload f) of
           Inr fp \<Rightarrow> []
         | Inl _ \<Rightarrow> [])
      else if ftype f = mt Error then
        (case decodeError (payload f) of
           Inr e \<Rightarrow> [RelayErrorLine (ecode e) (emessage e)]
         | Inl _ \<Rightarrow> [])
      else [])"

definition on_message :: "bool \<Rightarrow> bytes \<Rightarrow> counts \<Rightarrow> counts \<times> line list" where
  "on_message summ b cs =
     (case decodeFrame b of
        Inl e \<Rightarrow> (cs, [DecodeFailed (message e)])
      | Inr f \<Rightarrow>
          (let name = frame_name f;
               cs = cs(name \<mapsto> (case cs name of None \<Rightarrow> 0 | Some n \<Rightarrow> n) + 1)
           in (cs, (if \<not> summ then [FrameLine name (track f) (seq f) (length (payload f))] else [])
                   @ detail_lines summ f)))"

fun on_messages :: "bool \<Rightarrow> bytes list \<Rightarrow> counts \<Rightarrow> counts \<times> line list" where
  "on_messages summ [] cs = (cs, [])"
| "on_messages summ (b # bs) cs =
     (case on_message summ b cs of (cs, ls) \<Rightarrow> (case on_messages summ bs cs of (cs, ls') \<Rightarrow> (cs, ls @ ls')))"

subsection \<open>The process\<close>

text \<open>
  \<open>received\<close> records the messages the process was given; nothing reads it. Once the process has
  exited nothing happens any more.
\<close>

datatype sub_socket = SubConnecting | SubOpen | SubClosing

record Subscriber =
  summarizing :: bool
  sock :: sub_socket
  sub_counts :: counts
  printed :: "line list"
  heartbeat :: bool
  sub_exited :: bool
  received :: "bytes list"

definition subscriber :: "SubArgs \<Rightarrow> Subscriber" where
  "subscriber args =
     \<lparr>summarizing = summarize args, sock = SubConnecting, sub_counts = Map.empty, printed = [], heartbeat = True,
      sub_exited = False, received = []\<rparr>"

definition sub_open :: "Subscriber \<Rightarrow> Subscriber" where
  "sub_open st = st\<lparr>sock := SubOpen, printed := printed st @ [Subscribed]\<rparr>"

definition sub_message :: "bytes \<Rightarrow> Subscriber \<Rightarrow> Subscriber" where
  "sub_message b st =
     (case on_message (summarizing st) b (sub_counts st) of
        (cs, ls) \<Rightarrow> st\<lparr>sub_counts := cs, printed := printed st @ ls, received := received st @ [b]\<rparr>)"

definition sub_close :: "nat \<Rightarrow> jsstring \<Rightarrow> Subscriber \<Rightarrow> Subscriber" where
  "sub_close n reason st =
     st\<lparr>printed := printed st @ [ClosedLine n reason, CountsLine (sub_counts st)], sub_exited := True\<rparr>"

definition sub_error :: "jsstring \<Rightarrow> Subscriber \<Rightarrow> Subscriber" where
  "sub_error msg st = st\<lparr>printed := printed st @ [SocketErrorLine msg]\<rparr>"

definition sub_heartbeat :: "Subscriber \<Rightarrow> Subscriber" where
  "sub_heartbeat st =
     (if summarizing st \<and> sub_counts st \<noteq> Map.empty
      then st\<lparr>printed := printed st @ [CountsSoFar (sub_counts st)]\<rparr>
      else st)"

definition sub_sigint :: "Subscriber \<Rightarrow> Subscriber" where
  "sub_sigint st = st\<lparr>heartbeat := False, sock := SubClosing\<rparr>"

datatype sub_event =
    SubOpened
  | SubMessage bytes
  | SubClosed nat jsstring
  | SubError jsstring
  | SubTick
  | SubSigint

text \<open>A socket that is closing still hands over what is on its way.\<close>

inductive sub_step :: "Subscriber \<Rightarrow> sub_event \<Rightarrow> Subscriber \<Rightarrow> bool" where
  opened: "\<not> sub_exited st \<Longrightarrow> sock st = SubConnecting \<Longrightarrow> sub_step st SubOpened (sub_open st)"
| message: "\<not> sub_exited st \<Longrightarrow> sock st \<noteq> SubConnecting \<Longrightarrow> sub_step st (SubMessage b) (sub_message b st)"
| closed: "\<not> sub_exited st \<Longrightarrow> sub_step st (SubClosed n reason) (sub_close n reason st)"
| error: "\<not> sub_exited st \<Longrightarrow> sub_step st (SubError msg) (sub_error msg st)"
| tick: "\<not> sub_exited st \<Longrightarrow> heartbeat st \<Longrightarrow> sub_step st SubTick (sub_heartbeat st)"
| sigint: "\<not> sub_exited st \<Longrightarrow> sub_step st SubSigint (sub_sigint st)"

inductive_cases sub_stepE: "sub_step st ev st'"

lemmas subscriber_defs = subscriber_def sub_open_def sub_message_def sub_close_def sub_error_def sub_heartbeat_def
  sub_sigint_def

subsection \<open>Counting\<close>

lemma type_name_inj: "type_name a = type_name b \<longleftrightarrow> a = b"
  by (cases a; cases b) (simp_all)

lemma decoded_type:
  assumes "decodeFrame b = Inr f"
  obtains ty where "ftype f = mt ty" "frame_name f = type_name ty"
proof -
  have "frame_wf f" using frame_codec.dec_wf [OF assms] .
  then obtain k where "k \<in> set KNOWN_TYPES" "ftype f = nnum k" unfolding frame_wf_def by blast
  moreover have "set KNOWN_TYPES = MessageType_value ` set ALL_TYPES" by (auto simp: KNOWN_TYPES_def ALL_TYPES_def)
  ultimately obtain ty where "ftype f = mt ty" by auto
  moreover have "find (\<lambda>x. mt x = mt ty) ALL_TYPES = Some ty" by (cases ty) (simp_all add: ALL_TYPES_def)
  ultimately show thesis using that by (simp add: frame_name_def)
qed

text \<open>The messages that decode to a frame of a type.\<close>

definition is_type :: "MessageType \<Rightarrow> bytes \<Rightarrow> bool" where
  "is_type ty b = (case decodeFrame b of Inl _ \<Rightarrow> False | Inr f \<Rightarrow> ftype f = mt ty)"

definition tally :: "counts \<Rightarrow> MessageType \<Rightarrow> nat" where
  "tally cs ty = (case cs (type_name ty) of None \<Rightarrow> 0 | Some n \<Rightarrow> n)"

lemma on_message_tally: "tally (fst (on_message summ b cs)) ty = tally cs ty + (if is_type ty b then 1 else 0)"
proof (cases "decodeFrame b")
  case (Inr f)
  obtain u where "ftype f = mt u" "frame_name f = type_name u" by (rule decoded_type [OF Inr])
  with Inr show ?thesis by (simp add: on_message_def is_type_def tally_def Let_def type_name_inj)
qed (simp add: on_message_def is_type_def)

lemma on_messages_tally:
  "tally (fst (on_messages summ bs cs)) ty = tally cs ty + length (filter (is_type ty) bs)"
proof (induction bs arbitrary: cs)
  case (Cons b bs)
  then show ?case using on_message_tally [of summ b cs ty] by (simp add: split_beta)
qed simp

lemma failed_line:
  "length (filter is_failed (snd (on_message summ b cs))) = (if \<exists>e. decodeFrame b = Inl e then 1 else 0)"
proof -
  have "filter is_failed (detail_lines summ f) = []" for f
  proof -
    consider "ftype f = mt TrackList" | "ftype f \<noteq> mt TrackList" "ftype f = mt Error"
      | "ftype f \<noteq> mt TrackList" "ftype f \<noteq> mt Error" by blast
    then show ?thesis
      by cases (simp_all add: detail_lines_def del: MessageType_value.simps split: sum.split)
  qed
  then show ?thesis by (cases "decodeFrame b") (simp_all add: on_message_def Let_def)
qed

lemma failed_lines:
  "length (filter is_failed (snd (on_messages summ bs cs)))
     = length (filter (\<lambda>b. \<exists>e. decodeFrame b = Inl e) bs)"
proof (induction bs arbitrary: cs)
  case (Cons b bs)
  show ?case using failed_line [of summ b cs] Cons.IH [of "fst (on_message summ b cs)"] by (simp add: split_beta)
qed simp

text \<open>In every state of the process the counts are those of the messages it was given.\<close>

definition sub_inv :: "Subscriber \<Rightarrow> bool" where
  "sub_inv st \<longleftrightarrow>
     (\<forall>ty. tally (sub_counts st) ty = length (filter (is_type ty) (received st)))
     \<and> length (filter is_failed (printed st)) = length (filter (\<lambda>b. \<exists>e. decodeFrame b = Inl e) (received st))
     \<and> (sub_exited st \<longrightarrow> (\<exists>ls. printed st = ls @ [CountsLine (sub_counts st)]))"

lemma sub_inv_step:
  assumes "sub_inv st" "sub_step st ev st'"
  shows "sub_inv st'"
  using assms(2)
proof cases
  case (message b)
  have "tally (sub_counts st') ty = tally (sub_counts st) ty + (if is_type ty b then 1 else 0)" for ty
    using on_message_tally [of "summarizing st" b "sub_counts st" ty] message by (simp add: sub_message_def split_beta)
  moreover have "length (filter is_failed (printed st'))
      = length (filter is_failed (printed st)) + (if \<exists>e. decodeFrame b = Inl e then 1 else 0)"
    using failed_line [of "summarizing st" b "sub_counts st"] message by (simp add: sub_message_def split_beta)
  moreover have "received st' = received st @ [b]" "sub_exited st' = sub_exited st"
    using message by (simp_all add: sub_message_def split_beta)
  ultimately show ?thesis using assms(1) message by (simp add: sub_inv_def)
qed (use assms(1) in \<open>auto simp: sub_inv_def subscriber_defs\<close>)

interpretation subscribing: kept sub_step sub_inv
  by unfold_locales (rule sub_inv_step)

lemma subscriber_inv: "sub_inv (subscriber args)"
  by (simp add: sub_inv_def subscriber_def tally_def)

text \<open>
  C40: the counts are exact. After any sequence of messages, valid or not, the count of every message
  type is the number of messages that decode to a frame of that type, and the printed lines report
  exactly the messages that do not decode.
\<close>

theorem counts_exact:
  "tally (fst (on_messages summ bs Map.empty)) ty = length (filter (is_type ty) bs)
   \<and> length (filter is_failed (snd (on_messages summ bs cs)))
       = length (filter (\<lambda>b. \<exists>e. decodeFrame b = Inl e) bs)"
  using on_messages_tally [of summ bs Map.empty ty] failed_lines [of summ bs cs] by (simp add: tally_def)

text \<open>
  The same of the whole process, whatever order messages, heartbeats, errors and signals come in: at
  its end it prints the counts of everything it was given, and an exited process does nothing more.
\<close>

lemma counts_reported:
  assumes "run sub_step (subscriber args) st"
  shows "tally (sub_counts st) ty = length (filter (is_type ty) (received st))"
    and "sub_exited st \<Longrightarrow> \<exists>ls. printed st = ls @ [CountsLine (sub_counts st)]"
    and "sub_exited st \<Longrightarrow> \<not> sub_step st ev st'"
  using subscribing.run_inv [OF assms subscriber_inv] by (auto simp: sub_inv_def elim: sub_stepE)

end
