(* ===== verification/Popup.thy ===== *)
theory Popup
  imports Prefs
begin

text \<open>
  \<^verbatim>\<open>extension/src/popup/popup.ts\<close>: the relay URL field. \<open>popup_open\<close> is the callback that fills
  the input when the popup opens and \<open>popup_change\<close> the handler of its change event.
\<close>

definition RELAY_KEY :: jsstring where
  "RELAY_KEY = js ''settings.relayURL''"

text \<open>White space and line terminators: what \<^verbatim>\<open>trim\<close> removes and \<^verbatim>\<open>\s\<close> matches.\<close>

definition space_class :: "(codeunit \<times> codeunit) list" where
  "space_class =
     [(9, 13), (32, 32), (0xA0, 0xA0), (0x1680, 0x1680), (0x2000, 0x200A), (0x2028, 0x2029),
      (0x202F, 0x202F), (0x205F, 0x205F), (0x3000, 0x3000), (0xFEFF, 0xFEFF)]"

abbreviation js_space :: "codeunit \<Rightarrow> bool" where
  "js_space u \<equiv> in_class space_class u"

definition trim :: "jsstring \<Rightarrow> jsstring" where
  "trim s = rev (dropWhile js_space (rev (dropWhile js_space s)))"

text \<open>\<^verbatim>\<open>/^wss:\/\/[^\s]+$/\<close>\<close>

definition WSS_RE :: rexp where
  "WSS_RE = RSeq (RWord (js ''wss://'')) (RPlus (RNotClass space_class))"

definition popup_open :: "storage \<Rightarrow> jsstring \<Rightarrow> jsstring" where
  "popup_open st input_value =
     (case item_of st RELAY_KEY of Some (TextItem url) \<Rightarrow> url | _ \<Rightarrow> input_value)"

definition popup_change :: "storage \<Rightarrow> jsstring \<Rightarrow> storage" where
  "popup_change st input_value =
     (let v = trim input_value
      in if v = [] \<or> rx_test WSS_RE v then set_item st RELAY_KEY (TextItem v) else st)"

subsection \<open>The accepted values\<close>

lemma WSS_RE_iff:
  "rx_test WSS_RE v \<longleftrightarrow> (\<exists>r. v = js ''wss://'' @ r \<and> r \<noteq> [] \<and> list_all (\<lambda>u. \<not> js_space u) r)"
  unfolding rx_test_iff WSS_RE_def rx_seq_word rx_lang_plus_notclass ..

lemma RELAY_KEY_not_prefs: "\<not> prefs_key RELAY_KEY"
proof
  assume "prefs_key RELAY_KEY"
  moreover have "take 6 GLOBAL_KEY = js ''prefs.''" "take 6 (STREAMER_KEY_PREFIX @ c) = js ''prefs.''" for c
    by (simp_all add: GLOBAL_KEY_def STREAMER_KEY_PREFIX_def)
  ultimately have "take 6 RELAY_KEY = js ''prefs.''" unfolding prefs_key_def by metis
  then show False by (simp add: RELAY_KEY_def)
qed

lemma popup_change_typed: "storage_typed st \<Longrightarrow> storage_typed (popup_change st v)"
  by (auto simp: popup_change_def Let_def RELAY_KEY_not_prefs intro: storage_typed_set)

lemma popup_change_prefs:
  "loadGlobal (popup_change st v) = loadGlobal st" "loadStreamer (popup_change st v) c = loadStreamer st c"
proof -
  have "GLOBAL_KEY \<noteq> RELAY_KEY" "STREAMER_KEY_PREFIX @ c \<noteq> RELAY_KEY"
    using RELAY_KEY_not_prefs unfolding prefs_key_def by metis+
  then show "loadGlobal (popup_change st v) = loadGlobal st" "loadStreamer (popup_change st v) c = loadStreamer st c"
    by (auto simp: popup_change_def Let_def loadGlobal_def loadStreamer_def get_item_of storage_area.read_write_other)
qed

text \<open>A value that is all right stays the same under another \<^verbatim>\<open>change\<close>: it has no space to trim.\<close>

lemma trim_id: "list_all (\<lambda>u. \<not> js_space u) s \<Longrightarrow> trim s = s"
proof -
  have *: "list_all (\<lambda>u. \<not> js_space u) t \<Longrightarrow> dropWhile js_space t = t" for t by (cases t) simp_all
  assume "list_all (\<lambda>u. \<not> js_space u) s"
  then show ?thesis using * [of s] * [of "rev s"] by (simp add: trim_def list_all_rev)
qed

lemma wss_not_space: "list_all (\<lambda>u. \<not> js_space u) (js ''wss://'')"
  by (simp add: js_Cons in_class_def space_class_def word_le_nat_alt)

definition relay_value_ok :: "jsstring \<Rightarrow> bool" where
  "relay_value_ok v \<longleftrightarrow> v = [] \<or> (\<exists>r. v = js ''wss://'' @ r \<and> r \<noteq> [] \<and> list_all (\<lambda>u. \<not> js_space u) r)"

lemma relay_value_trim: "relay_value_ok v \<Longrightarrow> trim v = v"
  using wss_not_space by (auto simp: relay_value_ok_def intro!: trim_id)

lemma popup_change_iff:
  "popup_change st v = (if relay_value_ok (trim v) then set_item st RELAY_KEY (TextItem (trim v)) else st)"
  by (simp add: popup_change_def Let_def relay_value_ok_def WSS_RE_iff)

text \<open>Only an empty value or a \<^verbatim>\<open>wss://\<close> URL is ever stored.\<close>

definition relay_stored_ok :: "storage \<Rightarrow> bool" where
  "relay_stored_ok st \<longleftrightarrow> (\<forall>v. item_of st RELAY_KEY = Some (TextItem v) \<longrightarrow> relay_value_ok v)"

lemma relay_stored_change: "relay_stored_ok st \<Longrightarrow> relay_stored_ok (popup_change st v)"
  by (cases st) (auto simp: relay_stored_ok_def popup_change_iff item_of_def set_item_def)

lemma relay_stored_saves:
  "relay_stored_ok st \<Longrightarrow> relay_stored_ok (saveStreamer st c p)"
  "relay_stored_ok st \<Longrightarrow> relay_stored_ok (saveGlobalCategory st cat s)"
proof -
  have "RELAY_KEY \<noteq> GLOBAL_KEY" "RELAY_KEY \<noteq> STREAMER_KEY_PREFIX @ c"
    using RELAY_KEY_not_prefs by (auto simp: prefs_key_def)
  then show "relay_stored_ok st \<Longrightarrow> relay_stored_ok (saveStreamer st c p)"
    "relay_stored_ok st \<Longrightarrow> relay_stored_ok (saveGlobalCategory st cat s)"
    by (auto simp: relay_stored_ok_def saveStreamer_def saveGlobalCategory_def Let_def
        storage_area.read_write_other)
qed

subsection \<open>Properties\<close>

text \<open>
  An edit of the relay field stores the trimmed text exactly when it is empty or a
  \<^verbatim>\<open>wss://\<close> URL without white space, and the next popup shows it; otherwise nothing changes.
  Preferences are never touched, and from a storage that holds only such a value no operation of
  the extension makes any other.
\<close>

lemma relay_field:
  assumes "relay_stored_ok (Some area)"
  shows "popup_change (Some area) v
      = (if relay_value_ok (trim v) then Some (area(RELAY_KEY \<mapsto> TextItem (trim v))) else Some area)
    \<and> (relay_value_ok (trim v) \<longrightarrow> popup_open (popup_change (Some area) v) w = trim v)
    \<and> loadGlobal (popup_change (Some area) v) = loadGlobal (Some area)
    \<and> loadStreamer (popup_change (Some area) v) c = loadStreamer (Some area) c
    \<and> relay_stored_ok (popup_change (Some area) v) \<and> relay_stored_ok (saveStreamer (Some area) c p)
    \<and> relay_stored_ok (saveGlobalCategory (Some area) cat s)"
  using relay_stored_change [OF assms] relay_stored_saves [OF assms] popup_change_prefs [of "Some area"]
  by (simp add: popup_change_iff set_item_def popup_open_def item_of_def)

lemma relay_field_example:
  "popup_open (popup_change (Some Map.empty) (js '' wss://relay.example '')) [] = js ''wss://relay.example''"
proof -
  have t: "trim (js '' wss://relay.example '') = js ''wss://relay.example''"
    by (simp add: js_Cons trim_def in_class_def space_class_def word_le_nat_alt)
  have "relay_value_ok (js ''wss://'' @ js ''relay.example'')"
    unfolding relay_value_ok_def
    by (rule disjI2, rule exI [of _ "js ''relay.example''"])
      (simp add: js_Cons in_class_def space_class_def word_le_nat_alt)
  then have "relay_value_ok (js ''wss://relay.example'')" by (simp flip: js_append)
  moreover have "relay_stored_ok (Some Map.empty)" by (simp add: relay_stored_ok_def item_of_def)
  ultimately have "popup_open (popup_change (Some Map.empty) (js '' wss://relay.example '')) []
      = trim (js '' wss://relay.example '')"
    using relay_field [of Map.empty "js '' wss://relay.example ''" "[]" "[]" Map.empty "[]" DEFAULT] t by metis
  then show ?thesis using t by simp
qed

end
