(* ===== verification/Spec2Isabelle.thy ===== *)
theory Spec2Isabelle
  imports Board Page MockPublisher MockSubscriber Popup
begin

text \<open>
  StreamMix: a browser extension that mixes a streamer's side-channels against the broadcast.

  A publisher sends each of the streamer's audio sources to a relay as a side-channel; the relay
  forwards the frames to every subscriber. The extension's content script subscribes, decodes the
  side-channels, subtracts them from the broadcast with an inverted delayed copy, and plays them at
  the levels of a panel on the page. This development models the TypeScript of the repository: the
  wire library (\<^verbatim>\<open>shared/ts\<close>), the extension (\<^verbatim>\<open>extension/src\<close>) and the two command-line tools
  (\<^verbatim>\<open>tools\<close>).

  \<^bold>\<open>The language.\<close> \<open>Prelude\<close> fixes bytes, UTF-16 strings, results with a thrown error on the left,
  big-endian fields, and runs of a labelled step relation with the locales \<open>kept\<close>, the contract of an
  invariant, and \<open>measured\<close>, that of a system that comes to rest. \<open>JsNumber\<close> has JavaScript numbers: doubles as rationals with an executable rounding
  (nearest, ties to even) and the locale \<open>rounding\<close>, interpreted for double and single precision.
  \<open>JsDecimal\<close> prints and reads them (the shortest decimal that reads back; its search has a fuel of
  2100, which \<open>shortest_total\<close> shows to be enough for every double), \<open>JsText\<close> encodes and decodes
  UTF-8, \<open>JsJson\<close> is \<^verbatim>\<open>JSON.stringify\<close> and \<^verbatim>\<open>JSON.parse\<close> with their round trip, \<open>JsRegex\<close> matches
  regular expressions by derivatives and proves the match equal to the language, \<open>JsUri\<close> is
  \<^verbatim>\<open>encodeURIComponent\<close>.

  \<^bold>\<open>The wire library.\<close> \<open>Constants\<close>, \<open>Categories\<close> (\<^verbatim>\<open>constants.ts\<close>, \<^verbatim>\<open>errors.ts\<close>, \<^verbatim>\<open>categories.ts\<close>),
  \<open>Header\<close> (\<^verbatim>\<open>header.ts\<close>: the 21-byte header with every check) and \<open>Messages\<close> (\<^verbatim>\<open>messages.ts\<close>: the seven
  payloads). The locale \<open>payload_codec\<close> states what a codec promises (what is encoded decodes to
  itself, what decodes is well-formed); every codec interprets it. The results are round trips,
  canonicity of the header, exactly which bytes and values are accepted, and the error codes.

  \<^bold>\<open>The extension.\<close>
  \<^item> \<open>Prefs\<close> (\<^verbatim>\<open>store/prefs.ts\<close>): preferences in \<^verbatim>\<open>chrome.storage.local\<close>, an optional map that
    interprets the locale \<open>kv_area\<close>. Dictionaries are JavaScript objects with the properties they
    inherit.
  \<^item> \<open>Detect\<close>, \<open>Player\<close> (\<^verbatim>\<open>platform\<close>): recognising a channel's page and waiting for its player.
  \<^item> \<open>Popup\<close>, \<open>CategoryDisplay\<close>: the popup's field and the icons and labels of categories.
  \<^item> \<open>WebAudio\<close> is the part of the Web Audio API the sources use: nodes, connections, a clock, and
    what a graph renders. \<open>Graph\<close> (\<^verbatim>\<open>audio/graph.ts\<close>) builds and adjusts the routing; its invariant
    \<open>graph_ok\<close> is the picture at the top of that file, and from it follows what is heard. \<open>Scheduler\<close>
    (\<^verbatim>\<open>audio/scheduler.ts\<close>) and \<open>OpusDecoder\<close> (\<^verbatim>\<open>audio/decoder.ts\<close>) are one track's lane.
  \<^item> \<open>RelayClient\<close> (\<^verbatim>\<open>relay/client.ts\<close>): the connection as a step relation over sockets and timers,
    with its invariant, its backoff, what it delivers, that it can always reconnect and that it comes
    to rest after \<^verbatim>\<open>close()\<close>.
  \<^item> \<open>Content\<close> (\<^verbatim>\<open>content/index.ts\<close>): the closures of a mounted mixer as functions on \<open>State\<close>.
    \<open>ContentInv\<close> and \<open>ContentRun\<close> prove the invariant \<open>content_ok\<close> of every handler, \<open>ContentLevels\<close>
    that the levels in the graph are the levels shown.
  \<^item> \<open>Mixer\<close> (\<^verbatim>\<open>ui/Mixer.svelte\<close>): the panel as a function of its properties, and its inputs.
  \<^item> \<open>Session\<close> composes client, content and storage into \<open>session_step\<close>: any interleaving of network
    events, user input, decoded audio, codec failures, ended sources, gestures and the clock. \<open>Restore\<close> follows a
    session to its end and into the next one.
  \<^item> \<open>Board\<close> is what the mixer promises without graph, wire and dictionaries: channels with a level and
    a mute switch. The locale \<open>simulation\<close> extends \<open>kept\<close>, and the session interprets it.
  \<^item> \<open>Page\<close> (the rest of \<^verbatim>\<open>content/index.ts\<close>): the mounts of a page over time, with the two awaits of
    \<^verbatim>\<open>mount\<close>, \<^verbatim>\<open>unmount\<close> and the observer of the address, as a step relation.

  \<^bold>\<open>The tools.\<close> \<open>MockPublisher\<close> and \<open>MockSubscriber\<close> (\<^verbatim>\<open>tools\<close>): command line, handlers and timers.
  The properties of this theory join both ends: what the mock publisher sends is played by a
  session, and counted by the mock subscriber.

  \<^bold>\<open>Not modelled.\<close> The relay (Go), the native publisher and the OBS plugin (C++) are other programs;
  the TypeScript relies on the relay only to forward frames. The codec of WebCodecs, the rendering
  of Web Audio beyond the equations of \<open>renders\<close>, the URL parser, \<^verbatim>\<open>toLowerCase\<close>, \<^verbatim>\<open>normalize\<close> and the DOM
  are arguments or recorded inputs. The background worker only logs.
  Each mount of a page has its own view of the storage area. Styles and element creation are markup.
\<close>

subsection \<open>From the mock publisher to the panel\<close>

text \<open>What the client delivers for a frame of audio or a fingerprint.\<close>

definition delivers :: "Frame \<Rightarrow> relay_event \<Rightarrow> bool" where
  "delivers f e \<longleftrightarrow>
     ftype f = mt AudioOpus \<and> e = OnAudio (track f) f
     \<or> ftype f = mt Fingerprint
       \<and> (\<exists>fp. decodeFingerprint (payload f) = Inr fp \<and> e = OnFingerprint (track f) (hash fp) (windowMs fp))"

lemma receive_all:
  "socket_open s i \<Longrightarrow> session_run ch s (fold receive bs s)
     \<and> emitted (relay (fold receive bs s)) = emitted (relay s) @ concat (map handleMessage bs)
     \<and> content (fold receive bs s) = fold callback (concat (map handleMessage bs)) (content s)"
proof (induction bs arbitrary: s)
  case (Cons b bs)
  have "session_run ch s (receive b s)" by (rule run_single) (rule receive_step [OF Cons.prems])
  moreover have "emitted (relay (receive b s)) = emitted (relay s) @ handleMessage b"
    "content (receive b s) = fold callback (handleMessage b) (content s)"
    by (simp_all add: receive_def ws_onmessage_def)
  moreover have "socket_open (receive b s) i" using Cons.prems by (simp add: receive_open)
  ultimately show ?case using Cons.IH [of "receive b s"] by (auto intro: run_trans)
qed (simp add: run_refl)

lemma stream_delivered: "stream_frame f \<Longrightarrow> decodeFrame b = Inr f \<Longrightarrow> \<exists>e. handleMessage b = [e] \<and> delivers f e"
  by (auto simp: stream_frame_def handleMessage_def delivers_def on_decoded_def)

lemma stream_all:
  "map decodeFrame bs = map Inr fs \<Longrightarrow> list_all stream_frame fs \<Longrightarrow>
     list_all2 delivers fs (concat (map handleMessage bs))"
proof (induction bs arbitrary: fs)
  case (Cons b bs)
  then obtain f fs' where fs: "fs = f # fs'" "decodeFrame b = Inr f" by (cases fs) auto
  obtain e where "handleMessage b = [e]" "delivers f e" using stream_delivered [OF _ fs(2)] Cons.prems fs by auto
  with Cons fs show ?case by simp
qed simp

lemma stream_keeps_tracks: "list_all2 delivers fs es \<Longrightarrow> trackList (fold callback es st) = trackList st"
  by (induction arbitrary: st rule: list_all2_induct) (auto simp: delivers_def lane_handlers_index)

lemma publisher_opens:
  obtains st where "on_open 0 0 publisher = Inr st" "run pub_step publisher st" "sent st \<noteq> []"
proof -
  have c: "clock_ok 0" by (simp add: clock_ok_def)
  obtain h l b c' where o: "on_open 0 0 publisher = Inr (publisher\<lparr>sent := sent publisher @ [b, c'], timer := True, fpTimer := True\<rparr>)"
    (is "_ = Inr ?st") by (rule on_open_sends [OF c c]) blast
  have "run pub_step publisher ?st" by (rule run_single, rule pub_step.opened [OF _ _ _ c c o]) (simp_all add: publisher_def)
  with that o show thesis by simp
qed

text \<open>
  C8: everything the mock publisher has sent, at any time after it opened, can be delivered in order to
  any session whose socket is open. The client hands on one track list, then one event for each
  frame of audio and each fingerprint, in the order they were sent, and the panel ends with the
  publisher's tracks, all of which are in the graph.
\<close>

theorem mock_stream_is_played:
  assumes "session_run ch (mounted gp sp codecs a) s" "socket_open s i"
    and "run pub_step publisher st" "sent st \<noteq> []"
  shows "session_run ch s (fold receive (sent st) s)
    \<and> (\<exists>fs es. map decodeFrame (sent st) = map Inr fs \<and> list_all2 delivers (drop 2 fs) es
         \<and> emitted (relay (fold receive (sent st) s)) = emitted (relay s) @ OnTrackList TRACKS # es)
    \<and> map row_id (rows (render (mixer (content (fold receive (sent st) s))) False)) = map tid TRACKS
    \<and> dom (tracks (graph (content (fold receive (sent st) s)))) = slug ` set TRACKS"
proof -
  let ?s = "fold receive (sent st) s"
  note r = receive_all [OF assms(2), of ch "sent st"]
  obtain fs where fs: "map decodeFrame (sent st) = map Inr fs" "announced fs"
    using publishing.run_inv [OF assms(3) publisher_inv] by (auto simp: pub_inv_def logged_def)
  have "fs \<noteq> []" using fs(1) assms(4) by auto
  then obtain h l gs where a: "fs = h # l # gs" "ftype h = mt Hello" "ftype l = mt MessageType.TrackList"
    "decodeTrackList (payload l) = Inr TRACKS" "list_all stream_frame gs"
    using fs(2) by (auto simp: announced_def)
  then obtain b c bs where b: "sent st = b # c # bs" "decodeFrame b = Inr h" "decodeFrame c = Inr l"
    "map decodeFrame bs = map Inr gs"
    using fs(1) by auto
  have es: "list_all2 delivers gs (concat (map handleMessage bs))" by (rule stream_all [OF b(4) a(5)])
  have ev: "concat (map handleMessage (sent st)) = OnTrackList TRACKS # concat (map handleMessage bs)"
    using a b by (simp add: handleMessage_def on_decoded_def)
  have c: "content_ok (content s)" "content_ok (content ?s)"
    using session.run_inv [OF assms(1) mounted_inv] session.run_inv [OF conjunct1 [OF r] session.run_inv [OF assms(1) mounted_inv]]
    by (simp_all only: session_inv_def)
  have "trackList (content ?s) = TRACKS"
    using r stream_keeps_tracks [OF es] onTrackList_index(2) [OF c(1)] by (simp add: ev)
  then have "map row_id (rows (render (mixer (content ?s)) False)) = map tid TRACKS"
    "dom (tracks (graph (content ?s))) = slug ` set TRACKS"
    using c(2) by (simp_all only: content_ok_def panel_ok_def parts_ok_def slugs_def)
      (simp add: render_def row_def Let_def comp_def)
  moreover have "list_all2 delivers (drop 2 fs) (concat (map handleMessage bs))" using es a(1) by simp
  ultimately show ?thesis using r ev fs(1) by metis
qed

theorem mock_stream_is_played_witness:
  "\<exists>st s. on_open 0 0 publisher = Inr st \<and> session_run (js ''twitch:a'') sample_start s
     \<and> map row_id (rows (render (mixer (content s)) False)) = map tid TRACKS"
proof -
  obtain st where st: "on_open 0 0 publisher = Inr st" "run pub_step publisher st" "sent st \<noteq> []" by (rule publisher_opens)
  let ?o = "opened (mounted Map.empty Map.empty True (Some Map.empty))"
  have "session_run (js ''twitch:a'') sample_start ?o" "session_run (js ''twitch:a'') ?o (fold receive (sent st) ?o)"
    "map row_id (rows (render (mixer (content (fold receive (sent st) ?o))) False)) = map tid TRACKS"
    using mock_stream_is_played [OF connected_run st(2,3)] connected_run(1) unfolding sample_start_def by blast+
  with st(1) show ?thesis by (blast intro: run_trans)
qed

subsection \<open>From the mock publisher to the mock subscriber\<close>

lemma TRACKS_split: "list_all stream_frame gs \<Longrightarrow>
  length gs = (\<Sum>t\<leftarrow>TRACKS. length (filter (\<lambda>f. track f = tid t) gs))"
  by (induction gs) (auto simp: stream_frame_def TRACKS_def)

lemma stream_types:
  assumes "list_all stream_frame gs"
  shows "length (filter (\<lambda>f. ftype f = mt AudioOpus) gs) + length (filter (\<lambda>f. ftype f = mt Fingerprint) gs) = length gs"
  using assms by (induction gs) (auto simp: stream_frame_def)

lemma typed_messages:
  "map decodeFrame bs = map Inr fs \<Longrightarrow>
     length (filter (is_type ty) bs) = length (filter (\<lambda>f. ftype f = mt ty) fs)
     \<and> filter (\<lambda>b. \<exists>e. decodeFrame b = Inl e) bs = []"
  by (induction bs arbitrary: fs) (auto simp: is_type_def)

lemma stream_counters:
  assumes "logged st (h # l # gs)" "list_all stream_frame gs" "track h = nnum 0" "track l = nnum 0"
  obtains n where "\<forall>t\<in>set TRACKS. seqs st (tid t) = Some (nnum (n t))" "length gs = (\<Sum>t\<leftarrow>TRACKS. n t)"
proof -
  from assms(1) obtain n where n: "\<forall>t\<in>set TRACKS. counted st (h # l # gs) t (n t)"
    unfolding logged_def by metis
  have "length (filter (\<lambda>f. track f = tid t) gs) = n t" if t: "t \<in> set TRACKS" for t
  proof -
    have "tid t \<noteq> nnum 0" using TRACKS_slot [OF t] by auto
    then have "map seq (filter (\<lambda>f. track f = tid t) gs) = map nnum [1..<Suc (n t)]"
      using n t assms(3,4) by (auto simp: counted_def)
    then have "length (map seq (filter (\<lambda>f. track f = tid t) gs)) = length [1..<Suc (n t)]" by (simp only: length_map)
    then show ?thesis by simp
  qed
  then have "(\<Sum>t\<leftarrow>TRACKS. length (filter (\<lambda>f. track f = tid t) gs)) = (\<Sum>t\<leftarrow>TRACKS. n t)"
    by (intro arg_cong [of _ _ sum_list] map_cong) simp_all
  then show thesis using n TRACKS_split [OF assms(2)] by (intro that [of n]) (simp_all add: counted_def)
qed

text \<open>
  C39: the two tools agree. A mock subscriber that has been given exactly what a mock publisher has
  sent, in whatever order its other events came, has printed no decode error and has counted one
  HELLO, one TRACK\_LIST and as many audio and fingerprint frames together as the publisher's
  sequence counters add up to; when it exits, these counts are its last line.
\<close>

theorem mock_tools_agree:
  assumes "run pub_step publisher st" "sent st \<noteq> []"
    and "run sub_step (subscriber args) u" "received u = sent st"
  shows "filter is_failed (printed u) = []
    \<and> tally (sub_counts u) Hello = 1 \<and> tally (sub_counts u) MessageType.TrackList = 1
    \<and> (\<exists>n. (\<forall>t\<in>set TRACKS. seqs st (tid t) = Some (nnum (n t)))
         \<and> tally (sub_counts u) AudioOpus + tally (sub_counts u) Fingerprint = (\<Sum>t\<leftarrow>TRACKS. n t))
    \<and> (sub_exited u \<longrightarrow> (\<exists>ls. printed u = ls @ [CountsLine (sub_counts u)]))"
proof -
  obtain fs where fs: "logged st fs" "announced fs"
    using publishing.run_inv [OF assms(1) publisher_inv] by (auto simp: pub_inv_def)
  have d: "map decodeFrame (sent st) = map Inr fs" using fs(1) by (simp add: logged_def)
  then have "fs \<noteq> []" using assms(2) by auto
  then obtain h l gs where a: "fs = h # l # gs" "ftype h = mt Hello" "ftype l = mt MessageType.TrackList"
    "track h = nnum 0" "track l = nnum 0" "list_all stream_frame gs"
    using fs(2) by (auto simp: announced_def)
  have i: "sub_inv u" by (rule subscribing.run_inv [OF assms(3) subscriber_inv])
  have c: "tally (sub_counts u) ty = length (filter (\<lambda>f. ftype f = mt ty) fs)" for ty
    using i typed_messages [OF d, of ty] assms(4) by (simp add: sub_inv_def)
  have gs: "filter (\<lambda>f. ftype f = mt Hello) gs = []" "filter (\<lambda>f. ftype f = mt MessageType.TrackList) gs = []"
    using a(6) by (auto simp: filter_empty_conv list_all_iff stream_frame_def)
  obtain n where n: "\<forall>t\<in>set TRACKS. seqs st (tid t) = Some (nnum (n t))" "length gs = (\<Sum>t\<leftarrow>TRACKS. n t)"
    by (rule stream_counters [OF fs(1) [unfolded a(1)] a(6,4,5)])
  have "tally (sub_counts u) AudioOpus + tally (sub_counts u) Fingerprint = (\<Sum>t\<leftarrow>TRACKS. n t)"
    using stream_types [OF a(6)] n(2) a(1-3) by (simp add: c)
  moreover have "tally (sub_counts u) Hello = 1" "tally (sub_counts u) MessageType.TrackList = 1"
    using a(1-3) gs by (simp_all add: c)
  moreover have "length (filter is_failed (printed u)) = 0"
    using i typed_messages [OF d] assms(4) by (simp add: sub_inv_def)
  then have "filter is_failed (printed u) = []" by simp
  ultimately show ?thesis using n(1) i by (auto simp: sub_inv_def)
qed

lemma messages_run:
  "\<not> sub_exited u \<Longrightarrow> sock u \<noteq> SubConnecting \<Longrightarrow>
     run sub_step u (fold sub_message bs u) \<and> received (fold sub_message bs u) = received u @ bs
     \<and> \<not> sub_exited (fold sub_message bs u)"
proof (induction bs arbitrary: u)
  case (Cons b bs)
  have "run sub_step u (sub_message b u)" by (rule run_single) (rule sub_step.message [OF Cons.prems])
  moreover have "\<not> sub_exited (sub_message b u)" "sock (sub_message b u) \<noteq> SubConnecting"
    "received (sub_message b u) = received u @ [b]"
    using Cons.prems by (simp_all add: sub_message_def split_beta)
  ultimately show ?case using Cons.IH [of "sub_message b u"] run_trans [of sub_step "sub_message b u"] by simp
qed (simp add: run_refl)

lemma subscriber_reads: "\<exists>u. run sub_step (subscriber args) u \<and> received u = bs \<and> sub_exited u"
proof -
  let ?o = "sub_open (subscriber args)"
  let ?m = "fold sub_message bs ?o"
  have "sub_step (subscriber args) SubOpened ?o" by (rule sub_step.opened) (simp_all add: subscriber_def)
  then have 1: "run sub_step (subscriber args) ?o" by (rule run_single)
  have 2: "run sub_step ?o ?m" "received ?m = bs" "\<not> sub_exited ?m"
    using messages_run [of ?o bs] by (simp_all add: sub_open_def subscriber_def)
  have "sub_step ?m (SubClosed 1000 []) (sub_close 1000 [] ?m)" by (rule sub_step.closed [OF 2(3)])
  with run_trans [OF 2(1) 1] have "run sub_step (subscriber args) (sub_close 1000 [] ?m)" by (rule run_step)
  moreover have "received (sub_close 1000 [] ?m) = bs" "sub_exited (sub_close 1000 [] ?m)"
    using 2(2) by (simp_all add: sub_close_def)
  ultimately show ?thesis by blast
qed

theorem mock_tools_agree_witness:
  "\<exists>st (u :: Subscriber). on_open 0 0 publisher = Inr st \<and> received u = sent st \<and> sub_exited u
     \<and> tally (sub_counts u) Hello = 1 \<and> tally (sub_counts u) MessageType.TrackList = 1"
proof -
  obtain st where st: "on_open 0 0 publisher = Inr st" "run pub_step publisher st" "sent st \<noteq> []" by (rule publisher_opens)
  obtain u where u: "run sub_step (subscriber \<lparr>sub_url = None, sub_channel = None, summarize = True\<rparr>) u"
    "received u = sent st" "sub_exited u" using subscriber_reads by blast
  from mock_tools_agree [OF st(2,3) u(1,2)] st(1) u(2,3) show ?thesis by blast
qed

end
